(* ===== verification/Go_Prelude.thy ===== *)
theory Go_Prelude
  imports Main "HOL-Library.Word"
begin

text \<open>
  What every component of the model shares: the outcome of a Go call (a value, an error
  return, a panic, or a loop that never returns), bytes and byte strings, little-endian
  words, and the generic lemmas on lists and words the component theories rest on.
\<close>

section \<open>Collections of rewrite rules\<close>

named_theorems go_simps \<open>unfolding rules for the outcome combinators\<close>
named_theorems read_simps \<open>what a reader returns on bytes that an appender wrote\<close>

section \<open>Outcomes of a Go call\<close>

text \<open>
  A Go function that can fail returns a value of \<open>'e fault + 'a\<close>: \<open>Inr\<close> is a normal
  return, \<open>Inl (Err e)\<close> an error value, \<open>Inl (Panic p)\<close> a run-time panic (which unwinds
  the caller too), \<open>Inl Diverge\<close> a loop whose state repeats, so that the call never returns.
\<close>

datatype panic =
    SliceBounds            \<comment> \<open>slice bounds out of range\<close>
  | IndexRange             \<comment> \<open>index out of range\<close>
  | DivideByZero
  | AssertFailed string    \<comment> \<open>lo.Assert and lo.Assertf\<close>
  | Panicked string        \<comment> \<open>an explicit panic(...)\<close>

datatype 'e fault = Err 'e | Panic panic | Diverge

type_synonym ('e, 'a) go = "'e fault + 'a"

definition go_bind :: "('e, 'a) go \<Rightarrow> ('a \<Rightarrow> ('e, 'b) go) \<Rightarrow> ('e, 'b) go" where
  "go_bind m f = (case m of Inl e \<Rightarrow> Inl e | Inr x \<Rightarrow> f x)"

lemma go_bind_Inl [simp, go_simps]: "go_bind (Inl e) f = Inl e"
  by (simp add: go_bind_def)

lemma go_bind_Inr [simp, go_simps]: "go_bind (Inr x) f = f x"
  by (simp add: go_bind_def)

lemma go_bind_cong [fundef_cong]:
  assumes "m = m'" and "\<And>x. m' = Inr x \<Longrightarrow> f x = f' x"
  shows "go_bind m f = go_bind m' f'"
  using assms by (cases m') (auto simp: go_bind_def)

lemma go_bind_eq_Inr: "go_bind m f = Inr y \<longleftrightarrow> (\<exists>x. m = Inr x \<and> f x = Inr y)"
  by (cases m) auto

lemma go_bind_eq_Inl:
  "go_bind m f = Inl e \<longleftrightarrow> m = Inl e \<or> (\<exists>x. m = Inr x \<and> f x = Inl e)"
  by (cases m) auto

lemma go_bind_assoc: "go_bind (go_bind m f) g = go_bind m (\<lambda>x. go_bind (f x) g)"
  by (cases m) simp_all

text \<open>\<open>fmt.Errorf("...: %w", err)\<close>: an error return is wrapped, a panic passes through.\<close>

definition wrap_err :: "('e \<Rightarrow> 'e) \<Rightarrow> ('e, 'a) go \<Rightarrow> ('e, 'a) go" where
  "wrap_err w m = (case m of Inl (Err e) \<Rightarrow> Inl (Err (w e)) | _ \<Rightarrow> m)"

lemma wrap_err_simps [simp, go_simps]:
  "wrap_err w (Inr x) = Inr x"
  "wrap_err w (Inl (Err e)) = Inl (Err (w e))"
  "wrap_err w (Inl (Panic p)) = Inl (Panic p)"
  "wrap_err w (Inl Diverge) = Inl Diverge"
  by (simp_all add: wrap_err_def)

lemma wrap_err_eq_Inr [simp]: "wrap_err w m = Inr x \<longleftrightarrow> m = Inr x"
  by (auto simp: wrap_err_def split: sum.splits fault.splits)

lemma wrap_err_no_panic:
  "wrap_err w m = Inl (Panic p) \<longleftrightarrow> m = Inl (Panic p)"
  by (auto simp: wrap_err_def split: sum.splits fault.splits)

definition go_assert :: "bool \<Rightarrow> string \<Rightarrow> ('e, unit) go" where
  "go_assert b msg = (if b then Inr () else Inl (Panic (AssertFailed msg)))"

lemma go_assert_simps [simp, go_simps]:
  "go_assert True msg = Inr ()"
  "go_assert False msg = Inl (Panic (AssertFailed msg))"
  by (simp_all add: go_assert_def)

section \<open>Bytes and strings\<close>

text \<open>A Go \<open>[]byte\<close> and a Go \<open>string\<close> are both sequences of bytes.\<close>

type_synonym byte = "8 word"
type_synonym bytes = "byte list"
type_synonym i32 = "32 word"
type_synonym i64 = "64 word"

definition str :: "string \<Rightarrow> bytes" where
  "str s = map of_char s"

text \<open>\<open>bytes.IndexByte(s, b)\<close>, with \<open>None\<close> for -1.\<close>

fun IndexByte :: "bytes \<Rightarrow> byte \<Rightarrow> nat option" where
  "IndexByte [] b = None"
| "IndexByte (x # xs) b = (if x = b then Some 0 else map_option Suc (IndexByte xs b))"

lemma IndexByte_append_notin:
  "b \<notin> set k \<Longrightarrow> IndexByte (k @ b # r) b = Some (length k)"
  by (induction k) auto

lemma IndexByte_Some:
  "IndexByte xs b = Some i \<Longrightarrow> i < length xs \<and> xs ! i = b \<and> b \<notin> set (take i xs)"
  by (induction xs arbitrary: i) (fastforce split: if_splits simp: less_Suc_eq_0_disj)+

lemma IndexByte_None: "IndexByte xs b = None \<longleftrightarrow> b \<notin> set xs"
  by (induction xs) auto

lemma IndexByte_append_left:
  "IndexByte xs b = Some i \<Longrightarrow> IndexByte (xs @ ys) b = Some i"
  by (induction xs arbitrary: i) (auto split: if_splits)

text \<open>\<open>bytes.Compare\<close> and \<open>cmp.Compare\<close> on strings: lexicographic on unsigned bytes.\<close>

fun compare_bytes :: "bytes \<Rightarrow> bytes \<Rightarrow> int" where
  "compare_bytes [] [] = 0"
| "compare_bytes [] (y # ys) = -1"
| "compare_bytes (x # xs) [] = 1"
| "compare_bytes (x # xs) (y # ys) =
     (if x < y then -1 else if y < x then 1 else compare_bytes xs ys)"

lemma compare_bytes_refl [simp]: "compare_bytes xs xs = 0"
  by (induction xs) auto

lemma compare_bytes_eq_0: "compare_bytes xs ys = 0 \<longleftrightarrow> xs = ys"
  by (induction xs ys rule: compare_bytes.induct) auto

lemma compare_bytes_swap: "compare_bytes ys xs = - compare_bytes xs ys"
  by (induction xs ys rule: compare_bytes.induct) auto

lemma compare_bytes_range: "compare_bytes xs ys \<in> {-1, 0, 1}"
  by (induction xs ys rule: compare_bytes.induct) auto

lemma compare_bytes_trans:
  "compare_bytes xs ys \<le> 0 \<Longrightarrow> compare_bytes ys zs \<le> 0 \<Longrightarrow> compare_bytes xs zs \<le> 0"
proof (induction xs arbitrary: ys zs)
  case Nil
  then show ?case by (cases ys; cases zs) auto
next
  case (Cons x xs)
  then show ?case by (cases ys; cases zs) (auto split: if_splits)
qed

section \<open>Indices modulo a capacity\<close>

lemma mod_shift_inj:
  fixes h i j n :: nat
  assumes "(h + i) mod n = (h + j) mod n" and "i < n" and "j < n"
  shows "i = j"
proof -
  have *: "i = j" if "(h + i) mod n = (h + j) mod n" and "i < n" and "j \<le> i" for i j :: nat
  proof -
    from that(1,3) have "n dvd (h + i) - (h + j)"
      using mod_eq_dvd_iff_nat [of "h + j" "h + i" n] by (simp only: add_le_cancel_left)
    then have "n dvd i - j" by (simp only: add_diff_cancel_left)
    then have "i - j = 0" using that(2) by (meson dvd_imp_le less_imp_diff_less linorder_not_less not_gr_zero)
    then show ?thesis using that(3) by simp
  qed
  show ?thesis
    using * [OF assms(1,2)] * [OF assms(1) [symmetric] assms(3)] by (cases "j \<le> i") auto
qed

section \<open>Little-endian integers\<close>

text \<open>
  \<open>le_bytes n k\<close> is the little-endian form of \<open>k\<close> in \<open>n\<close> bytes: byte \<open>i\<close> is
  \<open>byte(k >> (8*i))\<close>. \<open>le_nat\<close> reads it back.
\<close>

fun le_bytes :: "nat \<Rightarrow> nat \<Rightarrow> bytes" where
  "le_bytes 0 k = []"
| "le_bytes (Suc n) k = of_nat k # le_bytes n (k div 256)"

fun le_nat :: "bytes \<Rightarrow> nat" where
  "le_nat [] = 0"
| "le_nat (b # bs) = unat b + 256 * le_nat bs"

lemma length_le_bytes [simp]: "length (le_bytes n k) = n"
  by (induction n arbitrary: k) auto

lemma le_nat_le_bytes: "le_nat (le_bytes n k) = k mod 256 ^ n"
proof (induction n arbitrary: k)
  case 0
  then show ?case by simp
next
  case (Suc n)
  have "le_nat (le_bytes (Suc n) k) = k mod 256 + 256 * (k div 256 mod 256 ^ n)"
    by (simp add: Suc.IH unat_of_nat)
  also have "\<dots> = k mod (256 * 256 ^ n)"
    by (simp add: mod_mult2_eq)
  finally show ?case by simp
qed

lemma le_nat_bound: "le_nat bs < 256 ^ length bs"
proof (induction bs)
  case Nil
  then show ?case by simp
next
  case (Cons b bs)
  have "unat b < 256" using unsigned_less [of b, where ?'a = nat] by simp
  with Cons show ?case by simp
qed

lemma le_bytes_le_nat: "le_bytes (length bs) (le_nat bs) = bs"
proof (induction bs)
  case Nil
  then show ?case by simp
next
  case (Cons b bs)
  have "unat b < 256" using unsigned_less [of b, where ?'a = nat] by simp
  then have "(unat b + 256 * le_nat bs) div 256 = le_nat bs" by simp
  moreover have "(of_nat (unat b + 256 * le_nat bs) :: byte) = b"
  proof -
    have "(256 :: byte) = 0" by simp
    then show ?thesis by (simp only: of_nat_add of_nat_mult of_nat_numeral) simp
  qed
  ultimately show ?case using Cons by simp
qed

text \<open>
  \<open>binaryutil.Append32\<close>, \<open>Append64\<close> and the readers \<open>ReadI32\<close>, \<open>ReadU32\<close>,
  \<open>ReadI64\<close>, \<open>ReadU64\<close>: signed and unsigned values share a word, \<open>sint\<close> or
  \<open>unat\<close> reads it. A reader returns the value and the remaining bytes, or \<open>None\<close> (ok is
  false) when the bytes are too few.
\<close>

definition Append32 :: "bytes \<Rightarrow> i32 \<Rightarrow> bytes" where
  "Append32 dst v = dst @ le_bytes 4 (unat v)"

definition Append64 :: "bytes \<Rightarrow> i64 \<Rightarrow> bytes" where
  "Append64 dst v = dst @ le_bytes 8 (unat v)"

definition Read32 :: "bytes \<Rightarrow> (i32 \<times> bytes) option" where
  "Read32 src = (if length src < 4 then None
     else Some (of_nat (le_nat (take 4 src)), drop 4 src))"

definition Read64 :: "bytes \<Rightarrow> (i64 \<times> bytes) option" where
  "Read64 src = (if length src < 8 then None
     else Some (of_nat (le_nat (take 8 src)), drop 8 src))"

lemma Read32_le_bytes [simp, read_simps]:
  "Read32 (le_bytes 4 (unat v) @ rest) = Some (v, rest)"
proof -
  have "unat v < 4294967296" using unsigned_less [of v, where ?'a = nat] by simp
  then show ?thesis by (simp add: Read32_def le_nat_le_bytes)
qed

lemma Read64_le_bytes [simp, read_simps]:
  "Read64 (le_bytes 8 (unat v) @ rest) = Some (v, rest)"
proof -
  have "unat v < 18446744073709551616" using unsigned_less [of v, where ?'a = nat] by simp
  then show ?thesis by (simp add: Read64_def le_nat_le_bytes)
qed

lemma Read32_Some:
  assumes "Read32 src = Some (v, rest)"
  shows "src = le_bytes 4 (unat v) @ rest"
proof -
  from assms have len: "4 \<le> length src" and v: "v = of_nat (le_nat (take 4 src))"
    and rest: "rest = drop 4 src"
    by (auto simp: Read32_def split: if_splits)
  have "le_nat (take 4 src) < 4294967296"
    using le_nat_bound [of "take 4 src"] len by (simp add: min_absorb2)
  then have "unat v = le_nat (take 4 src)" by (simp add: v unat_of_nat)
  moreover have "le_bytes 4 (le_nat (take 4 src)) = take 4 src"
    using le_bytes_le_nat [of "take 4 src"] len by (simp add: min_absorb2)
  ultimately show ?thesis by (simp add: rest)
qed

lemma Read32_length: "Read32 src = Some (v, rest) \<Longrightarrow> length src = length rest + 4"
  by (auto simp: Read32_def split: if_splits)

text \<open>A 32-bit length below \<open>2^31\<close> reads back as itself under \<open>sint\<close>.\<close>

lemma sint_of_nat_32:
  assumes "n < 2147483648"
  shows "sint (of_nat n :: i32) = int n"
proof -
  have "signed_take_bit 31 (int n) = int n"
    by (rule signed_take_bit_int_eq_self) (use assms in auto)
  moreover have "sint (word_of_int (int n) :: i32) = signed_take_bit 31 (int n)"
    by (simp only: sint_sbintrunc' len_num1 len_bit0) simp
  moreover have "(of_nat n :: i32) = word_of_int (int n)" by simp
  ultimately show ?thesis by metis
qed

lemma unat_of_nat_32: "n < 4294967296 \<Longrightarrow> unat (of_nat n :: i32) = n"
  by (simp add: unat_of_nat)

text \<open>A sum of 64-bit words is the sum of the signed values, as long as that sum fits.\<close>

lemma sint_of_int_64:
  assumes "- 9223372036854775808 \<le> k" and "k < 9223372036854775808"
  shows "sint (word_of_int k :: i64) = k"
proof -
  have "signed_take_bit 63 k = k"
    by (rule signed_take_bit_int_eq_self) (use assms in auto)
  moreover have "sint (word_of_int k :: i64) = signed_take_bit 63 k"
    by (simp only: sint_sbintrunc' len_num1 len_bit0) simp
  ultimately show ?thesis by simp
qed

lemma sum_list_word_sint:
  "sum_list ws = (word_of_int (sum_list (map sint ws)) :: i64)"
  by (induction ws) (simp_all flip: wi_hom_add)

text \<open>\<open>strconv.Itoa\<close> of a number that is not negative.\<close>

fun Itoa :: "nat \<Rightarrow> bytes" where
  "Itoa n = (if n < 10 then [of_nat (48 + n)] else Itoa (n div 10) @ [of_nat (48 + n mod 10)])"

declare Itoa.simps [simp del]

end
