(* ===== verification/Ring_Buf.thy ===== *)
theory Ring_Buf
  imports Go_Prelude
begin

text \<open>
  \<open>ringbuf/ringbuf.go\<close>: the fixed-capacity ring buffer. The record has the fields of the
  struct; the operations return the updated buffer or the panic of the failed assertion.
  The locale \<open>bounded_fifo\<close> is the contract the bounded queue relies on, interpreted at the
  end on the ring buffer itself.
\<close>

section \<open>The struct and its methods\<close>

text \<open>
  Indices and the count are Go \<open>int\<close>/\<open>int64\<close> values between 0 and \<open>len(buf)\<close>, so they
  never wrap; \<open>zero\<close> is the zero value of the element type, which \<open>make\<close> stores.
\<close>

record 'a RingBuf =
  rb_buf :: "'a list"
  rb_head :: nat
  rb_tail :: nat
  rb_count :: int

definition RingBuf_New :: "'a \<Rightarrow> int \<Rightarrow> ('e, 'a RingBuf) go" where
  "RingBuf_New zero capacity =
     (if capacity \<le> 0 then Inl (Panic (Panicked ''ringbuf: capacity must be > 0''))
      else Inr \<lparr>rb_buf = replicate (nat capacity) zero, rb_head = 0, rb_tail = 0, rb_count = 0\<rparr>)"

definition RingBuf_Len :: "'a RingBuf \<Rightarrow> int" where
  "RingBuf_Len r = rb_count r"

definition RingBuf_Cap :: "'a RingBuf \<Rightarrow> int" where
  "RingBuf_Cap r = int (length (rb_buf r))"

definition RingBuf_Push :: "'a RingBuf \<Rightarrow> 'a \<Rightarrow> ('e, 'a RingBuf) go" where
  "RingBuf_Push r item =
     go_bind (go_assert (rb_count r < int (length (rb_buf r))) ''buffer must be non-full'') (\<lambda>_.
     if rb_tail r < length (rb_buf r)
     then Inr (r\<lparr>rb_buf := (rb_buf r)[rb_tail r := item],
                rb_tail := (rb_tail r + 1) mod length (rb_buf r),
                rb_count := rb_count r + 1\<rparr>)
     else Inl (Panic IndexRange))"

definition RingBuf_Peek :: "'a RingBuf \<Rightarrow> ('e, 'a) go" where
  "RingBuf_Peek r =
     go_bind (go_assert (rb_count r \<noteq> 0) ''peek needs nonempty buffer'') (\<lambda>_.
     if rb_head r < length (rb_buf r) then Inr (rb_buf r ! rb_head r)
     else Inl (Panic IndexRange))"

definition RingBuf_Pop :: "'a \<Rightarrow> 'a RingBuf \<Rightarrow> ('e, 'a RingBuf) go" where
  "RingBuf_Pop zero r =
     go_bind (go_assert (rb_count r \<noteq> 0) ''pop needs nonempty buffer'') (\<lambda>_.
     if rb_head r < length (rb_buf r)
     then Inr (r\<lparr>rb_buf := (rb_buf r)[rb_head r := zero],
                rb_head := (rb_head r + 1) mod length (rb_buf r),
                rb_count := rb_count r - 1\<rparr>)
     else Inl (Panic IndexRange))"

lemmas ringbuf_defs =
  RingBuf_New_def RingBuf_Len_def RingBuf_Cap_def RingBuf_Push_def RingBuf_Peek_def RingBuf_Pop_def

section \<open>Abstraction: the queued items, oldest first\<close>

definition slot :: "'a RingBuf \<Rightarrow> nat \<Rightarrow> nat" where
  "slot r i = (rb_head r + i) mod length (rb_buf r)"

definition rb_items :: "'a RingBuf \<Rightarrow> 'a list" where
  "rb_items r = map (\<lambda>i. rb_buf r ! slot r i) [0..<nat (rb_count r)]"

text \<open>
  The invariant: the tail is \<open>count\<close> slots after the head, and every slot that holds no
  queued item is zeroed (so that the garbage collector can take what it referred to).
\<close>

definition rb_inv :: "'a \<Rightarrow> 'a RingBuf \<Rightarrow> bool" where
  "rb_inv zero r \<longleftrightarrow>
     0 < length (rb_buf r) \<and> rb_head r < length (rb_buf r)
     \<and> 0 \<le> rb_count r \<and> rb_count r \<le> int (length (rb_buf r))
     \<and> rb_tail r = slot r (nat (rb_count r))
     \<and> (\<forall>i. nat (rb_count r) \<le> i \<and> i < length (rb_buf r) \<longrightarrow> rb_buf r ! slot r i = zero)"

lemma length_rb_items [simp]: "length (rb_items r) = nat (rb_count r)"
  by (simp add: rb_items_def)

lemma slot_inj:
  assumes "i < length (rb_buf r)" and "j < length (rb_buf r)" and "slot r i = slot r j"
  shows "i = j"
  using mod_shift_inj [OF assms(3) [unfolded slot_def] assms(1,2)] .

lemma slot_bound: "0 < length (rb_buf r) \<Longrightarrow> slot r i < length (rb_buf r)"
  by (simp add: slot_def)

section \<open>Each operation against the queue of items\<close>

lemma New_ok:
  assumes "0 < capacity"
  shows "\<exists>r. RingBuf_New zero capacity = Inr r \<and> rb_inv zero r \<and> rb_items r = []
           \<and> RingBuf_Cap r = capacity"
  using assms by (auto simp: ringbuf_defs rb_inv_def rb_items_def slot_def)

lemma Push_ok:
  assumes inv: "rb_inv zero r" and room: "int (length (rb_items r)) < RingBuf_Cap r"
  shows "\<exists>r'. RingBuf_Push r x = Inr r' \<and> rb_inv zero r' \<and> rb_items r' = rb_items r @ [x]
           \<and> RingBuf_Cap r' = RingBuf_Cap r"
proof -
  let ?n = "length (rb_buf r)" and ?c = "nat (rb_count r)"
  let ?r' = "r\<lparr>rb_buf := (rb_buf r)[rb_tail r := x], rb_tail := (rb_tail r + 1) mod ?n,
              rb_count := rb_count r + 1\<rparr>"
  from inv have n: "0 < ?n" and c: "0 \<le> rb_count r" and tail: "rb_tail r = slot r ?c"
    by (auto simp: rb_inv_def)
  from room c have lt: "?c < ?n" by (simp add: RingBuf_Cap_def)
  have slot': "slot (r\<lparr>rb_buf := b, rb_tail := t, rb_count := c\<rparr>) = slot r"
    if "length b = ?n" for b t c using that by (auto simp: slot_def)
  have cell: "(rb_buf r)[slot r ?c := x] ! slot r i = (if i = ?c then x else rb_buf r ! slot r i)"
    if "i < ?n" for i
    using that lt slot_inj [of i r ?c] slot_bound [OF n] by (auto simp: nth_list_update)
  have nat_c: "nat (rb_count r + 1) = Suc ?c" using c by simp
  have push: "RingBuf_Push r x = Inr ?r'"
    using lt c slot_bound [OF n] by (simp add: RingBuf_Push_def tail go_assert_def)
  have "rb_items ?r' = rb_items r @ [x]"
    unfolding rb_items_def using lt by (simp add: slot' nat_c tail cell)
  moreover have "rb_tail ?r' = slot r (Suc ?c)"
    using tail by (simp add: slot_def mod_Suc_eq)
  then have "rb_inv zero ?r'"
    using inv lt nat_c by (auto simp: rb_inv_def slot' tail cell simp del: length_rb_items)
  ultimately show ?thesis using push by (auto simp: RingBuf_Cap_def)
qed

lemma Push_full:
  assumes "rb_inv zero r" and "int (length (rb_items r)) = RingBuf_Cap r"
  shows "RingBuf_Push r x = Inl (Panic (AssertFailed ''buffer must be non-full''))"
  using assms by (simp add: RingBuf_Push_def RingBuf_Cap_def rb_inv_def go_assert_def)

lemma items_nonempty:
  assumes "rb_inv zero r" and "rb_items r \<noteq> []"
  shows "0 < rb_count r"
proof -
  from assms(2) have "nat (rb_count r) \<noteq> 0" by (metis length_rb_items length_0_conv)
  then show ?thesis by simp
qed

lemma items_step:
  assumes "rb_inv zero r" and "rb_items r \<noteq> []"
  shows "rb_items r = rb_buf r ! rb_head r # map (\<lambda>i. rb_buf r ! slot r (Suc i)) [0..<nat (rb_count r - 1)]"
proof -
  from items_nonempty [OF assms] have "nat (rb_count r) = Suc (nat (rb_count r - 1))" by simp
  then have "[0..<nat (rb_count r)] = 0 # map Suc [0..<nat (rb_count r - 1)]"
    by (simp add: upt_conv_Cons map_Suc_upt del: upt_Suc)
  moreover have "slot r 0 = rb_head r" using assms(1) by (simp add: slot_def rb_inv_def)
  ultimately show ?thesis by (simp add: rb_items_def)
qed

lemma Peek_ok:
  assumes "rb_inv zero r" and "rb_items r \<noteq> []"
  shows "RingBuf_Peek r = Inr (hd (rb_items r))"
  using items_nonempty [OF assms] items_step [OF assms] assms(1)
  by (simp add: RingBuf_Peek_def rb_inv_def)

lemma Pop_ok:
  assumes inv: "rb_inv zero r" and ne: "rb_items r \<noteq> []"
  shows "\<exists>r'. RingBuf_Pop zero r = Inr r' \<and> rb_inv zero r' \<and> rb_items r' = tl (rb_items r)
           \<and> RingBuf_Cap r' = RingBuf_Cap r"
proof -
  let ?n = "length (rb_buf r)" and ?c = "nat (rb_count r)"
  let ?r' = "r\<lparr>rb_buf := (rb_buf r)[rb_head r := zero], rb_head := (rb_head r + 1) mod ?n,
              rb_count := rb_count r - 1\<rparr>"
  from inv have n: "0 < ?n" and h: "rb_head r < ?n" and cn: "rb_count r \<le> int ?n"
    and tail: "rb_tail r = slot r ?c" by (auto simp: rb_inv_def)
  from items_nonempty [OF inv ne] have c: "?c = Suc (nat (rb_count r - 1))" by simp
  have le: "Suc (nat (rb_count r - 1)) \<le> ?n" using c cn by linarith
  have slot': "slot (r\<lparr>rb_buf := b, rb_head := Suc (rb_head r) mod ?n, rb_count := k\<rparr>) i
      = slot r (Suc i)" if "length b = ?n" for b k i
    using that by (simp add: slot_def mod_add_left_eq)
  have slot0: "slot r 0 = rb_head r" using h by (simp add: slot_def)
  have wrap: "slot r ?n = rb_head r" using h by (simp add: slot_def)
  have cell: "(rb_buf r)[rb_head r := zero] ! slot r (Suc i) =
      (if Suc i = ?n then zero else rb_buf r ! slot r (Suc i))" if "i < ?n" for i
  proof (cases "Suc i = ?n")
    case False
    with that n have "slot r (Suc i) \<noteq> rb_head r"
      using slot_inj [of "Suc i" r 0, unfolded slot0] by linarith
    with False show ?thesis by simp
  qed (use h wrap in \<open>simp add: nth_list_update\<close>)
  have "rb_items ?r' = tl (rb_items r)"
  proof -
    have "map (\<lambda>i. (rb_buf r)[rb_head r := zero] ! slot r (Suc i)) [0..<nat (rb_count r - 1)]
        = map (\<lambda>i. rb_buf r ! slot r (Suc i)) [0..<nat (rb_count r - 1)]"
      using le by (intro map_cong refl) (auto simp: cell)
    then show ?thesis using items_step [OF inv ne] by (simp add: rb_items_def slot')
  qed
  moreover have "rb_inv zero ?r'"
  proof -
    have "rb_buf ?r' ! slot ?r' i = zero" if "nat (rb_count r - 1) \<le> i" and "i < ?n" for i
      using that inv c by (simp add: slot' cell rb_inv_def)
    moreover have "rb_tail r = slot ?r' (nat (rb_count r - 1))" by (simp add: slot' tail c)
    ultimately show ?thesis using n cn c by (simp add: rb_inv_def)
  qed
  moreover have "RingBuf_Pop zero r = Inr ?r'"
    using items_nonempty [OF inv ne] h by (simp add: RingBuf_Pop_def)
  ultimately show ?thesis by (auto simp: RingBuf_Cap_def)
qed

lemma empty_panics:
  assumes "rb_inv zero r" and "rb_items r = []"
  shows "RingBuf_Peek r = Inl (Panic (AssertFailed ''peek needs nonempty buffer''))"
    and "RingBuf_Pop zero r = Inl (Panic (AssertFailed ''pop needs nonempty buffer''))"
proof -
  from assms(2) have "nat (rb_count r) = 0" by (metis length_rb_items list.size(3))
  with assms(1) have "rb_count r = 0" by (simp add: rb_inv_def)
  then show "RingBuf_Peek r = Inl (Panic (AssertFailed ''peek needs nonempty buffer''))"
    and "RingBuf_Pop zero r = Inl (Panic (AssertFailed ''pop needs nonempty buffer''))"
    by (simp_all add: RingBuf_Peek_def RingBuf_Pop_def)
qed

section \<open>The contract of a bounded queue\<close>

text \<open>
  A caller sees a queue as the list of its items: \<open>push\<close> appends while there is room, \<open>peek\<close>
  returns the oldest item, \<open>pop\<close> drops it, and each panics where the list has no answer.
  \<open>run_ops\<close> is a client's sequence of calls, \<open>list_ops\<close> what it must compute.
\<close>

datatype 'a qop = Enq 'a | Deq

fun run_ops ::
  "('q \<Rightarrow> 'a \<Rightarrow> ('e, 'q) go) \<Rightarrow> ('q \<Rightarrow> ('e, 'a) go) \<Rightarrow> ('q \<Rightarrow> ('e, 'q) go)
     \<Rightarrow> 'q \<Rightarrow> 'a qop list \<Rightarrow> ('e, 'q \<times> 'a list) go" where
  "run_ops push peek pop q [] = Inr (q, [])"
| "run_ops push peek pop q (Enq x # ops) =
     go_bind (push q x) (\<lambda>q'. run_ops push peek pop q' ops)"
| "run_ops push peek pop q (Deq # ops) =
     go_bind (peek q) (\<lambda>x. go_bind (pop q) (\<lambda>q'.
     go_bind (run_ops push peek pop q' ops) (\<lambda>(q'', out). Inr (q'', x # out))))"

fun list_ops :: "int \<Rightarrow> 'a list \<Rightarrow> 'a qop list \<Rightarrow> ('a list \<times> 'a list) option" where
  "list_ops n xs [] = Some (xs, [])"
| "list_ops n xs (Enq x # ops) = (if int (length xs) < n then list_ops n (xs @ [x]) ops else None)"
| "list_ops n [] (Deq # ops) = None"
| "list_ops n (x # xs) (Deq # ops) = map_option (\<lambda>(l, out). (l, x # out)) (list_ops n xs ops)"

locale bounded_fifo =
  fixes cap :: "'q \<Rightarrow> int"
    and push :: "'q \<Rightarrow> 'a \<Rightarrow> ('e, 'q) go"
    and peek :: "'q \<Rightarrow> ('e, 'a) go"
    and pop :: "'q \<Rightarrow> ('e, 'q) go"
    and items :: "'q \<Rightarrow> 'a list"
    and inv :: "'q \<Rightarrow> bool"
  assumes push_ok: "\<And>q x. inv q \<Longrightarrow> int (length (items q)) < cap q \<Longrightarrow>
      \<exists>q'. push q x = Inr q' \<and> inv q' \<and> items q' = items q @ [x] \<and> cap q' = cap q"
    and push_full: "\<And>q x. inv q \<Longrightarrow> int (length (items q)) = cap q \<Longrightarrow>
      \<exists>m. push q x = Inl (Panic (AssertFailed m))"
    and peek_ok: "\<And>q. inv q \<Longrightarrow> items q \<noteq> [] \<Longrightarrow> peek q = Inr (hd (items q))"
    and peek_empty: "\<And>q. inv q \<Longrightarrow> items q = [] \<Longrightarrow> \<exists>m. peek q = Inl (Panic (AssertFailed m))"
    and pop_ok: "\<And>q. inv q \<Longrightarrow> items q \<noteq> [] \<Longrightarrow>
      \<exists>q'. pop q = Inr q' \<and> inv q' \<and> items q' = tl (items q) \<and> cap q' = cap q"
    and within_cap: "\<And>q. inv q \<Longrightarrow> int (length (items q)) \<le> cap q"
begin

lemma run_ops_refines:
  "inv q \<Longrightarrow> list_ops (cap q) (items q) ops = Some (l, out) \<Longrightarrow>
     \<exists>q'. run_ops push peek pop q ops = Inr (q', out) \<and> inv q' \<and> items q' = l \<and> cap q' = cap q"
proof (induction ops arbitrary: q l out)
  case Nil
  then show ?case by auto
next
  case (Cons op ops)
  show ?case
  proof (cases op)
    case (Enq x)
    with Cons.prems have room: "int (length (items q)) < cap q" by (auto split: if_splits)
    obtain q' where q': "push q x = Inr q'" "inv q'" "items q' = items q @ [x]" "cap q' = cap q"
      using push_ok [OF Cons.prems(1) room, of x] by auto
    with Enq Cons.prems(2) room have "list_ops (cap q') (items q') ops = Some (l, out)" by simp
    from Cons.IH [OF q'(2) this] q' Enq show ?thesis by auto
  next
    case Deq
    with Cons.prems obtain x xs out' where xs: "items q = x # xs" and out: "out = x # out'"
      and rest: "list_ops (cap q) xs ops = Some (l, out')"
      by (cases "items q") auto
    obtain q' where q': "pop q = Inr q'" "inv q'" "items q' = xs" "cap q' = cap q"
      using pop_ok [OF Cons.prems(1)] xs by auto
    moreover have "peek q = Inr x" using peek_ok [OF Cons.prems(1)] xs by simp
    moreover from Cons.IH [OF q'(2)] rest q' obtain q'' where
      "run_ops push peek pop q' ops = Inr (q'', out')" "inv q''" "items q'' = l" "cap q'' = cap q"
      by auto
    ultimately show ?thesis using Deq out by auto
  qed
qed

lemma run_ops_panics:
  "inv q \<Longrightarrow> list_ops (cap q) (items q) ops = None \<Longrightarrow>
     \<exists>m. run_ops push peek pop q ops = Inl (Panic (AssertFailed m))"
proof (induction ops arbitrary: q)
  case Nil
  then show ?case by simp
next
  case (Cons op ops)
  show ?case
  proof (cases op)
    case (Enq x)
    show ?thesis
    proof (cases "int (length (items q)) < cap q")
      case True
      obtain q' where q': "push q x = Inr q'" "inv q'" "items q' = items q @ [x]" "cap q' = cap q"
        using push_ok [OF Cons.prems(1) True, of x] by auto
      with Enq Cons.prems(2) True have "list_ops (cap q') (items q') ops = None" by simp
      from Cons.IH [OF q'(2) this] q' Enq show ?thesis by auto
    next
      case False
      with within_cap [OF Cons.prems(1)] have "int (length (items q)) = cap q" by simp
      from push_full [OF Cons.prems(1) this, of x] Enq show ?thesis by auto
    qed
  next
    case Deq
    show ?thesis
    proof (cases "items q")
      case Nil
      from peek_empty [OF Cons.prems(1) Nil] Deq show ?thesis by auto
    next
      case (Cons x xs)
      obtain q' where q': "pop q = Inr q'" "inv q'" "items q' = xs" "cap q' = cap q"
        using pop_ok [OF Cons.prems(1)] Cons by auto
      moreover have "peek q = Inr x" using peek_ok [OF Cons.prems(1)] Cons by simp
      moreover have "list_ops (cap q') (items q') ops = None"
        using Cons.prems(2) Deq Cons q' by simp
      ultimately show ?thesis using Cons.IH [OF q'(2)] Deq by auto
    qed
  qed
qed

end

interpretation rb: bounded_fifo RingBuf_Cap RingBuf_Push RingBuf_Peek "RingBuf_Pop zero"
  rb_items "rb_inv zero"
  for zero :: 'a
proof
  fix q :: "'a RingBuf"
  assume "rb_inv zero q"
  then show "int (length (rb_items q)) \<le> RingBuf_Cap q"
    by (simp add: rb_inv_def RingBuf_Cap_def)
qed (erule (1) Push_ok Peek_ok Pop_ok | rule exI, erule (1) Push_full empty_panics)+

section \<open>Property of the ring buffer\<close>

text \<open>
  C26: any sequence of \<open>Push\<close> and \<open>Peek\<close>/\<open>Pop\<close> calls on a fresh ring buffer computes what
  it computes on a list bounded by the capacity: the same items come out in the same order and
  the slots left behind are zeroed, and the calls panic exactly when the list is full or empty.
\<close>

theorem ringbuf_refines_list:
  fixes zero :: 'a
  assumes "0 < capacity"
  shows "\<exists>r. (RingBuf_New zero capacity :: ('e, 'a RingBuf) go) = Inr r \<and>
    (case list_ops capacity [] ops of
       Some (l, out) \<Rightarrow> \<exists>r'. (run_ops RingBuf_Push RingBuf_Peek (RingBuf_Pop zero) r ops
           :: ('e, 'a RingBuf \<times> 'a list) go) = Inr (r', out)
         \<and> rb_items r' = l \<and> rb_inv zero r' \<and> RingBuf_Len r' = int (length l)
     | None \<Rightarrow> \<exists>m. (run_ops RingBuf_Push RingBuf_Peek (RingBuf_Pop zero) r ops
           :: ('e, 'a RingBuf \<times> 'a list) go) = Inl (Panic (AssertFailed m)))"
proof -
  obtain r where r: "(RingBuf_New zero capacity :: ('e, 'a RingBuf) go) = Inr r"
    "rb_inv zero r" "rb_items r = []" "RingBuf_Cap r = capacity"
    using New_ok [OF assms, of zero] by metis
  have len: "rb_inv zero r' \<Longrightarrow> RingBuf_Len r' = int (length (rb_items r'))" for r' :: "'a RingBuf"
    by (simp add: RingBuf_Len_def rb_inv_def)
  show ?thesis
  proof (cases "list_ops capacity [] ops")
    case None
    then show ?thesis using r rb.run_ops_panics [OF r(2), of ops] by simp
  next
    case (Some res)
    obtain l out where res: "res = (l, out)" by (cases res)
    have "list_ops (RingBuf_Cap r) (rb_items r) ops = Some (l, out)" by (simp add: r Some res)
    from rb.run_ops_refines [OF r(2) this] obtain r' where
      "(run_ops RingBuf_Push RingBuf_Peek (RingBuf_Pop zero) r ops :: ('e, _) go) = Inr (r', out)"
      "rb_inv zero r'" "rb_items r' = l" by blast
    with r(1) len [of r'] have "(RingBuf_New zero capacity :: ('e, 'a RingBuf) go) = Inr r
      \<and> (run_ops RingBuf_Push RingBuf_Peek (RingBuf_Pop zero) r ops :: ('e, _) go) = Inr (r', out)
      \<and> rb_items r' = l \<and> rb_inv zero r' \<and> RingBuf_Len r' = int (length l)" by simp
    then show ?thesis unfolding Some res by fastforce
  qed
qed

theorem ringbuf_refines_list_witness:
  "\<exists>r r'. (RingBuf_New 0 2 :: (unit, _) go) = Inr r
     \<and> (run_ops RingBuf_Push RingBuf_Peek (RingBuf_Pop 0) r [Enq (7 :: int), Enq 8, Deq, Enq 9]
         :: (unit, _) go) = Inr (r', [7]) \<and> rb_items r' = [8, 9]"
proof -
  have "list_ops 2 [] [Enq (7 :: int), Enq 8, Deq, Enq 9] = Some ([8, 9], [7])" by simp
  then show ?thesis
    using ringbuf_refines_list [of 2 "0 :: int" "[Enq 7, Enq 8, Deq, Enq 9]", where ?'e = unit]
    by fastforce
qed

end
