(* ===== verification/Bounded_Queue.thy ===== *)
theory Bounded_Queue
  imports Ring_Buf
begin

text \<open>
  \<open>synctools/bounded_queue.go\<close>: the worker goroutine behind \<open>NewBoundedQueue\<close>. Its
  environment (producer, consumer, context) decides which \<open>select\<close> case fires; an event
  names that case, and a handler answers \<open>None\<close> where the \<open>select\<close> does not offer it.
\<close>

section \<open>The worker and its environment\<close>

record 'a bufferedItem =
  bi_item :: 'a
  bi_size :: i64

record BoundedQueueStats =
  BufferedItems :: int
  MaxItems :: int
  BufferedBytes :: i64
  MaxBytes :: i64

text \<open>
  The fields of the Go struct; the channels \<open>in\<close> and \<open>out\<close> appear as the sequence of items
  taken from the one and handed to the other.
\<close>

record 'a boundedQueueWorker =
  w_in :: "'a list"
  w_out :: "'a list"
  w_buf :: "'a bufferedItem RingBuf"
  w_curMem :: i64
  w_size :: "'a \<Rightarrow> i64"
  w_maxCount :: int
  w_maxMem :: i64

datatype 'a event =
    CtxDone       \<comment> \<open>\<open><-ctx.Done()\<close>\<close>
  | Recv 'a       \<comment> \<open>\<open>item, ok := <-w.in\<close> with \<open>ok\<close>\<close>
  | InClosed      \<comment> \<open>\<open>item, ok := <-w.in\<close> with \<open>!ok\<close>\<close>
  | Sent          \<comment> \<open>\<open>w.out <- ...\<close> was taken by a reader\<close>

text \<open>What a handler tells the loop of \<open>run\<close>: \<open>true\<close>, \<open>flushRemaining\<close> and then \<open>false\<close>, \<open>false\<close>.\<close>

datatype verdict = Continue | Flush | Halt

definition NewBoundedQueue ::
  "'a bufferedItem \<Rightarrow> int \<Rightarrow> i64 \<Rightarrow> ('a \<Rightarrow> i64) option \<Rightarrow> (unit, 'a boundedQueueWorker) go" where
  "NewBoundedQueue zero maxCount maxTotalSize size_fn =
     go_bind (go_assert (0 < maxCount) ''maxCount must be positive'') (\<lambda>_.
     go_bind (go_assert (0 < sint maxTotalSize) ''maxTotalSize must be positive'') (\<lambda>_.
     case size_fn of
       None \<Rightarrow> Inl (Panic (AssertFailed ''size must not be nil''))
     | Some f \<Rightarrow> go_bind (RingBuf_New zero maxCount) (\<lambda>b.
         Inr \<lparr>w_in = [], w_out = [], w_buf = b, w_curMem = 0, w_size = f,
              w_maxCount = maxCount, w_maxMem = maxTotalSize\<rparr>)))"

text \<open>
  The stats function runs in another goroutine and takes no lock. It reads the count first and the
  byte total later: \<open>w\<close> is the worker at the first of the two reads and \<open>w'\<close> at the second.
\<close>

definition statsFn :: "'a boundedQueueWorker \<Rightarrow> 'a boundedQueueWorker \<Rightarrow> BoundedQueueStats" where
  "statsFn w w' = \<lparr>BufferedItems = RingBuf_Len (w_buf w), MaxItems = w_maxCount w,
                   BufferedBytes = w_curMem w', MaxBytes = w_maxMem w\<rparr>"

section \<open>The handlers\<close>

text \<open>No handler returns an error value, so the error type is \<open>unit\<close>.\<close>

definition itemSize :: "'a boundedQueueWorker \<Rightarrow> 'a \<Rightarrow> (unit, i64) go" where
  "itemSize w item =
     (let size = w_size w item in
      go_bind (go_assert (0 \<le> sint size) ''bounded channel item size must be nonnegative'') (\<lambda>_.
      Inr size))"

text \<open>
  The atomic updates that a stats reader can see between: of the ring buffer's count, at the end of
  its \<open>Push\<close> and \<open>Pop\<close>, and of \<open>curMem\<close>.
\<close>

definition push_entry ::
  "'a boundedQueueWorker \<Rightarrow> 'a bufferedItem \<Rightarrow> (unit, 'a boundedQueueWorker) go" where
  "push_entry w entry = go_bind (RingBuf_Push (w_buf w) entry) (\<lambda>b. Inr (w\<lparr>w_buf := b\<rparr>))"

definition pop_entry ::
  "'a bufferedItem \<Rightarrow> 'a boundedQueueWorker \<Rightarrow> (unit, 'a boundedQueueWorker) go" where
  "pop_entry zero w = go_bind (RingBuf_Pop zero (w_buf w)) (\<lambda>b. Inr (w\<lparr>w_buf := b\<rparr>))"

definition add_mem :: "'a boundedQueueWorker \<Rightarrow> i64 \<Rightarrow> 'a boundedQueueWorker" where
  "add_mem w d = w\<lparr>w_curMem := w_curMem w + d\<rparr>"

definition worker_push :: "'a boundedQueueWorker \<Rightarrow> 'a \<Rightarrow> (unit, 'a boundedQueueWorker) go" where
  "worker_push w item =
     go_bind (itemSize w item) (\<lambda>sz.
     go_bind (push_entry w \<lparr>bi_item = item, bi_size = sz\<rparr>) (\<lambda>w.
     Inr (add_mem w sz)))"

definition worker_pop ::
  "'a bufferedItem \<Rightarrow> 'a boundedQueueWorker \<Rightarrow> (unit, 'a boundedQueueWorker) go" where
  "worker_pop zero w =
     go_bind (RingBuf_Peek (w_buf w)) (\<lambda>entry.
     pop_entry zero (add_mem w (- bi_size entry)))"

definition receive :: "'a boundedQueueWorker \<Rightarrow> 'a \<Rightarrow> (unit, 'a boundedQueueWorker \<times> verdict) go" where
  "receive w item =
     go_bind (worker_push (w\<lparr>w_in := w_in w @ [item]\<rparr>) item) (\<lambda>w'. Inr (w', Continue))"

definition send ::
  "'a bufferedItem \<Rightarrow> 'a boundedQueueWorker \<Rightarrow> 'a bufferedItem
     \<Rightarrow> (unit, 'a boundedQueueWorker) go" where
  "send zero w entry = worker_pop zero (w\<lparr>w_out := w_out w @ [bi_item entry]\<rparr>)"

definition receiveItem ::
  "'a boundedQueueWorker \<Rightarrow> 'a event \<Rightarrow> (unit, 'a boundedQueueWorker \<times> verdict) go option" where
  "receiveItem w ev =
     (case ev of
        CtxDone \<Rightarrow> Some (Inr (w, Halt))
      | InClosed \<Rightarrow> Some (Inr (w, Halt))
      | Recv item \<Rightarrow> Some (receive w item)
      | Sent \<Rightarrow> None)"

definition drainOne ::
  "'a bufferedItem \<Rightarrow> 'a boundedQueueWorker \<Rightarrow> 'a event
     \<Rightarrow> (unit, 'a boundedQueueWorker \<times> verdict) go option" where
  "drainOne zero w ev =
     (case ev of
        CtxDone \<Rightarrow> Some (go_bind (RingBuf_Peek (w_buf w)) (\<lambda>_. Inr (w, Halt)))
      | Sent \<Rightarrow> Some (go_bind (RingBuf_Peek (w_buf w)) (\<lambda>entry.
          go_bind (send zero w entry) (\<lambda>w'. Inr (w', Continue))))
      | _ \<Rightarrow> None)"

text \<open>Every operand of a \<open>select\<close> is evaluated on entry, \<open>w.buf.Peek()\<close> included.\<close>

definition receiveOrSendNormal ::
  "'a bufferedItem \<Rightarrow> 'a boundedQueueWorker \<Rightarrow> 'a event
     \<Rightarrow> (unit, 'a boundedQueueWorker \<times> verdict) go option" where
  "receiveOrSendNormal zero w ev =
     Some (go_bind (RingBuf_Peek (w_buf w)) (\<lambda>entry.
       case ev of
         CtxDone \<Rightarrow> Inr (w, Halt)
       | InClosed \<Rightarrow> Inr (w, Flush)
       | Recv itemIn \<Rightarrow> receive w itemIn
       | Sent \<Rightarrow> go_bind (send zero w entry) (\<lambda>w'. Inr (w', Continue))))"

definition at_limit :: "'a boundedQueueWorker \<Rightarrow> bool" where
  "at_limit w \<longleftrightarrow>
     RingBuf_Len (w_buf w) = w_maxCount w \<or> sint (w_maxMem w) \<le> sint (w_curMem w)"

definition receiveOrSend ::
  "'a bufferedItem \<Rightarrow> 'a boundedQueueWorker \<Rightarrow> 'a event
     \<Rightarrow> (unit, 'a boundedQueueWorker \<times> verdict) go option" where
  "receiveOrSend zero w ev =
     (if at_limit w then drainOne zero w ev else receiveOrSendNormal zero w ev)"

definition processItems ::
  "'a bufferedItem \<Rightarrow> 'a boundedQueueWorker \<Rightarrow> 'a event
     \<Rightarrow> (unit, 'a boundedQueueWorker \<times> verdict) go option" where
  "processItems zero w ev =
     (if RingBuf_Len (w_buf w) = 0 then receiveItem w ev else receiveOrSend zero w ev)"

text \<open>One turn of the loop in \<open>flushRemaining\<close>: the boolean says whether it returns.\<close>

definition flushTurn ::
  "'a bufferedItem \<Rightarrow> 'a boundedQueueWorker \<Rightarrow> 'a event
     \<Rightarrow> (unit, 'a boundedQueueWorker \<times> bool) go option" where
  "flushTurn zero w ev =
     (case ev of
        CtxDone \<Rightarrow> Some (go_bind (RingBuf_Peek (w_buf w)) (\<lambda>_. Inr (w, True)))
      | Sent \<Rightarrow> Some (go_bind (RingBuf_Peek (w_buf w)) (\<lambda>entry.
          go_bind (send zero w entry) (\<lambda>w'. Inr (w', False))))
      | _ \<Rightarrow> None)"

section \<open>The goroutine as a step relation\<close>

text \<open>
  \<open>Looping\<close> is the loop of \<open>run\<close>, \<open>Flushing\<close> the loop of \<open>flushRemaining\<close>, \<open>Stopped\<close> the
  state after \<open>close(w.out)\<close>; \<open>Crashed\<close> is a panic in the goroutine.
\<close>

datatype 'a bq_state =
    Looping "'a boundedQueueWorker"
  | Flushing "'a boundedQueueWorker"
  | Stopped "'a boundedQueueWorker"
  | Crashed "unit fault"

definition flush_loop :: "'a boundedQueueWorker \<Rightarrow> 'a bq_state" where
  "flush_loop w = (if 0 < RingBuf_Len (w_buf w) then Flushing w else Stopped w)"

inductive bq_step :: "'a bufferedItem \<Rightarrow> 'a bq_state \<Rightarrow> 'a event \<Rightarrow> 'a bq_state \<Rightarrow> bool"
  for zero :: "'a bufferedItem" where
  step_continue: "processItems zero w ev = Some (Inr (w', Continue)) \<Longrightarrow>
     bq_step zero (Looping w) ev (Looping w')"
| step_flush: "processItems zero w ev = Some (Inr (w', Flush)) \<Longrightarrow>
     bq_step zero (Looping w) ev (flush_loop w')"
| step_halt: "processItems zero w ev = Some (Inr (w', Halt)) \<Longrightarrow>
     bq_step zero (Looping w) ev (Stopped w')"
| step_crash: "processItems zero w ev = Some (Inl e) \<Longrightarrow>
     bq_step zero (Looping w) ev (Crashed e)"
| flush_return: "flushTurn zero w ev = Some (Inr (w', True)) \<Longrightarrow>
     bq_step zero (Flushing w) ev (Stopped w')"
| flush_turn: "flushTurn zero w ev = Some (Inr (w', False)) \<Longrightarrow>
     bq_step zero (Flushing w) ev (flush_loop w')"
| flush_crash: "flushTurn zero w ev = Some (Inl e) \<Longrightarrow>
     bq_step zero (Flushing w) ev (Crashed e)"

inductive bq_run :: "'a bufferedItem \<Rightarrow> 'a bq_state \<Rightarrow> 'a event list \<Rightarrow> 'a bq_state \<Rightarrow> bool"
  for zero :: "'a bufferedItem" where
  run_nil: "bq_run zero s [] s"
| run_step: "bq_step zero s ev t \<Longrightarrow> bq_run zero t evs u \<Longrightarrow> bq_run zero s (ev # evs) u"

inductive_simps step_Looping: "bq_step zero (Looping w) ev t"
inductive_simps step_Flushing: "bq_step zero (Flushing w) ev t"
inductive_simps step_Stopped [simp]: "bq_step zero (Stopped w) ev t"
inductive_simps step_Crashed [simp]: "bq_step zero (Crashed e) ev t"
inductive_simps run_Cons: "bq_run zero s (ev # evs) u"
inductive_simps run_Nil [simp]: "bq_run zero s [] u"

lemmas handler_defs =
  processItems_def receiveItem_def receiveOrSend_def receiveOrSendNormal_def drainOne_def
  flushTurn_def

section \<open>What the queue promises\<close>

text \<open>
  The abstract queue: its phase, the queued items, and all items accepted and delivered so
  far. \<open>f\<close> gives an item's size, \<open>n\<close> and \<open>m\<close> are the limits on count and total size.
\<close>

datatype phase = Open | Draining | Closed

type_synonym 'a spec_state = "phase \<times> 'a list \<times> 'a list \<times> 'a list"

definition total_size :: "('a \<Rightarrow> i64) \<Rightarrow> 'a list \<Rightarrow> int" where
  "total_size f q = sum_list (map (\<lambda>x. sint (f x)) q)"

definition below_limits :: "('a \<Rightarrow> i64) \<Rightarrow> int \<Rightarrow> int \<Rightarrow> 'a list \<Rightarrow> bool" where
  "below_limits f n m q \<longleftrightarrow> int (length q) < n \<and> total_size f q < m"

inductive spec_step ::
  "('a \<Rightarrow> i64) \<Rightarrow> int \<Rightarrow> int \<Rightarrow> 'a spec_state \<Rightarrow> 'a event \<Rightarrow> 'a spec_state \<Rightarrow> bool"
  for f n m where
  accept: "below_limits f n m q \<Longrightarrow>
     spec_step f n m (Open, q, i, out) (Recv x) (Open, q @ [x], i @ [x], out)"
| deliver: "spec_step f n m (Open, x # q, i, out) Sent (Open, q, i, out @ [x])"
| close_empty: "spec_step f n m (Open, [], i, out) InClosed (Closed, [], i, out)"
| close_full: "q \<noteq> [] \<Longrightarrow> below_limits f n m q \<Longrightarrow>
     spec_step f n m (Open, q, i, out) InClosed (Draining, q, i, out)"
| drain: "spec_step f n m (Draining, x # q, i, out) Sent
     (if q = [] then Closed else Draining, q, i, out @ [x])"
| cancel: "p \<noteq> Closed \<Longrightarrow> spec_step f n m (p, q, i, out) CtxDone (Closed, q, i, out)"

inductive spec_run ::
  "('a \<Rightarrow> i64) \<Rightarrow> int \<Rightarrow> int \<Rightarrow> 'a spec_state \<Rightarrow> 'a event list \<Rightarrow> 'a spec_state \<Rightarrow> bool"
  for f n m where
  spec_nil: "spec_run f n m a [] a"
| spec_cons: "spec_step f n m a ev b \<Longrightarrow> spec_run f n m b evs c \<Longrightarrow> spec_run f n m a (ev # evs) c"

inductive_cases spec_stepE: "spec_step f n m a ev b"

section \<open>The refinement relation\<close>

definition queued :: "'a boundedQueueWorker \<Rightarrow> 'a list" where
  "queued w = map bi_item (rb_items (w_buf w))"

definition worker_abs :: "phase \<Rightarrow> 'a boundedQueueWorker \<Rightarrow> 'a spec_state" where
  "worker_abs p w = (p, queued w, w_in w, w_out w)"

definition worker_inv ::
  "'a bufferedItem \<Rightarrow> ('a \<Rightarrow> i64) \<Rightarrow> int \<Rightarrow> int \<Rightarrow> int \<Rightarrow> 'a boundedQueueWorker \<Rightarrow> bool" where
  "worker_inv zero f n m B w \<longleftrightarrow>
     rb_inv zero (w_buf w) \<and> RingBuf_Cap (w_buf w) = n
     \<and> w_size w = f \<and> w_maxCount w = n \<and> sint (w_maxMem w) = m
     \<and> w_curMem w = sum_list (map bi_size (rb_items (w_buf w)))
     \<and> (\<forall>b \<in> set (rb_items (w_buf w)). bi_size b = f (bi_item b))
     \<and> w_in w = w_out w @ queued w \<and> total_size f (queued w) < m + B"

text \<open>The standing conditions: positive limits, sizes in \<open>{0..B}\<close>, and \<open>m + B\<close> within int64.\<close>

definition sane_sizes :: "('a \<Rightarrow> i64) \<Rightarrow> int \<Rightarrow> int \<Rightarrow> int \<Rightarrow> bool" where
  "sane_sizes f n m B \<longleftrightarrow> 0 < n \<and> 0 < m \<and> m + B \<le> 9223372036854775808
     \<and> (\<forall>x. 0 \<le> sint (f x) \<and> sint (f x) \<le> B)"

fun refines ::
  "'a bufferedItem \<Rightarrow> ('a \<Rightarrow> i64) \<Rightarrow> int \<Rightarrow> int \<Rightarrow> int \<Rightarrow> 'a bq_state \<Rightarrow> 'a spec_state \<Rightarrow> bool" where
  "refines zero f n m B (Looping w) a = (worker_inv zero f n m B w \<and> a = worker_abs Open w)"
| "refines zero f n m B (Flushing w) a =
     (worker_inv zero f n m B w \<and> queued w \<noteq> [] \<and> a = worker_abs Draining w)"
| "refines zero f n m B (Stopped w) a = (worker_inv zero f n m B w \<and> a = worker_abs Closed w)"
| "refines zero f n m B (Crashed e) a = False"

abbreviation oldest :: "'a boundedQueueWorker \<Rightarrow> (unit, 'a bufferedItem) go" where
  "oldest w \<equiv> RingBuf_Peek (w_buf w)"

lemma total_size_simps [simp]:
  "total_size f [] = 0"
  "total_size f (x # q) = sint (f x) + total_size f q"
  "total_size f (q @ r) = total_size f q + total_size f r"
  by (simp_all add: total_size_def)

lemma total_size_nonneg:
  assumes "sane_sizes f n m B"
  shows "0 \<le> total_size f q"
  using assms by (induction q) (auto simp: sane_sizes_def)

lemma queue_length: "worker_inv zero f n m B w \<Longrightarrow> RingBuf_Len (w_buf w) = int (length (queued w))"
  by (simp add: worker_inv_def queued_def RingBuf_Len_def rb_inv_def)

lemma curMem_total:
  assumes "worker_inv zero f n m B w" and "sane_sizes f n m B"
  shows "sint (w_curMem w) = total_size f (queued w)"
proof -
  from assms(1) have "map sint (map bi_size (rb_items (w_buf w))) = map (\<lambda>x. sint (f x)) (queued w)"
    by (auto simp: worker_inv_def queued_def)
  then have "w_curMem w = word_of_int (total_size f (queued w))"
    using assms(1) sum_list_word_sint [of "map bi_size (rb_items (w_buf w))"]
    by (simp add: worker_inv_def total_size_def)
  moreover have "total_size f (queued w) < 9223372036854775808"
    using assms by (auto simp: worker_inv_def sane_sizes_def)
  ultimately show ?thesis
    using total_size_nonneg [OF assms(2), of "queued w"] by (simp add: sint_of_int_64)
qed

lemma at_limit_iff:
  assumes "worker_inv zero f n m B w" and "sane_sizes f n m B"
  shows "at_limit w \<longleftrightarrow> \<not> below_limits f n m (queued w)"
proof -
  have "int (length (queued w)) \<le> n"
    using assms(1) rb.within_cap [of zero "w_buf w"] by (simp add: worker_inv_def queued_def)
  then show ?thesis
    using assms(1) queue_length [OF assms(1)] curMem_total [OF assms]
    by (auto simp: at_limit_def below_limits_def worker_inv_def)
qed

lemma receive_ok:
  assumes inv: "worker_inv zero f n m B w" and sane: "sane_sizes f n m B"
    and below: "below_limits f n m (queued w)"
  shows "\<exists>w'. receive w x = Inr (w', Continue) \<and> worker_inv zero f n m B w'
           \<and> queued w' = queued w @ [x] \<and> w_in w' = w_in w @ [x] \<and> w_out w' = w_out w"
proof -
  let ?b = "\<lparr>bi_item = x, bi_size = f x\<rparr>"
  from inv have "rb_inv zero (w_buf w)" and cap: "RingBuf_Cap (w_buf w) = n"
    by (auto simp: worker_inv_def)
  moreover have "int (length (rb_items (w_buf w))) < RingBuf_Cap (w_buf w)"
    using below cap by (simp add: below_limits_def queued_def)
  ultimately obtain r where r: "(RingBuf_Push (w_buf w) ?b :: (unit, _) go) = Inr r" "rb_inv zero r"
      "rb_items r = rb_items (w_buf w) @ [?b]" "RingBuf_Cap r = n"
    using rb.push_ok [of zero "w_buf w" ?b] by (auto simp: cap)
  from sane inv have "itemSize (w\<lparr>w_in := w_in w @ [x]\<rparr>) x = Inr (f x)"
    by (simp add: itemSize_def worker_inv_def sane_sizes_def)
  then have "receive w x =
      Inr (w\<lparr>w_in := w_in w @ [x], w_buf := r, w_curMem := w_curMem w + f x\<rparr>, Continue)"
    using r by (simp add: receive_def worker_push_def push_entry_def add_mem_def)
  moreover have "total_size f (queued w @ [x]) < m + B"
    using below sane by (simp add: below_limits_def sane_sizes_def add_less_le_mono)
  ultimately show ?thesis
    using inv r by (auto simp: worker_inv_def queued_def)
qed

lemma send_ok:
  assumes inv: "worker_inv zero f n m B w" and sane: "sane_sizes f n m B"
    and items: "queued w = x # q"
  shows "\<exists>b w'. oldest w = Inr b \<and> send zero w b = Inr w' \<and> worker_inv zero f n m B w'
           \<and> queued w' = q \<and> w_in w' = w_in w \<and> w_out w' = w_out w @ [x]"
proof -
  from items obtain b bs where b: "rb_items (w_buf w) = b # bs" "bi_item b = x" "map bi_item bs = q"
    by (auto simp: queued_def)
  from inv have ri: "rb_inv zero (w_buf w)" by (simp add: worker_inv_def)
  obtain r where r: "(RingBuf_Pop zero (w_buf w) :: (unit, _) go) = Inr r" "rb_inv zero r" "rb_items r = bs"
      "RingBuf_Cap r = RingBuf_Cap (w_buf w)"
    using rb.pop_ok [OF ri] b by auto
  have peek: "oldest w = Inr b" using rb.peek_ok [OF ri] b by simp
  then have "send zero w b =
      Inr (w\<lparr>w_out := w_out w @ [x], w_curMem := w_curMem w + (- bi_size b), w_buf := r\<rparr>)"
    using r b by (simp add: send_def worker_pop_def pop_entry_def add_mem_def)
  moreover have "total_size f q < m + B"
  proof -
    have "0 \<le> sint (f x)" using sane by (simp add: sane_sizes_def)
    then show ?thesis using inv items by (simp add: worker_inv_def)
  qed
  moreover have "worker_inv zero f n m B
      (w\<lparr>w_out := w_out w @ [x], w_curMem := w_curMem w + (- bi_size b), w_buf := r\<rparr>)"
    if "total_size f q < m + B"
    using inv r b that items by (simp add: worker_inv_def queued_def)
  ultimately show ?thesis
    using peek r(3) b(3) by (simp add: queued_def)
qed

section \<open>The bisimulation\<close>

lemma at_limit_queue:
  assumes "worker_inv zero f n m B w" and "sane_sizes f n m B"
  shows "at_limit w \<Longrightarrow> queued w \<noteq> []" and "queued w = [] \<Longrightarrow> below_limits f n m (queued w)"
  using assms at_limit_iff [OF assms] by (auto simp: below_limits_def sane_sizes_def)

lemma flush_loop_refines:
  assumes "worker_inv zero f n m B w"
  shows "refines zero f n m B (flush_loop w)
           (worker_abs (if queued w = [] then Closed else Draining) w)"
  using assms queue_length [OF assms] by (auto simp: flush_loop_def)

lemma Sent_refines:
  assumes inv: "worker_inv zero f n m B w" and sane: "sane_sizes f n m B" and q: "queued w = x # q"
  obtains b w' where "oldest w = Inr b" and "send zero w b = Inr w'"
    and "worker_inv zero f n m B w'" and "worker_abs p w' = (p, q, w_in w, w_out w @ [x])"
    and "queued w' = q"
  using send_ok [OF assms] by (auto simp: worker_abs_def)

lemma loop_Sent:
  assumes inv: "worker_inv zero f n m B w" and sane: "sane_sizes f n m B" and q: "queued w = x # q"
  shows "\<exists>w'. processItems zero w Sent = Some (Inr (w', Continue)) \<and> worker_inv zero f n m B w'
     \<and> worker_abs Open w' = (Open, q, w_in w, w_out w @ [x])"
proof -
  from Sent_refines [OF assms, of Open] obtain b w' where
    "oldest w = Inr b" and "send zero w b = Inr w'"
    and w': "worker_inv zero f n m B w'" "worker_abs Open w' = (Open, q, w_in w, w_out w @ [x])"
    by blast
  moreover have "RingBuf_Len (w_buf w) \<noteq> 0" using queue_length [OF inv] q by simp
  ultimately show ?thesis by (simp add: handler_defs)
qed

lemma flush_Sent:
  assumes inv: "worker_inv zero f n m B w" and sane: "sane_sizes f n m B" and q: "queued w = x # q"
  shows "\<exists>w'. flushTurn zero w Sent = Some (Inr (w', False)) \<and> worker_inv zero f n m B w'
     \<and> worker_abs Draining w' = (Draining, q, w_in w, w_out w @ [x]) \<and> queued w' = q"
proof -
  from Sent_refines [OF assms, of Draining] obtain b w' where
    "oldest w = Inr b" and "send zero w b = Inr w'"
    and "worker_inv zero f n m B w'" "worker_abs Draining w' = (Draining, q, w_in w, w_out w @ [x])"
    and "queued w' = q"
    by blast
  then show ?thesis by (simp add: handler_defs)
qed

lemma peek_nonempty:
  assumes inv: "worker_inv zero f n m B w" and "queued w \<noteq> []"
  shows "oldest w = Inr (hd (rb_items (w_buf w)))"
  using assms rb.peek_ok [of zero "w_buf w"] by (auto simp: worker_inv_def queued_def)

text \<open>What each event does in the loop of \<open>run\<close>, case by case.\<close>

lemma loop_other:
  assumes inv: "worker_inv zero f n m B w" and sane: "sane_sizes f n m B"
  shows "processItems zero w CtxDone = Some (Inr (w, Halt))"
    and "queued w = [] \<Longrightarrow> processItems zero w Sent = None"
    and "queued w = [] \<Longrightarrow> processItems zero w InClosed = Some (Inr (w, Halt))"
    and "queued w \<noteq> [] \<Longrightarrow> below_limits f n m (queued w) \<Longrightarrow>
           processItems zero w InClosed = Some (Inr (w, Flush))"
    and "\<not> below_limits f n m (queued w) \<Longrightarrow>
           processItems zero w InClosed = None \<and> processItems zero w (Recv x) = None"
    and "below_limits f n m (queued w) \<Longrightarrow> processItems zero w (Recv x) = Some (receive w x)"
  using queue_length [OF inv] at_limit_iff [OF assms] at_limit_queue [OF assms] peek_nonempty [OF inv]
  by (auto simp: handler_defs)

lemma flush_other:
  assumes "worker_inv zero f n m B w" and "queued w \<noteq> []"
  shows "flushTurn zero w CtxDone = Some (Inr (w, True))"
    and "flushTurn zero w InClosed = None" and "flushTurn zero w (Recv x) = None"
  using peek_nonempty [OF assms] by (simp_all add: handler_defs)

lemma loop_simulated:
  assumes inv: "worker_inv zero f n m B w" and sane: "sane_sizes f n m B"
    and step: "bq_step zero (Looping w) ev t"
  shows "\<exists>b. spec_step f n m (worker_abs Open w) ev b \<and> refines zero f n m B t b"
proof (cases ev)
  note other = loop_other [OF inv sane]
  case CtxDone
  with step other(1) have "t = Stopped w" by (simp add: step_Looping)
  then show ?thesis
    using inv CtxDone by (intro exI [of _ "worker_abs Closed w"]) (simp add: worker_abs_def cancel)
next
  note other = loop_other [OF inv sane]
  case (Recv x)
  with step other(5) have below: "below_limits f n m (queued w)" by (force simp: step_Looping)
  from receive_ok [OF inv sane below, of x] obtain w' where
    "receive w x = Inr (w', Continue)" and w': "worker_inv zero f n m B w'"
    "queued w' = queued w @ [x]" "w_in w' = w_in w @ [x]" "w_out w' = w_out w"
    by blast
  with step other(6) [OF below] Recv have "t = Looping w'" by (simp add: step_Looping)
  then show ?thesis
    using w' Recv by (intro exI [of _ "worker_abs Open w'"]) (simp add: worker_abs_def accept [OF below])
next
  note other = loop_other [OF inv sane]
  case InClosed
  show ?thesis
  proof (cases "queued w = []")
    case True
    with step other(3) InClosed have "t = Stopped w" by (simp add: step_Looping)
    then show ?thesis
      using inv True InClosed
      by (intro exI [of _ "worker_abs Closed w"]) (simp add: worker_abs_def close_empty)
  next
    case False
    with step other(5) InClosed have below: "below_limits f n m (queued w)"
      by (force simp: step_Looping)
    with step other(4) InClosed False have "t = flush_loop w" by (simp add: step_Looping)
    then show ?thesis
      using flush_loop_refines [OF inv] False InClosed
      by (intro exI [of _ "worker_abs Draining w"])
         (simp add: worker_abs_def close_full [OF False below])
  qed
next
  note other = loop_other [OF inv sane]
  case Sent
  with step other(2) obtain x q where q: "queued w = x # q"
    by (cases "queued w") (auto simp: step_Looping)
  from loop_Sent [OF inv sane q] step Sent obtain w' where "t = Looping w'"
    and "worker_inv zero f n m B w'" "worker_abs Open w' = (Open, q, w_in w, w_out w @ [x])"
    by (auto simp: step_Looping)
  then show ?thesis
    using q Sent by (intro exI [of _ "worker_abs Open w'"]) (simp add: worker_abs_def deliver)
qed

lemma flush_simulated:
  assumes inv: "worker_inv zero f n m B w" and sane: "sane_sizes f n m B" and ne: "queued w \<noteq> []"
    and step: "bq_step zero (Flushing w) ev t"
  shows "\<exists>b. spec_step f n m (worker_abs Draining w) ev b \<and> refines zero f n m B t b"
proof (cases ev)
  note other = flush_other [OF inv ne]
  case CtxDone
  with step other(1) have "t = Stopped w" by (simp add: step_Flushing)
  then show ?thesis
    using inv CtxDone by (intro exI [of _ "worker_abs Closed w"]) (simp add: worker_abs_def cancel)
next
  case Sent
  from ne obtain x q where q: "queued w = x # q" by (cases "queued w") auto
  from flush_Sent [OF inv sane q] step Sent obtain w' where t: "t = flush_loop w'"
    and w': "worker_inv zero f n m B w'" "worker_abs Draining w' = (Draining, q, w_in w, w_out w @ [x])"
    "queued w' = q"
    by (auto simp: step_Flushing)
  have "refines zero f n m B t (if q = [] then Closed else Draining, q, w_in w, w_out w @ [x])"
    using flush_loop_refines [OF w'(1)] w'(2,3) t by (simp add: worker_abs_def split: if_splits)
  moreover have "spec_step f n m (worker_abs Draining w) ev
      (if q = [] then Closed else Draining, q, w_in w, w_out w @ [x])"
    unfolding worker_abs_def q Sent by (rule drain)
  ultimately show ?thesis by blast
qed (use step flush_other [OF inv ne] in \<open>simp_all add: step_Flushing\<close>)

lemma step_simulated:
  assumes "refines zero f n m B s a" and "sane_sizes f n m B" and "bq_step zero s ev t"
  shows "\<exists>b. spec_step f n m a ev b \<and> refines zero f n m B t b"
  using assms loop_simulated flush_simulated by (cases s) auto

lemma run_simulated:
  assumes "bq_run zero s evs t" and "refines zero f n m B s a" and "sane_sizes f n m B"
  shows "\<exists>b. spec_run f n m a evs b \<and> refines zero f n m B t b"
  using assms
proof (induction arbitrary: a rule: bq_run.induct)
  case (run_nil s)
  then show ?case using spec_nil by blast
next
  case (run_step s ev t evs u)
  then show ?case using step_simulated by (metis spec_cons)
qed

section \<open>Consequences on the abstract queue\<close>

fun received :: "'a event list \<Rightarrow> 'a list" where
  "received [] = []"
| "received (Recv x # evs) = x # received evs"
| "received (_ # evs) = received evs"

fun worker_of :: "'a bq_state \<Rightarrow> 'a boundedQueueWorker option" where
  "worker_of (Looping w) = Some w"
| "worker_of (Flushing w) = Some w"
| "worker_of (Stopped w) = Some w"
| "worker_of (Crashed e) = None"

lemma spec_step_in:
  "spec_step f n m (p, q, i, out) ev (p', q', i', out') \<Longrightarrow> i' = i @ received [ev]"
  by (erule spec_stepE) auto

lemma spec_run_in:
  "spec_run f n m (p, q, i, out) evs (p', q', i', out') \<Longrightarrow> i' = i @ received evs"
proof (induction "(p, q, i, out)" evs "(p', q', i', out')" arbitrary: p q i out rule: spec_run.induct)
  case spec_nil
  then show ?case by simp
next
  case (spec_cons ev b evs)
  obtain p1 q1 i1 out1 where b: "b = (p1, q1, i1, out1)" by (cases b)
  have "i' = i1 @ received evs" using spec_cons(3) [OF b] .
  moreover have "i1 = i @ received [ev]" using spec_step_in spec_cons(1) b by blast
  moreover have "received (ev # evs) = received [ev] @ received evs" by (cases ev) auto
  ultimately show ?case by simp
qed

text \<open>Without cancellation, the queue closes only when it is empty.\<close>

lemma spec_close_empty:
  assumes "spec_run f n m a evs b" and "CtxDone \<notin> set evs" and "fst a = Closed \<Longrightarrow> fst (snd a) = []"
    and "fst b = Closed"
  shows "fst (snd b) = []"
  using assms
proof (induction rule: spec_run.induct)
  case (spec_cons a ev b evs c)
  have "fst b = Closed \<Longrightarrow> fst (snd b) = []"
    using spec_cons(1,4) by (auto elim!: spec_stepE split: if_splits)
  with spec_cons show ?case by simp
qed simp

section \<open>Creation and reachability\<close>

lemma New_refines:
  assumes "NewBoundedQueue zero n m (Some f) = Inr w" and "sane_sizes f n (sint m) B"
  shows "refines zero f n (sint m) B (Looping w) (Open, [], [], [])"
proof -
  have B: "0 \<le> B" using assms(2) by (force simp: sane_sizes_def)
  obtain r where r: "(RingBuf_New zero n :: (unit, _) go) = Inr r" "rb_inv zero r" "rb_items r = []"
      "RingBuf_Cap r = n"
    using New_ok [of n zero] assms(2) by (auto simp: sane_sizes_def)
  with assms have "w = \<lparr>w_in = [], w_out = [], w_buf = r, w_curMem = 0, w_size = f,
      w_maxCount = n, w_maxMem = m\<rparr>"
    by (simp add: NewBoundedQueue_def sane_sizes_def)
  with r assms(2) B show ?thesis
    by (simp add: worker_inv_def worker_abs_def queued_def sane_sizes_def)
qed

lemma refines_worker:
  assumes "refines zero f n m B s a"
  shows "\<exists>w p. worker_of s = Some w \<and> worker_inv zero f n m B w \<and> a = worker_abs p w
           \<and> (p = Closed \<longleftrightarrow> s = Stopped w)"
  using assms by (cases s) auto

lemma reachable_worker:
  assumes "NewBoundedQueue zero n m (Some f) = Inr w0" and "sane_sizes f n (sint m) B"
    and "bq_run zero (Looping w0) evs s"
  shows "\<exists>w p. worker_of s = Some w \<and> worker_inv zero f n (sint m) B w
      \<and> refines zero f n (sint m) B s (worker_abs p w)
      \<and> spec_run f n (sint m) (Open, [], [], []) evs (worker_abs p w) \<and> (p = Closed \<longleftrightarrow> s = Stopped w)"
proof -
  from run_simulated [OF assms(3) New_refines [OF assms(1,2)] assms(2)] obtain a where
    a: "spec_run f n (sint m) (Open, [], [], []) evs a" "refines zero f n (sint m) B s a" by blast
  from refines_worker [OF a(2)] a show ?thesis by metis
qed

section \<open>Draining\<close>

lemma drain_flushing:
  assumes "worker_inv zero f n m B w" and "sane_sizes f n m B" and "queued w \<noteq> []"
  shows "\<exists>w'. bq_run zero (Flushing w) (replicate (length (queued w)) Sent) (Stopped w')
     \<and> w_in w' = w_in w \<and> w_out w' = w_in w"
  using assms
proof (induction "queued w" arbitrary: w)
  case (Cons x q)
  from flush_Sent [OF Cons.prems(1,2) Cons.hyps(2) [symmetric]] obtain w1 where
    turn: "flushTurn zero w Sent = Some (Inr (w1, False))" and w1: "worker_inv zero f n m B w1"
      "queued w1 = q" "w_in w1 = w_in w"
    by (auto simp: worker_abs_def)
  note step = flush_turn [OF turn]
  show ?case
  proof (cases "q = []")
    case True
    with w1 have "flush_loop w1 = Stopped w1"
      using queue_length [OF w1(1)] by (simp add: flush_loop_def)
    moreover have "w_out w1 = w_in w" using w1 True by (simp add: worker_inv_def)
    ultimately show ?thesis
      using step w1 True Cons.hyps(2) run_step [OF step run_nil]
      by (intro exI [of _ w1]) (simp flip: Cons.hyps(2))
  next
    case False
    with w1 have "flush_loop w1 = Flushing w1"
      using queue_length [OF w1(1)] by (simp add: flush_loop_def)
    with Cons.hyps(1) [of w1] w1 False Cons.prems(2) step show ?thesis
      using run_step by (fastforce simp flip: Cons.hyps(2))
  qed
qed simp

lemma drain_looping:
  assumes "worker_inv zero f n m B w" and "sane_sizes f n m B"
  shows "\<exists>w'. bq_run zero (Looping w) (replicate (length (queued w)) Sent @ [InClosed]) (Stopped w')
     \<and> w_in w' = w_in w \<and> w_out w' = w_in w"
  using assms
proof (induction "queued w" arbitrary: w)
  case Nil
  from loop_other(3) [OF Nil.prems] Nil.hyps have "processItems zero w InClosed = Some (Inr (w, Halt))"
    by simp
  moreover have "w_out w = w_in w" using Nil by (simp add: worker_inv_def)
  ultimately show ?case
    using run_step [OF step_halt run_nil, of zero w InClosed w] Nil.hyps
    by (intro exI [of _ w]) (simp flip: Nil.hyps)
next
  case (Cons x q)
  from loop_Sent [OF Cons.prems Cons.hyps(2) [symmetric]] obtain w1 where
    "processItems zero w Sent = Some (Inr (w1, Continue))" and w1: "worker_inv zero f n m B w1"
      "queued w1 = q" "w_in w1 = w_in w"
    by (auto simp: worker_abs_def)
  with Cons.hyps(1) [of w1] Cons.prems(2) show ?case
    using run_step [OF step_continue] by (fastforce simp flip: Cons.hyps(2))
qed

section \<open>What another goroutine sees\<close>

text \<open>
  The worker after each atomic update of one \<open>push\<close> or \<open>pop\<close>, and during an event: before anything
  is updated, then after each update.
\<close>

definition push_moments :: "'a boundedQueueWorker \<Rightarrow> 'a \<Rightarrow> 'a boundedQueueWorker list" where
  "push_moments w item =
     (case itemSize w item of Inl e \<Rightarrow> [] | Inr sz \<Rightarrow>
      case push_entry w \<lparr>bi_item = item, bi_size = sz\<rparr> of Inl e \<Rightarrow> [] | Inr w \<Rightarrow> [w, add_mem w sz])"

definition pop_moments :: "'a bufferedItem \<Rightarrow> 'a boundedQueueWorker \<Rightarrow> 'a boundedQueueWorker list" where
  "pop_moments zero w =
     (case RingBuf_Peek (w_buf w) :: (unit, _) go of Inl e \<Rightarrow> [] | Inr entry \<Rightarrow>
      let w = add_mem w (- bi_size entry) in
      w # (case pop_entry zero w of Inl e \<Rightarrow> [] | Inr w \<Rightarrow> [w]))"

fun moments :: "'a bufferedItem \<Rightarrow> 'a boundedQueueWorker \<Rightarrow> 'a event \<Rightarrow> 'a boundedQueueWorker list" where
  "moments zero w (Recv item) = w # push_moments (w\<lparr>w_in := w_in w @ [item]\<rparr>) item"
| "moments zero w Sent = w # (case RingBuf_Peek (w_buf w) :: (unit, _) go of Inl e \<Rightarrow> [] | Inr entry \<Rightarrow>
     pop_moments zero (w\<lparr>w_out := w_out w @ [bi_item entry]\<rparr>))"
| "moments zero w ev = [w]"

definition in_progress ::
  "'a bufferedItem \<Rightarrow> 'a boundedQueueWorker \<Rightarrow> 'a event list \<Rightarrow> 'a event \<Rightarrow> 'a boundedQueueWorker \<Rightarrow> bool" where
  "in_progress zero w0 evs ev v \<longleftrightarrow> (\<exists>s w t. bq_run zero (Looping w0) evs s \<and> worker_of s = Some w
     \<and> bq_step zero s ev t \<and> v \<in> set (moments zero w ev))"

text \<open>The items in the queue after some events.\<close>

definition content :: "'a event list \<Rightarrow> 'a list" where
  "content evs = drop (length (filter (\<lambda>ev. ev = Sent) evs)) (received evs)"

text \<open>The last moment of an event is what the handlers return, and every moment has the buffer and
  the byte count of before or after it.\<close>

definition between :: "'a boundedQueueWorker \<Rightarrow> 'a boundedQueueWorker \<Rightarrow> 'a boundedQueueWorker \<Rightarrow> bool" where
  "between w w' v \<longleftrightarrow> w_buf v \<in> {w_buf w, w_buf w'} \<and> w_curMem v \<in> {w_curMem w, w_curMem w'}
     \<and> w_maxCount v = w_maxCount w \<and> w_maxMem v = w_maxMem w"

lemma push_moments_ok:
  assumes "worker_push w item = Inr w'"
  shows "last (push_moments w item) = w'" and "push_moments w item \<noteq> []"
    and "v \<in> set (push_moments w item) \<Longrightarrow> between w w' v"
  using assms by (auto simp: worker_push_def push_moments_def push_entry_def add_mem_def between_def go_bind_eq_Inr)

lemma pop_moments_ok:
  assumes "worker_pop zero w = Inr w'"
  shows "last (pop_moments zero w) = w'" and "pop_moments zero w \<noteq> []"
    and "v \<in> set (pop_moments zero w) \<Longrightarrow> between w w' v"
  using assms by (auto simp: worker_pop_def pop_moments_def pop_entry_def add_mem_def between_def go_bind_eq_Inr Let_def)

lemma between_refl [simp]: "between w w' w"
  by (simp add: between_def)

lemma between_ghost [simp]:
  "between (w\<lparr>w_in := i\<rparr>) w' v \<longleftrightarrow> between w w' v" "between (w\<lparr>w_out := i\<rparr>) w' v \<longleftrightarrow> between w w' v"
  by (simp_all add: between_def)

text \<open>What a step makes of the worker.\<close>

lemma worker_of_flush_loop [simp]: "worker_of (flush_loop w) = Some w"
  by (simp add: flush_loop_def)

lemma step_worker:
  assumes "bq_step zero s ev t" and "worker_of s = Some w" and "worker_of t = Some w'"
  shows "case ev of
      Recv x \<Rightarrow> worker_push (w\<lparr>w_in := w_in w @ [x]\<rparr>) x = Inr w'
    | Sent \<Rightarrow> \<exists>entry. (oldest w = Inr entry \<and> send zero w entry = Inr w')
    | _ \<Rightarrow> w' = w"
  using assms
  by (induction rule: bq_step.cases)
    (auto simp: handler_defs receive_def go_bind_eq_Inr split: event.splits if_splits)

lemma step_moments:
  assumes "bq_step zero s ev t" and "worker_of s = Some w" and "worker_of t = Some w'"
  shows "last (moments zero w ev) = w'" and "v \<in> set (moments zero w ev) \<Longrightarrow> between w w' v"
  using step_worker [OF assms]
  by (cases ev; auto simp: send_def dest: push_moments_ok pop_moments_ok)+

section \<open>The content of the queue\<close>

lemma spec_step_out:
  "spec_step f n m (p, q, i, out) ev (p', q', i', out') \<Longrightarrow>
     length out' = length out + (if ev = Sent then 1 else 0)"
  by (erule spec_stepE) auto

lemma spec_run_out:
  "spec_run f n m (p, q, i, out) evs (p', q', i', out') \<Longrightarrow>
     length out' = length out + length (filter (\<lambda>ev. ev = Sent) evs)"
proof (induction "(p, q, i, out)" evs "(p', q', i', out')" arbitrary: p q i out rule: spec_run.induct)
  case spec_nil
  then show ?case by simp
next
  case (spec_cons ev b evs)
  obtain p1 q1 i1 out1 where b: "b = (p1, q1, i1, out1)" by (cases b)
  then show ?case using spec_cons(3) [OF b] spec_step_out spec_cons(1) by fastforce
qed

lemma run_append: "bq_run zero s evs t \<Longrightarrow> bq_step zero t ev u \<Longrightarrow> bq_run zero s (evs @ [ev]) u"
  by (induction rule: bq_run.induct) (auto intro: bq_run.intros)

lemma at_rest:
  assumes "NewBoundedQueue zero n m (Some f) = Inr w0" and "sane_sizes f n (sint m) B"
    and "bq_run zero (Looping w0) evs s" and "worker_of s = Some w"
  shows "RingBuf_Len (w_buf w) = int (length (content evs))" and "sint (w_curMem w) = total_size f (content evs)"
    and "int (length (content evs)) \<le> n" and "total_size f (content evs) < sint m + B"
    and "w_maxCount w = n" and "w_maxMem w = m"
proof -
  obtain p where inv: "worker_inv zero f n (sint m) B w"
    and run: "spec_run f n (sint m) (Open, [], [], []) evs (worker_abs p w)"
    using reachable_worker [OF assms(1-3)] assms(4) by auto
  have "w_in w = received evs" and "length (w_out w) = length (filter (\<lambda>ev. ev = Sent) evs)"
    using spec_run_in spec_run_out run by (fastforce simp: worker_abs_def)+
  moreover have "w_in w = w_out w @ queued w" using inv by (simp add: worker_inv_def)
  ultimately have q: "content evs = queued w" by (simp add: content_def flip: \<open>w_in w = received evs\<close>)
  show "RingBuf_Len (w_buf w) = int (length (content evs))" and "sint (w_curMem w) = total_size f (content evs)"
    unfolding q by (rule queue_length [OF inv], rule curMem_total [OF inv assms(2)])
  show "int (length (content evs)) \<le> n"
    using inv rb.within_cap [of zero "w_buf w"] unfolding q by (simp add: worker_inv_def queued_def)
  show "total_size f (content evs) < sint m + B" "w_maxCount w = n"
    using inv unfolding q by (simp_all add: worker_inv_def)
  have "sint (w_maxMem w) = sint m" using inv by (simp add: worker_inv_def)
  then show "w_maxMem w = m" by (metis scast_eq scast_id)
qed

lemma seen_in_progress:
  assumes "NewBoundedQueue zero n m (Some f) = Inr w0" and "sane_sizes f n (sint m) B"
    and "in_progress zero w0 evs ev v"
  shows "\<exists>q \<in> {content evs, content (evs @ [ev])}. RingBuf_Len (w_buf v) = int (length q)"
    and "RingBuf_Len (w_buf v) \<le> n"
    and "\<exists>q \<in> {content evs, content (evs @ [ev])}. sint (w_curMem v) = total_size f q"
    and "sint (w_curMem v) < sint m + B" and "w_maxCount v = n" and "w_maxMem v = m"
proof -
  obtain s w t where s: "bq_run zero (Looping w0) evs s" "worker_of s = Some w"
    and t: "bq_step zero s ev t" and v: "v \<in> set (moments zero w ev)"
    using assms(3) by (auto simp: in_progress_def)
  have t': "bq_run zero (Looping w0) (evs @ [ev]) t" using run_append [OF s(1) t] .
  obtain w' where w': "worker_of t = Some w'" using reachable_worker [OF assms(1,2) t'] by blast
  from step_moments(2) [OF t s(2) w' v] at_rest [OF assms(1,2) s] at_rest [OF assms(1,2) t' w']
  show "\<exists>q \<in> {content evs, content (evs @ [ev])}. RingBuf_Len (w_buf v) = int (length q)"
    "RingBuf_Len (w_buf v) \<le> n"
    "\<exists>q \<in> {content evs, content (evs @ [ev])}. sint (w_curMem v) = total_size f q"
    "sint (w_curMem v) < sint m + B" "w_maxCount v = n" "w_maxMem v = m"
    by (auto simp: between_def)
qed

section \<open>Properties of the queue\<close>

text \<open>
  C1: from \<open>NewBoundedQueue\<close>, whatever its producer, consumer and context do, the worker
  goroutine never panics and behaves as the abstract queue does on the same events: every run
  of the goroutine is a run of the specification with the same items queued, accepted and
  delivered, and \<open>w.out\<close> is closed exactly when the specification is.
\<close>

theorem queue_refines_spec:
  assumes "NewBoundedQueue zero n m (Some f) = Inr w0" and "sane_sizes f n (sint m) B"
    and "bq_run zero (Looping w0) evs s"
  shows "\<exists>w p. worker_of s = Some w \<and> (p = Closed \<longleftrightarrow> s = Stopped w)
      \<and> spec_run f n (sint m) (Open, [], [], []) evs (p, queued w, w_in w, w_out w)"
  using reachable_worker [OF assms] by (fastforce simp: worker_abs_def)

text \<open>
  C23: the queue is first-in first-out and loses or duplicates nothing: at every moment the
  items received, in order, are the items sent followed by the items still buffered.
\<close>

theorem queue_fifo:
  assumes "NewBoundedQueue zero n m (Some f) = Inr w0" and "sane_sizes f n (sint m) B"
    and "bq_run zero (Looping w0) evs s"
  shows "\<exists>w. worker_of s = Some w \<and> received evs = w_out w @ queued w"
proof -
  obtain w p where w: "worker_of s = Some w" "worker_inv zero f n (sint m) B w"
    "spec_run f n (sint m) (Open, [], [], []) evs (worker_abs p w)"
    using reachable_worker [OF assms] by blast
  then have "w_in w = received evs" using spec_run_in by (fastforce simp: worker_abs_def)
  with w show ?thesis by (auto simp: worker_inv_def)
qed

text \<open>
  C24: what the stats function reports, although it reads its two numbers without a lock and the
  worker may be in the middle of an event at either read, and go on between them. The count is the
  length of the queue before or after the event in progress, so it is between 0 and \<open>maxCount\<close>. The
  byte count is the exact total of the item sizes (no wrap-around) before or after the event in
  progress at its own read. It may exceed the soft limit \<open>maxTotalSize\<close>, but by less than \<open>B\<close>, any
  bound on the size of one item. Both are exact when both reads happen between two events.
\<close>

theorem queue_stats:
  assumes "NewBoundedQueue zero n m (Some f) = Inr w0" and "sane_sizes f n (sint m) B"
  shows "(\<forall>evs s w. bq_run zero (Looping w0) evs s \<and> worker_of s = Some w \<longrightarrow>
        BufferedItems (statsFn w w) = int (length (content evs))
        \<and> sint (BufferedBytes (statsFn w w)) = total_size f (content evs))
    \<and> (\<forall>evs ev v evs' ev' v'. in_progress zero w0 evs ev v \<and> in_progress zero w0 evs' ev' v' \<longrightarrow>
        (\<exists>q \<in> {content evs, content (evs @ [ev])}. BufferedItems (statsFn v v') = int (length q))
        \<and> 0 \<le> BufferedItems (statsFn v v') \<and> BufferedItems (statsFn v v') \<le> n
        \<and> (\<exists>q \<in> {content evs', content (evs' @ [ev'])}. sint (BufferedBytes (statsFn v v')) = total_size f q)
        \<and> 0 \<le> sint (BufferedBytes (statsFn v v')) \<and> sint (BufferedBytes (statsFn v v')) < sint m + B
        \<and> MaxItems (statsFn v v') = n \<and> MaxBytes (statsFn v v') = m)"
proof (intro conjI allI impI; elim conjE)
  fix evs s w
  assume "bq_run zero (Looping w0) evs s" and "worker_of s = Some w"
  from at_rest [OF assms this] show "BufferedItems (statsFn w w) = int (length (content evs))"
    and "sint (BufferedBytes (statsFn w w)) = total_size f (content evs)"
    by (simp_all add: statsFn_def)
next
  fix evs ev v evs' ev' v'
  assume "in_progress zero w0 evs ev v" and "in_progress zero w0 evs' ev' v'"
  note v = seen_in_progress [OF assms this(1)] and v' = seen_in_progress [OF assms this(2)]
  show "\<exists>q \<in> {content evs, content (evs @ [ev])}. BufferedItems (statsFn v v') = int (length q)"
    "BufferedItems (statsFn v v') \<le> n" "MaxItems (statsFn v v') = n" "MaxBytes (statsFn v v') = m"
    using v by (auto simp: statsFn_def)
  then show "0 \<le> BufferedItems (statsFn v v')" by auto
  show "\<exists>q \<in> {content evs', content (evs' @ [ev'])}. sint (BufferedBytes (statsFn v v')) = total_size f q"
    and "sint (BufferedBytes (statsFn v v')) < sint m + B"
    using v' by (auto simp: statsFn_def)
  then show "0 \<le> sint (BufferedBytes (statsFn v v'))" using total_size_nonneg [OF assms(2)] by auto
qed

text \<open>
  The queue can always finish: from any reachable state before the close, a reader that
  keeps reading and a producer that closes its channel bring the goroutine to its end in at
  most \<open>maxCount + 1\<close> further events, with everything received delivered.
\<close>

lemma queue_drains:
  assumes "NewBoundedQueue zero n m (Some f) = Inr w0" and "sane_sizes f n (sint m) B"
    and "bq_run zero (Looping w0) evs s" and "\<And>w. s \<noteq> Stopped w"
  shows "\<exists>evs' w'. set evs' \<subseteq> {Sent, InClosed} \<and> int (length evs') \<le> n + 1
      \<and> bq_run zero s evs' (Stopped w') \<and> w_out w' = received evs"
proof -
  obtain w p where w: "worker_of s = Some w" "worker_inv zero f n (sint m) B w"
    "refines zero f n (sint m) B s (worker_abs p w)"
    "spec_run f n (sint m) (Open, [], [], []) evs (worker_abs p w)"
    using reachable_worker [OF assms(1-3)] by blast
  have wi: "w_in w = received evs" using w(4) spec_run_in by (fastforce simp: worker_abs_def)
  have len: "int (length (queued w)) \<le> n"
    using w(2) rb.within_cap [of zero "w_buf w"] by (simp add: worker_inv_def queued_def)
  have sub: "set (replicate k Sent @ [InClosed]) \<subseteq> {Sent, InClosed}"
    "set (replicate k Sent) \<subseteq> {Sent, InClosed}" for k by auto
  from w(1,3) assms(4) consider "s = Looping w" | "s = Flushing w" "queued w \<noteq> []"
    by (cases s) auto
  then show ?thesis
  proof cases
    case 1
    with drain_looping [OF w(2) assms(2)] wi sub(1) len show ?thesis
      by (metis (no_types, lifting) add_right_mono length_append_singleton length_replicate of_nat_Suc
          add.commute)
  next
    case 2
    with drain_flushing [OF w(2) assms(2)] wi sub(2) len show ?thesis
      by (metis length_replicate add_increasing2 zero_le_one)
  qed
qed

text \<open>
  C25: unless the context is cancelled, the output channel is closed only after everything that
  was received has been sent; and it can always come to that: from any reachable state before the
  close, a reader that keeps reading and a producer that closes its channel bring the goroutine to
  its end in at most \<open>maxCount + 1\<close> further events, with everything received delivered.
\<close>

theorem queue_close_flushes:
  assumes "NewBoundedQueue zero n m (Some f) = Inr w0" and "sane_sizes f n (sint m) B"
    and "bq_run zero (Looping w0) evs s"
  shows "(\<forall>w. s = Stopped w \<and> CtxDone \<notin> set evs \<longrightarrow> w_out w = received evs)
    \<and> ((\<forall>w. s \<noteq> Stopped w) \<longrightarrow>
        (\<exists>evs' w'. set evs' \<subseteq> {Sent, InClosed} \<and> int (length evs') \<le> n + 1
           \<and> bq_run zero s evs' (Stopped w') \<and> w_out w' = received evs))"
proof (intro conjI allI impI; (elim conjE)?)
  fix w
  assume s: "s = Stopped w" and no: "CtxDone \<notin> set evs"
  obtain p where p: "worker_inv zero f n (sint m) B w" "p = Closed"
    "spec_run f n (sint m) (Open, [], [], []) evs (worker_abs p w)"
    using reachable_worker [OF assms] s by auto
  from spec_close_empty [OF p(3) no] p(2) have "queued w = []" by (simp add: worker_abs_def)
  moreover have "w_in w = received evs" using p spec_run_in by (fastforce simp: worker_abs_def)
  ultimately show "w_out w = received evs" using p(1) by (simp add: worker_inv_def)
next
  assume "\<forall>w. s \<noteq> Stopped w"
  then show "\<exists>evs' w'. set evs' \<subseteq> {Sent, InClosed} \<and> int (length evs') \<le> n + 1
      \<and> bq_run zero s evs' (Stopped w') \<and> w_out w' = received evs"
    using queue_drains [OF assms] by blast
qed

section \<open>Concrete runs\<close>

text \<open>
  A queue of booleans with limits of 2 items and 6 bytes, in which \<open>True\<close> has size 5 and
  \<open>False\<close> size 3: it accepts both, is then over the soft limit, and delivers them in order.
\<close>

definition demo_size :: "bool \<Rightarrow> i64" where
  "demo_size b = (if b then 5 else 3)"

definition demo_zero :: "bool bufferedItem" where
  "demo_zero = \<lparr>bi_item = False, bi_size = 0\<rparr>"

definition demo_worker :: "bool list \<Rightarrow> bool list \<Rightarrow> bool bufferedItem list \<Rightarrow> nat \<Rightarrow> nat \<Rightarrow> int \<Rightarrow> i64
    \<Rightarrow> bool boundedQueueWorker" where
  "demo_worker i out b h t c mem = \<lparr>w_in = i, w_out = out,
     w_buf = \<lparr>rb_buf = b, rb_head = h, rb_tail = t, rb_count = c\<rparr>, w_curMem = mem,
     w_size = demo_size, w_maxCount = 2, w_maxMem = 6\<rparr>"

abbreviation demo_item :: "bool \<Rightarrow> bool bufferedItem" where
  "demo_item b \<equiv> \<lparr>bi_item = b, bi_size = demo_size b\<rparr>"

lemmas demo_defs =
  demo_worker_def demo_size_def demo_zero_def handler_defs receive_def send_def worker_push_def
  worker_pop_def push_entry_def pop_entry_def add_mem_def itemSize_def ringbuf_defs at_limit_def flush_loop_def

lemma demo_new: "NewBoundedQueue demo_zero 2 6 (Some demo_size)
    = Inr (demo_worker [] [] [demo_zero, demo_zero] 0 0 0 0)"
  by (simp add: NewBoundedQueue_def demo_defs numeral_2_eq_2)

lemma demo_sane: "sane_sizes demo_size 2 (sint (6 :: i64)) 5"
  by (simp add: sane_sizes_def demo_size_def)

lemma demo_steps:
  "bq_step demo_zero (Looping (demo_worker [] [] [demo_zero, demo_zero] 0 0 0 0)) (Recv True)
     (Looping (demo_worker [True] [] [demo_item True, demo_zero] 0 1 1 5))"
  "bq_step demo_zero (Looping (demo_worker [True] [] [demo_item True, demo_zero] 0 1 1 5)) (Recv False)
     (Looping (demo_worker [True, False] [] [demo_item True, demo_item False] 0 0 2 8))"
  "bq_step demo_zero (Looping (demo_worker [True, False] [] [demo_item True, demo_item False] 0 0 2 8)) Sent
     (Looping (demo_worker [True, False] [True] [demo_zero, demo_item False] 1 0 1 3))"
  "bq_step demo_zero (Looping (demo_worker [True, False] [True] [demo_zero, demo_item False] 1 0 1 3)) InClosed
     (Flushing (demo_worker [True, False] [True] [demo_zero, demo_item False] 1 0 1 3))"
  "bq_step demo_zero (Flushing (demo_worker [True, False] [True] [demo_zero, demo_item False] 1 0 1 3)) Sent
     (Stopped (demo_worker [True, False] [True, False] [demo_zero, demo_zero] 0 0 0 0))"
  by (simp_all add: step_Looping step_Flushing demo_defs)

lemmas demo_runs =
  run_step [OF demo_steps(1) run_step [OF demo_steps(2) run_nil]]
  run_step [OF demo_steps(1) run_step [OF demo_steps(2) run_step [OF demo_steps(3)
    run_step [OF demo_steps(4) run_step [OF demo_steps(5) run_nil]]]]]

lemma demo_run:
  "bq_run demo_zero (Looping (demo_worker [] [] [demo_zero, demo_zero] 0 0 0 0)) [Recv True, Recv False]
     (Looping (demo_worker [True, False] [] [demo_item True, demo_item False] 0 0 2 8))"
  "bq_run demo_zero (Looping (demo_worker [] [] [demo_zero, demo_zero] 0 0 0 0))
     [Recv True, Recv False, Sent, InClosed, Sent]
     (Stopped (demo_worker [True, False] [True, False] [demo_zero, demo_zero] 0 0 0 0))"
  by (rule demo_runs)+

theorem queue_refines_spec_witness:
  "\<exists>w p. worker_of (Looping (demo_worker [True, False] [] [demo_item True, demo_item False] 0 0 2 8)) = Some w
     \<and> spec_run demo_size 2 (sint (6 :: i64)) (Open, [], [], []) [Recv True, Recv False]
         (p, queued w, w_in w, w_out w)"
  using queue_refines_spec [OF demo_new demo_sane demo_run(1)] by blast

theorem queue_fifo_witness:
  "\<exists>w. worker_of (Looping (demo_worker [True, False] [] [demo_item True, demo_item False] 0 0 2 8)) = Some w
     \<and> [True, False] = w_out w @ queued w"
  using queue_fifo [OF demo_new demo_sane demo_run(1)] by simp

text \<open>A stats call in the middle of two events: the second item is counted, its bytes are not yet.\<close>

theorem queue_stats_witness:
  "\<exists>v v'. in_progress demo_zero (demo_worker [] [] [demo_zero, demo_zero] 0 0 0 0) [Recv True] (Recv False) v
     \<and> BufferedItems (statsFn v v') = 2 \<and> sint (BufferedBytes (statsFn v v')) = 5
     \<and> BufferedItems (statsFn v v') \<le> 2 \<and> sint (BufferedBytes (statsFn v v')) < 11"
proof -
  let ?w = "demo_worker [True] [] [demo_item True, demo_zero] 0 1 1 5"
  let ?v = "demo_worker [True, False] [] [demo_item True, demo_item False] 0 0 2 5"
  have "?v \<in> set (moments demo_zero ?w (Recv False))"
    by (simp add: push_moments_def demo_defs)
  then have v: "in_progress demo_zero (demo_worker [] [] [demo_zero, demo_zero] 0 0 0 0) [Recv True] (Recv False) ?v"
    using run_step [OF demo_steps(1) run_nil] demo_steps(2) unfolding in_progress_def by (metis worker_of.simps(1))
  moreover have "BufferedItems (statsFn ?v ?v) = 2" "sint (BufferedBytes (statsFn ?v ?v)) = 5"
    by (simp_all add: statsFn_def demo_defs)
  ultimately show ?thesis
    using queue_stats [OF demo_new demo_sane, THEN conjunct2, rule_format, OF conjI [OF v v]]
    by (intro exI [of _ ?v] exI [of _ ?v]) simp
qed

theorem queue_close_flushes_witness:
  "w_out (demo_worker [True, False] [True, False] [demo_zero, demo_zero] 0 0 0 0) = [True, False]
   \<and> (\<exists>evs' w'. bq_run demo_zero
     (Looping (demo_worker [True, False] [] [demo_item True, demo_item False] 0 0 2 8)) evs' (Stopped w')
     \<and> w_out w' = [True, False])"
  using queue_close_flushes [OF demo_new demo_sane demo_run(2)] queue_close_flushes [OF demo_new demo_sane demo_run(1)]
  by auto

end
