(* ===== verification/Bson_Core.thy ===== *)
theory Bson_Core
  imports Go_Prelude
begin

text \<open>
  The byte-level BSON reader and writer \<open>bsontools\<close> is built on
  (\<open>vendor/go.mongodb.org/mongo-driver/v2/x/bsonx/bsoncore\<close>: \<open>bsoncore.go\<close>, \<open>element.go\<close>,
  \<open>value.go\<close>, \<open>document.go\<close>), at the width of the code: lengths are int32 words that wrap,
  slice expressions panic out of range. An error value keeps its kind; the buffers it carries
  for printing are left out.
\<close>

section \<open>Types and errors\<close>

abbreviation TypeDouble :: byte where "TypeDouble \<equiv> 0x01"
abbreviation TypeString :: byte where "TypeString \<equiv> 0x02"
abbreviation TypeEmbeddedDocument :: byte where "TypeEmbeddedDocument \<equiv> 0x03"
abbreviation TypeArray :: byte where "TypeArray \<equiv> 0x04"
abbreviation TypeBinary :: byte where "TypeBinary \<equiv> 0x05"
abbreviation TypeUndefined :: byte where "TypeUndefined \<equiv> 0x06"
abbreviation TypeObjectID :: byte where "TypeObjectID \<equiv> 0x07"
abbreviation TypeBoolean :: byte where "TypeBoolean \<equiv> 0x08"
abbreviation TypeDateTime :: byte where "TypeDateTime \<equiv> 0x09"
abbreviation TypeNull :: byte where "TypeNull \<equiv> 0x0A"
abbreviation TypeRegex :: byte where "TypeRegex \<equiv> 0x0B"
abbreviation TypeDBPointer :: byte where "TypeDBPointer \<equiv> 0x0C"
abbreviation TypeJavaScript :: byte where "TypeJavaScript \<equiv> 0x0D"
abbreviation TypeSymbol :: byte where "TypeSymbol \<equiv> 0x0E"
abbreviation TypeCodeWithScope :: byte where "TypeCodeWithScope \<equiv> 0x0F"
abbreviation TypeInt32 :: byte where "TypeInt32 \<equiv> 0x10"
abbreviation TypeTimestamp :: byte where "TypeTimestamp \<equiv> 0x11"
abbreviation TypeInt64 :: byte where "TypeInt64 \<equiv> 0x12"
abbreviation TypeDecimal128 :: byte where "TypeDecimal128 \<equiv> 0x13"
abbreviation TypeMaxKey :: byte where "TypeMaxKey \<equiv> 0x7F"
abbreviation TypeMinKey :: byte where "TypeMinKey \<equiv> 0xFF"

datatype bson_error =
    InsufficientBytes                                 \<comment> \<open>bsoncore.InsufficientBytesError\<close>
  | ElementMissingType | ElementMissingKey            \<comment> \<open>element.go\<close>
  | EmptyKey | ElementNotFound                        \<comment> \<open>document.go\<close>
  | InvalidDepthTraversal bytes byte                  \<comment> \<open>document.go: key and type\<close>
  | PointerTooDeep "bytes list" byte "bytes list"     \<comment> \<open>edit.go: given pointer, type, element pointer\<close>
  | CannotCast string byte                            \<comment> \<open>raw_value.go: Go type and BSON type\<close>
  | RangeError                                        \<comment> \<open>safecast: value outside the target type\<close>
  | Errorf string                                     \<comment> \<open>fmt.Errorf without %w\<close>
  | Wrapped string bson_error                         \<comment> \<open>fmt.Errorf with %w\<close>

type_synonym 'a res = "(bson_error, 'a) go"

text \<open>\<open>errors.Is(err, bsoncore.ErrElementNotFound)\<close> and \<open>errors.As(err, &PointerTooDeepError)\<close>.\<close>

fun is_not_found :: "bson_error \<Rightarrow> bool" where
  "is_not_found ElementNotFound = True"
| "is_not_found (Wrapped m e) = is_not_found e"
| "is_not_found _ = False"

fun as_too_deep :: "bson_error \<Rightarrow> (bytes list \<times> byte \<times> bytes list) option" where
  "as_too_deep (PointerTooDeep g t p) = Some (g, t, p)"
| "as_too_deep (Wrapped m e) = as_too_deep e"
| "as_too_deep _ = None"

record RawValue =
  rv_type :: byte
  rv_value :: bytes

section \<open>Reading lengths, values and elements\<close>

text \<open>\<open>s[:n]\<close> together with \<open>s[n:]\<close>.\<close>

definition slice_at :: "bytes \<Rightarrow> int \<Rightarrow> (bytes \<times> bytes) res" where
  "slice_at s n = (if n < 0 \<or> int (length s) < n then Inl (Panic SliceBounds)
                   else Inr (take (nat n) s, drop (nat n) s))"

definition ReadLength :: "bytes \<Rightarrow> (i32 \<times> bytes) option" where
  "ReadLength src = (case Read32 src of
      None \<Rightarrow> None
    | Some (ln, rest) \<Rightarrow> if sint ln < 0 then None else Some (ln, rest))"

definition valueLength :: "bytes \<Rightarrow> byte \<Rightarrow> i32 option" where
  "valueLength src t =
    (if t = TypeArray \<or> t = TypeEmbeddedDocument \<or> t = TypeCodeWithScope
     then map_option fst (ReadLength src)
     else if t = TypeBinary then map_option (\<lambda>(l, _). l + (4 + 1)) (ReadLength src)
     else if t = TypeBoolean then Some 1
     else if t = TypeDBPointer then map_option (\<lambda>(l, _). l + (4 + 12)) (ReadLength src)
     else if t = TypeDateTime \<or> t = TypeDouble \<or> t = TypeInt64 \<or> t = TypeTimestamp then Some 8
     else if t = TypeDecimal128 then Some 16
     else if t = TypeInt32 then Some 4
     else if t = TypeJavaScript \<or> t = TypeString \<or> t = TypeSymbol
     then map_option (\<lambda>(l, _). l + 4) (ReadLength src)
     else if t = TypeMaxKey \<or> t = TypeMinKey \<or> t = TypeNull \<or> t = TypeUndefined then Some 0
     else if t = TypeObjectID then Some 12
     else if t = TypeRegex then
       (case IndexByte src 0 of
          None \<Rightarrow> None
        | Some regex \<Rightarrow>
            (case IndexByte (drop (regex + 1) src) 0 of
               None \<Rightarrow> None
             | Some pattern \<Rightarrow> Some (of_nat (regex + 1 + pattern + 1))))
     else None)"

definition readValue :: "bytes \<Rightarrow> byte \<Rightarrow> (bytes \<times> bytes) option res" where
  "readValue src t = (case valueLength src t of
      None \<Rightarrow> Inr None
    | Some l \<Rightarrow> if int (length src) < sint l then Inr None
               else go_bind (slice_at src (sint l)) (\<lambda>p. Inr (Some p)))"

text \<open>The loop that finds the end of the key in \<open>ReadElement\<close>.\<close>

fun key_end :: "bytes \<Rightarrow> nat \<Rightarrow> nat" where
  "key_end [] idx = idx"
| "key_end (b # bs) idx = (if b \<noteq> 0 then key_end bs (idx + 1) else idx)"

definition ReadElement :: "bytes \<Rightarrow> (bytes \<times> bytes) option res" where
  "ReadElement src = (case src of
      [] \<Rightarrow> Inr None
    | t # body \<Rightarrow>
        let idx = key_end body 1 in
        if length src \<le> idx then Inr None
        else let idx = idx + 1 in
          case valueLength (drop idx src) t of
            None \<Rightarrow> Inr None
          | Some len \<Rightarrow>
              let elemLength = int idx + sint len in
              if int (length src) < elemLength then Inr None
              else go_bind (slice_at src elemLength) (\<lambda>p. Inr (Some p)))"

lemma slice_at_Inr: "slice_at s n = Inr (a, b) \<longleftrightarrow>
    0 \<le> n \<and> n \<le> int (length s) \<and> a = take (nat n) s \<and> b = drop (nat n) s"
  by (auto simp: slice_at_def)

lemma slice_at_append: "slice_at (a @ b) (int (length a)) = Inr (a, b)"
  by (simp add: slice_at_def)

lemma ReadElement_split: "ReadElement src = Inr (Some (e, r)) \<Longrightarrow> src = e @ r"
  by (auto simp: ReadElement_def Let_def go_bind_eq_Inr slice_at_Inr
      split: list.splits if_splits option.splits)

lemma readValue_split: "readValue src t = Inr (Some (v, r)) \<Longrightarrow> src = v @ r"
  by (auto simp: readValue_def go_bind_eq_Inr slice_at_Inr split: if_splits option.splits)

section \<open>Elements\<close>

definition KeyBytesErr :: "bytes \<Rightarrow> bytes res" where
  "KeyBytesErr e = (case e of
      [] \<Rightarrow> Inl (Err ElementMissingType)
    | _ # body \<Rightarrow> (case IndexByte body 0 of
        None \<Rightarrow> Inl (Err ElementMissingKey)
      | Some idx \<Rightarrow> Inr (take idx body)))"

definition KeyBytes :: "bytes \<Rightarrow> bytes" where
  "KeyBytes e = (case KeyBytesErr e of Inr k \<Rightarrow> k | Inl _ \<Rightarrow> [])"

definition Value_Validate :: "RawValue \<Rightarrow> unit res" where
  "Value_Validate v = go_bind (readValue (rv_value v) (rv_type v)) (\<lambda>r.
     case r of None \<Rightarrow> Inl (Err InsufficientBytes) | Some _ \<Rightarrow> Inr ())"

definition Element_Validate :: "bytes \<Rightarrow> unit res" where
  "Element_Validate e = (case e of
      [] \<Rightarrow> Inl (Err ElementMissingType)
    | t # body \<Rightarrow> (case IndexByte body 0 of
        None \<Rightarrow> Inl (Err ElementMissingKey)
      | Some idx \<Rightarrow> Value_Validate \<lparr>rv_type = t, rv_value = drop (idx + 2) e\<rparr>))"

lemma Element_Validate_nonempty: "Element_Validate e = Inr u \<Longrightarrow> e \<noteq> []"
  by (auto simp: Element_Validate_def)

definition ValueErr :: "bytes \<Rightarrow> RawValue res" where
  "ValueErr e = (case e of
      [] \<Rightarrow> Inl (Err ElementMissingType)
    | t # body \<Rightarrow> (case IndexByte body 0 of
        None \<Rightarrow> Inl (Err ElementMissingKey)
      | Some idx \<Rightarrow> go_bind (readValue (drop (idx + 2) e) t) (\<lambda>r.
          case r of None \<Rightarrow> Inl (Err InsufficientBytes)
                  | Some (d, _) \<Rightarrow> Inr \<lparr>rv_type = t, rv_value = d\<rparr>)))"

text \<open>\<open>Element.Value\<close> drops the error and returns the zero \<open>Value\<close>.\<close>

definition Element_Value :: "bytes \<Rightarrow> RawValue res" where
  "Element_Value e = (case ValueErr e of
      Inl (Err _) \<Rightarrow> Inr \<lparr>rv_type = 0, rv_value = []\<rparr> | r \<Rightarrow> r)"

section \<open>Documents\<close>

definition readLengthBytes :: "bytes \<Rightarrow> (bytes \<times> bytes) option" where
  "readLengthBytes src = (case ReadLength src of
      None \<Rightarrow> None
    | Some (l, _) \<Rightarrow>
        if sint l < 4 then None
        else if int (length src) < sint l then None
        else Some (take (nat (sint l)) src, drop (nat (sint l)) src))"

text \<open>\<open>Value.Document\<close> and \<open>Value.Array\<close> (\<open>t\<close> is the type asked for) panic on other values.\<close>

definition Value_Doc :: "byte \<Rightarrow> RawValue \<Rightarrow> bytes res" where
  "Value_Doc t v =
     (if rv_type v \<noteq> t then Inl (Panic (Panicked ''ElementTypeError''))
      else case readLengthBytes (rv_value v) of
        None \<Rightarrow> Inl (Panic (Panicked ''InsufficientBytesError''))
      | Some (d, _) \<Rightarrow> Inr d)"

text \<open>
  The loop of \<open>Document.Elements\<close>; the elements read before an error are dropped, as
  \<open>Raw.Elements\<close> drops them. A zero-length element (a key of 2 GiB or more) makes no progress,
  but it fails its own validation first.
\<close>

function elements_loop :: "i32 \<Rightarrow> bytes \<Rightarrow> bytes list res" where
  "elements_loop len rem =
     (if 1 < sint len then
        go_bind (ReadElement rem) (\<lambda>r. case r of
          None \<Rightarrow> Inl (Err InsufficientBytes)
        | Some (elem, rem') \<Rightarrow>
            go_bind (Element_Validate elem) (\<lambda>_.
            go_bind (elements_loop (len - of_nat (length elem)) rem') (\<lambda>els.
              Inr (elem # els))))
      else Inr [])"
  by pat_completeness auto
termination
  by (relation "measure (\<lambda>(len, rem). length rem)")
     (auto dest!: ReadElement_split Element_Validate_nonempty)

declare elements_loop.simps [simp del]

definition Elements :: "bytes \<Rightarrow> bytes list res" where
  "Elements d = (case ReadLength d of
      None \<Rightarrow> Inl (Err InsufficientBytes)
    | Some (len, rem) \<Rightarrow> elements_loop (len - 4) rem)"

text \<open>\<open>bson.Raw.Elements\<close>: an empty buffer has no elements.\<close>

definition Raw_Elements :: "bytes \<Rightarrow> bytes list res" where
  "Raw_Elements d = (if d = [] then Inr [] else Elements d)"

text \<open>
  \<open>Document.LookupErr\<close>. \<open>lookup_loop\<close> is its loop: it returns the first element whose key is
  \<open>k\<close>; \<open>lookup_value\<close> is what the method then does with that element.
\<close>

function lookup_loop :: "i32 \<Rightarrow> bytes \<Rightarrow> bytes \<Rightarrow> bytes res" where
  "lookup_loop len rem k =
     (if 1 < sint len then
        go_bind (ReadElement rem) (\<lambda>r. case r of
          None \<Rightarrow> Inl (Err InsufficientBytes)
        | Some (elem, rem') \<Rightarrow>
            if KeyBytes elem = k then Inr elem
            else if elem = [] then Inl Diverge
            else lookup_loop (len - of_nat (length elem)) rem' k)
      else Inl (Err ElementNotFound))"
  by pat_completeness auto
termination
  by (relation "measure (\<lambda>(len, rem, k). length rem)") (auto dest: ReadElement_split)

declare lookup_loop.simps [simp del]

fun LookupErr :: "bytes \<Rightarrow> bytes list \<Rightarrow> RawValue res" where
  "LookupErr d [] = Inl (Err EmptyKey)"
| "LookupErr d (k # ks) =
     (case ReadLength d of
        None \<Rightarrow> Inl (Err InsufficientBytes)
      | Some (len, rem) \<Rightarrow>
          go_bind (lookup_loop (len - 4) rem k) (\<lambda>elem.
          if ks \<noteq> [] then
            (case elem of
               [] \<Rightarrow> Inl (Panic IndexRange)
             | tt # _ \<Rightarrow>
                 if tt = TypeEmbeddedDocument \<or> tt = TypeArray then
                   go_bind (Element_Value elem) (\<lambda>v.
                   go_bind (Value_Doc tt v) (\<lambda>sub. LookupErr sub ks))
                 else Inl (Err (InvalidDepthTraversal (KeyBytes elem) tt)))
          else ValueErr elem))"

section \<open>Reading and appending scalar values\<close>

text \<open>
  Each reader returns the value and the rest of the bytes, \<open>None\<close> where the code's \<open>ok\<close> is
  false. A double is its 64 bits.
\<close>

definition appendLength :: "bytes \<Rightarrow> i32 \<Rightarrow> bytes" where
  "appendLength dst l = Append32 dst l"

definition appendstring :: "bytes \<Rightarrow> bytes \<Rightarrow> bytes" where
  "appendstring dst s = appendLength dst (of_nat (length s + 1)) @ s @ [0]"

definition readstring :: "bytes \<Rightarrow> (bytes \<times> bytes) option" where
  "readstring src = (case ReadLength src of
      None \<Rightarrow> None
    | Some (l, rem) \<Rightarrow>
        if int (length (drop 4 src)) < sint l \<or> l = 0 then None
        else Some (take (nat (sint l - 1)) rem, drop (nat (sint l)) rem))"

definition AppendBinary :: "bytes \<Rightarrow> byte \<Rightarrow> bytes \<Rightarrow> bytes" where
  "AppendBinary dst subtype b =
     (if subtype = 0x02
      then appendLength (appendLength dst (of_nat (length b + 4)) @ [subtype]) (of_nat (length b)) @ b
      else appendLength dst (of_nat (length b)) @ [subtype] @ b)"

definition ReadBinary :: "bytes \<Rightarrow> (byte \<times> bytes \<times> bytes) option" where
  "ReadBinary src = (case ReadLength src of
      None \<Rightarrow> None
    | Some (len, rem) \<Rightarrow> (case rem of
        [] \<Rightarrow> None
      | subtype # rem' \<Rightarrow>
          if int (length rem') < sint len then None
          else if subtype = 0x02 then
            (case ReadLength rem' of
               None \<Rightarrow> None
             | Some (len2, rem2) \<Rightarrow>
                 if int (length rem2) < sint len2 then None
                 else Some (subtype, take (nat (sint len2)) rem2, drop (nat (sint len2)) rem2))
          else Some (subtype, take (nat (sint len)) rem', drop (nat (sint len)) rem')))"

definition ReadObjectID :: "bytes \<Rightarrow> (bytes \<times> bytes) option" where
  "ReadObjectID src = (if length src < 12 then None else Some (take 12 src, drop 12 src))"

definition ReadBoolean :: "bytes \<Rightarrow> (bool \<times> bytes) option" where
  "ReadBoolean src = (case src of [] \<Rightarrow> None | b # rest \<Rightarrow> Some (b = 0x01, rest))"

definition AppendBoolean :: "bytes \<Rightarrow> bool \<Rightarrow> bytes" where
  "AppendBoolean dst b = dst @ [if b then 0x01 else 0x00]"

definition ReadCString :: "bytes \<Rightarrow> (bytes \<times> bytes) option" where
  "ReadCString src = (case IndexByte src 0 of
      None \<Rightarrow> None | Some idx \<Rightarrow> Some (take idx src, drop (idx + 1) src))"

definition isValidCString :: "bytes \<Rightarrow> bool" where
  "isValidCString cs \<longleftrightarrow> IndexByte cs 0 = None"

definition AppendRegex :: "bytes \<Rightarrow> bytes \<Rightarrow> bytes \<Rightarrow> bytes res" where
  "AppendRegex dst pattern options =
     (if \<not> isValidCString pattern \<or> \<not> isValidCString options
      then Inl (Panic (Panicked ''BSON regex values cannot contain null bytes''))
      else Inr (dst @ pattern @ [0] @ options @ [0]))"

definition ReadRegex :: "bytes \<Rightarrow> (bytes \<times> bytes \<times> bytes) option" where
  "ReadRegex src = (case ReadCString src of
      None \<Rightarrow> None
    | Some (pattern, rem) \<Rightarrow> (case ReadCString rem of
        None \<Rightarrow> None | Some (options, rem') \<Rightarrow> Some (pattern, options, rem')))"

definition AppendDBPointer :: "bytes \<Rightarrow> bytes \<Rightarrow> bytes \<Rightarrow> bytes" where
  "AppendDBPointer dst ns oid = appendstring dst ns @ oid"

definition ReadDBPointer :: "bytes \<Rightarrow> (bytes \<times> bytes \<times> bytes) option" where
  "ReadDBPointer src = (case readstring src of
      None \<Rightarrow> None
    | Some (ns, rem) \<Rightarrow> (case ReadObjectID rem of
        None \<Rightarrow> None | Some (oid, rem') \<Rightarrow> Some (ns, oid, rem')))"

definition AppendCodeWithScope :: "bytes \<Rightarrow> bytes \<Rightarrow> bytes \<Rightarrow> bytes" where
  "AppendCodeWithScope dst code scope =
     appendstring (appendLength dst (of_nat (4 + 4 + length code + 1 + length scope))) code @ scope"

definition ReadCodeWithScope :: "bytes \<Rightarrow> (bytes \<times> bytes \<times> bytes) option" where
  "ReadCodeWithScope src = (case ReadLength src of
      None \<Rightarrow> None
    | Some (len, rem) \<Rightarrow>
        if int (length src) < sint len then None
        else (case readstring rem of
          None \<Rightarrow> None
        | Some (code, rem') \<Rightarrow> (case readLengthBytes rem' of
            None \<Rightarrow> None | Some (scope, rem2) \<Rightarrow> Some (code, scope, rem2))))"

definition AppendTimestamp :: "bytes \<Rightarrow> i32 \<Rightarrow> i32 \<Rightarrow> bytes" where
  "AppendTimestamp dst t i = Append32 (Append32 dst i) t"

definition ReadTimestamp :: "bytes \<Rightarrow> (i32 \<times> i32 \<times> bytes) option" where
  "ReadTimestamp src = (case Read32 src of
      None \<Rightarrow> None
    | Some (i, rem) \<Rightarrow> (case Read32 rem of None \<Rightarrow> None | Some (t, rem') \<Rightarrow> Some (t, i, rem')))"

definition AppendDecimal128 :: "bytes \<Rightarrow> i64 \<Rightarrow> i64 \<Rightarrow> bytes" where
  "AppendDecimal128 dst high low = Append64 (Append64 dst low) high"

definition ReadDecimal128 :: "bytes \<Rightarrow> (i64 \<times> i64 \<times> bytes) option" where
  "ReadDecimal128 src = (case Read64 src of
      None \<Rightarrow> None
    | Some (low, rem) \<Rightarrow> (case Read64 rem of
        None \<Rightarrow> None | Some (high, rem') \<Rightarrow> Some (high, low, rem')))"

text \<open>\<open>AppendHeader\<close> panics on a key with a zero byte.\<close>

definition AppendHeader :: "bytes \<Rightarrow> byte \<Rightarrow> bytes \<Rightarrow> bytes res" where
  "AppendHeader dst t key =
     (if \<not> isValidCString key
      then Inl (Panic (Panicked ''BSON element keys cannot contain null bytes''))
      else Inr (dst @ [t] @ key @ [0]))"

definition UpdateLength :: "bytes \<Rightarrow> nat \<Rightarrow> i32 \<Rightarrow> bytes" where
  "UpdateLength dst index len = take index dst @ le_bytes 4 (unat len) @ drop (index + 4) dst"

end
