(* ===== verification/Bson_Tree.thy ===== *)
theory Bson_Tree
  imports Bson_Core
begin

text \<open>
  The abstract BSON document: a tree whose leaves are scalar values (type and payload) and
  whose nodes are embedded documents and arrays, with its byte encoding. Every refinement of
  the \<open>bsontools\<close> operations is stated against these trees. The lemmas here say what the
  reader of \<open>Bson_Core\<close> returns on encoded bytes.
\<close>

section \<open>Trees and their encoding\<close>

datatype bson =
    Scalar byte bytes                          \<comment> \<open>type, payload\<close>
  | Sub byte "(bytes \<times> bson) list"             \<comment> \<open>embedded document or array: type, fields\<close>

fun type_of :: "bson \<Rightarrow> byte" where
  "type_of (Scalar t p) = t"
| "type_of (Sub t fs) = t"

text \<open>A document is its length, its elements and a zero byte.\<close>

definition frame :: "bytes \<Rightarrow> bytes" where
  "frame body = le_bytes 4 (length body + 5) @ body @ [0]"

fun enc_val :: "bson \<Rightarrow> bytes" where
  "enc_val (Scalar t p) = p"
| "enc_val (Sub t fs) = frame (concat (map (\<lambda>(k, v). type_of v # k @ 0 # enc_val v) fs))"

definition enc_elem :: "bytes \<times> bson \<Rightarrow> bytes" where
  "enc_elem f = type_of (snd f) # fst f @ 0 # enc_val (snd f)"

definition enc_doc :: "(bytes \<times> bson) list \<Rightarrow> bytes" where
  "enc_doc fs = frame (concat (map enc_elem fs))"

lemma enc_val_Sub [simp]: "enc_val (Sub t fs) = enc_doc fs"
proof -
  have "(\<lambda>(k, v). type_of v # k @ 0 # enc_val v) = enc_elem"
    by (auto simp: enc_elem_def)
  then show ?thesis by (simp add: enc_doc_def)
qed

declare enc_val.simps(2) [simp del]

section \<open>Well-formed trees\<close>

definition is_sub :: "byte \<Rightarrow> bool" where
  "is_sub t \<longleftrightarrow> t = TypeEmbeddedDocument \<or> t = TypeArray"

definition wf_scalar :: "byte \<Rightarrow> bytes \<Rightarrow> bool" where
  "wf_scalar t p \<longleftrightarrow> \<not> is_sub t \<and> valueLength p t = Some (of_nat (length p))"

fun wf_val :: "bson \<Rightarrow> bool" where
  "wf_val (Scalar t p) = wf_scalar t p"
| "wf_val (Sub t fs) = (is_sub t \<and> list_all (\<lambda>(k, v). 0 \<notin> set k \<and> wf_val v) fs)"

definition wf_field :: "bytes \<times> bson \<Rightarrow> bool" where
  "wf_field f \<longleftrightarrow> 0 \<notin> set (fst f) \<and> wf_val (snd f)"

lemma wf_val_Sub [simp]: "wf_val (Sub t fs) \<longleftrightarrow> is_sub t \<and> list_all wf_field fs"
  by (auto simp: list_all_iff wf_field_def)

declare wf_val.simps(2) [simp del]

text \<open>A document Go's int32 lengths can describe.\<close>

definition fits :: "bytes \<Rightarrow> bool" where
  "fits b \<longleftrightarrow> length b < 2147483648"

definition wf_doc :: "(bytes \<times> bson) list \<Rightarrow> bool" where
  "wf_doc fs \<longleftrightarrow> list_all wf_field fs \<and> fits (enc_doc fs)"

lemma length_frame [simp]: "length (frame body) = length body + 5"
  by (simp add: frame_def)

lemma frame_nonempty [simp]: "frame body \<noteq> []"
  by (metis length_frame add_is_0 list.size(3) zero_neq_numeral)

lemma length_enc_elem [simp]: "length (enc_elem (k, v)) = length k + length (enc_val v) + 2"
  by (simp add: enc_elem_def)

lemma enc_elem_nonempty [simp]: "enc_elem f \<noteq> []"
  by (simp add: enc_elem_def)

lemma fits_mono: "fits b \<Longrightarrow> length a \<le> length b \<Longrightarrow> fits a"
  by (simp add: fits_def)

lemma length_concat_ge: "x \<in> set xs \<Longrightarrow> length (f x) \<le> length (concat (map f xs))"
  by (induction xs) auto

lemma fits_elem: "fits (enc_doc fs) \<Longrightarrow> f \<in> set fs \<Longrightarrow> fits (enc_elem f)"
  using length_concat_ge [of f fs enc_elem] by (auto simp: enc_doc_def fits_def)

lemma fits_val: "fits (enc_elem (k, v)) \<Longrightarrow> fits (enc_val v)"
  by (simp add: fits_def)

lemma wf_doc_field:
  "wf_doc fs \<Longrightarrow> f \<in> set fs \<Longrightarrow> wf_field f \<and> fits (enc_elem f)"
  by (auto simp: wf_doc_def list_all_iff fits_elem)

lemma wf_doc_sub:
  "wf_doc fs \<Longrightarrow> (k, Sub t sub) \<in> set fs \<Longrightarrow> wf_doc sub"
  using wf_doc_field [of fs "(k, Sub t sub)"] fits_val [of k "Sub t sub"]
  by (auto simp: wf_doc_def wf_field_def)

text \<open>Unfolding rules that evaluate the model on a concrete tree or a concrete buffer.\<close>

lemmas tree_eval = wf_doc_def wf_field_def wf_scalar_def valueLength_def is_sub_def fits_def
  enc_doc_def enc_elem_def str_def

lemmas reader_eval = ReadElement_def valueLength_def ReadLength_def Read32_def slice_at_def

section \<open>What the reader returns on encoded bytes\<close>

lemma ReadLength_le [read_simps]:
  "n < 2147483648 \<Longrightarrow> ReadLength (le_bytes 4 n @ rest) = Some (of_nat n, rest)"
proof -
  assume n: "n < 2147483648"
  then have "le_bytes 4 n = le_bytes 4 (unat (of_nat n :: i32))"
    by (simp add: unat_of_nat_32)
  then show ?thesis using n by (simp add: ReadLength_def sint_of_nat_32)
qed

lemma ReadLength_frame [read_simps]:
  "fits (frame body) \<Longrightarrow> ReadLength (frame body @ rest) = Some (of_nat (length body + 5), body @ 0 # rest)"
  by (simp add: frame_def fits_def ReadLength_le)

lemma ReadLength_append:
  "ReadLength p = Some (l, r) \<Longrightarrow> ReadLength (p @ rest) = Some (l, r @ rest)"
  by (auto simp: ReadLength_def Read32_def split: option.splits if_splits)

text \<open>The length of a value does not depend on what follows it.\<close>

lemma valueLength_append:
  assumes "valueLength p t = Some l"
  shows "valueLength (p @ rest) t = Some l"
proof (cases "t = TypeRegex")
  case False
  then show ?thesis
    using assms ReadLength_append [of p _ _ rest]
    by (fastforce simp: valueLength_def split: if_splits)
next
  case True
  then obtain i j where i: "IndexByte p 0 = Some i" and j: "IndexByte (drop (Suc i) p) 0 = Some j"
    and l: "l = of_nat (i + 1 + j + 1)"
    using assms by (auto simp: valueLength_def split: option.splits)
  have "i < length p" using IndexByte_Some [OF i] by simp
  then have "IndexByte (drop (Suc i) (p @ rest)) 0 = Some j"
    using IndexByte_append_left [OF j] by simp
  then show ?thesis
    using True IndexByte_append_left [OF i, of rest] by (simp add: valueLength_def l)
qed

lemma valueLength_enc:
  assumes "wf_val v" and "fits (enc_val v)"
  shows "valueLength (enc_val v @ rest) (type_of v) = Some (of_nat (length (enc_val v)))"
proof (cases v)
  case (Scalar t p)
  with assms show ?thesis by (simp add: wf_scalar_def valueLength_append)
next
  case (Sub t fs)
  with assms have "t = TypeEmbeddedDocument \<or> t = TypeArray" by (simp add: is_sub_def)
  moreover have "ReadLength (enc_doc fs @ rest)
      = Some (of_nat (length (enc_doc fs)), concat (map enc_elem fs) @ 0 # rest)"
    using assms(2) Sub by (simp add: enc_doc_def ReadLength_frame)
  ultimately show ?thesis using Sub by (auto simp: valueLength_def)
qed

lemma sint_fits: "fits b \<Longrightarrow> sint (of_nat (length b) :: i32) = int (length b)"
  by (simp add: fits_def sint_of_nat_32)

lemma readValue_enc [read_simps]:
  assumes "wf_val v" and "fits (enc_val v)"
  shows "readValue (enc_val v @ rest) (type_of v) = Inr (Some (enc_val v, rest))"
  by (simp add: readValue_def valueLength_enc [OF assms] sint_fits [OF assms(2)] slice_at_append)

lemma readValue_enc_all [read_simps]:
  "wf_val v \<Longrightarrow> fits (enc_val v) \<Longrightarrow> readValue (enc_val v) (type_of v) = Inr (Some (enc_val v, []))"
  using readValue_enc [of v "[]"] by simp

lemma key_end_append: "0 \<notin> set k \<Longrightarrow> key_end (k @ 0 # r) i = i + length k"
  by (induction k arbitrary: i) auto

lemma ReadElement_enc [read_simps]:
  assumes "wf_field f" and "fits (enc_elem f)"
  shows "ReadElement (enc_elem f @ rest) = Inr (Some (enc_elem f, rest))"
proof -
  obtain k v where f: "f = (k, v)" by (cases f)
  have wf: "0 \<notin> set k" "wf_val v" and fv: "fits (enc_val v)"
    using assms f by (auto simp: wf_field_def fits_val)
  let ?src = "enc_elem f @ rest"
  have src: "?src = type_of v # (k @ 0 # (enc_val v @ rest))" by (simp add: f enc_elem_def)
  have ke: "key_end (k @ 0 # (enc_val v @ rest)) 1 = Suc (length k)"
    using key_end_append [OF wf(1)] by simp
  have dr: "drop (Suc (Suc (length k))) ?src = enc_val v @ rest" by (simp add: src)
  have len: "int (Suc (length k) + 1) + sint (of_nat (length (enc_val v)) :: i32) = int (length (enc_elem f))"
    using sint_fits [OF fv] f by simp
  have "length (enc_elem f) = length k + length (enc_val v) + 2" using f by simp
  then show ?thesis
    unfolding ReadElement_def src list.case Let_def ke
    using dr len slice_at_append [of "enc_elem f" rest] valueLength_enc [OF wf(2) fv, of rest]
    by (simp add: add.assoc flip: src)
qed

lemma IndexByte_key: "0 \<notin> set k \<Longrightarrow> IndexByte (k @ 0 # r) 0 = Some (length k)"
  by (rule IndexByte_append_notin)

lemma KeyBytes_enc [read_simps]:
  "wf_field f \<Longrightarrow> KeyBytesErr (enc_elem f) = Inr (fst f)"
  "wf_field f \<Longrightarrow> KeyBytes (enc_elem f) = fst f"
  by (simp_all add: KeyBytes_def KeyBytesErr_def enc_elem_def wf_field_def IndexByte_key)

lemma ValueErr_enc [read_simps]:
  assumes "wf_field f" and "fits (enc_elem f)"
  shows "ValueErr (enc_elem f) = Inr \<lparr>rv_type = type_of (snd f), rv_value = enc_val (snd f)\<rparr>"
  using assms fits_val [of "fst f" "snd f"]
  by (simp add: ValueErr_def enc_elem_def wf_field_def IndexByte_key readValue_enc_all)

lemma Element_Value_enc [read_simps]:
  assumes "wf_field f" and "fits (enc_elem f)"
  shows "Element_Value (enc_elem f) = Inr \<lparr>rv_type = type_of (snd f), rv_value = enc_val (snd f)\<rparr>"
  by (simp add: Element_Value_def ValueErr_enc [OF assms])

lemma Element_Validate_enc [read_simps]:
  assumes "wf_field f" and "fits (enc_elem f)"
  shows "Element_Validate (enc_elem f) = Inr ()"
  using assms fits_val [of "fst f" "snd f"]
  by (simp add: Element_Validate_def Value_Validate_def enc_elem_def wf_field_def IndexByte_key
      readValue_enc_all)

lemma readLengthBytes_frame [read_simps]:
  assumes "fits (frame body)"
  shows "readLengthBytes (frame body @ rest) = Some (frame body, rest)"
proof -
  have "sint (of_nat (length body + 5) :: i32) = int (length body + 5)"
    using assms by (simp add: fits_def sint_of_nat_32 del: of_nat_add)
  moreover have "ReadLength (frame body @ rest) = Some (of_nat (length body + 5), body @ 0 # rest)"
    using ReadLength_frame [OF assms] .
  moreover have "take (nat (int (length body + 5))) (frame body @ rest) = frame body"
    "drop (nat (int (length body + 5))) (frame body @ rest) = rest"
    by (simp_all flip: length_frame)
  ultimately show ?thesis by (simp add: readLengthBytes_def del: of_nat_add)
qed

lemma Value_Doc_enc [read_simps]:
  assumes "fits (enc_doc fs)"
  shows "Value_Doc t \<lparr>rv_type = t, rv_value = enc_doc fs\<rparr> = Inr (enc_doc fs)"
  using readLengthBytes_frame [of "concat (map enc_elem fs)" "[]"] assms
  by (simp add: Value_Doc_def enc_doc_def)

end
