(* ===== verification/Bson_Raw.thy ===== *)
theory Bson_Raw
  imports Bson_Tree
begin

text \<open>
  \<open>bsontools/raw.go\<close>: the validating element iterator \<open>RawElements\<close>, \<open>CountRawElements\<close> and
  \<open>RawLookup\<close>, with the driver's \<open>Elements\<close> and \<open>LookupErr\<close>, refined to the tree.
\<close>

section \<open>The iterator\<close>

text \<open>
  An iterator is the elements it yields followed by how it ends: exhausted (\<open>None\<close>), an
  error yielded to the caller, or a panic. The caller must stop after an error; every caller
  in the repository returns there, as \<open>range_over\<close> does (\<open>w\<close> is how it wraps the error).
\<close>

type_synonym elements_iter = "bytes list \<times> bson_error fault option"

function rawElementsLoop :: "bytes \<Rightarrow> elements_iter" where
  "rawElementsLoop remaining =
     (if remaining = [] then ([], None)
      else case ReadElement remaining of
        Inl x \<Rightarrow> ([], Some x)
      | Inr None \<Rightarrow> ([], Some (Err InsufficientBytes))
      | Inr (Some (el, rest)) \<Rightarrow>
          (case Element_Validate el of
             Inl x \<Rightarrow> ([], Some x)
           | Inr _ \<Rightarrow> (case rawElementsLoop rest of (els, end) \<Rightarrow> (el # els, end))))"
  by pat_completeness auto
termination
  by (relation "measure length") (auto dest!: ReadElement_split Element_Validate_nonempty)

declare rawElementsLoop.simps [simp del]

definition RawElements :: "bytes \<Rightarrow> elements_iter" where
  "RawElements doc =
     (if doc = [] then ([], None)
      else case ReadLength doc of
        None \<Rightarrow> ([], Some (Err (Wrapped ''buffer is too short'' InsufficientBytes)))
      | Some (len, rem) \<Rightarrow>
          if sint len < 5 then
            ([], Some (Err (Errorf ''declared document length is below BSON minimum (5)'')))
          else if sint len \<noteq> int (length doc) then
            ([], Some (Err (Errorf ''declared document length mismatches actual buffer length'')))
          else if doc ! (length doc - 1) \<noteq> 0 then
            ([], Some (Err (Errorf ''BSON document missing trailing NUL terminator'')))
          else rawElementsLoop (take (length doc - 1 - 4) (drop 4 doc)))"

fun range_elements :: "('s \<Rightarrow> bytes \<Rightarrow> 's res) \<Rightarrow> 's \<Rightarrow> bytes list \<Rightarrow> 's res" where
  "range_elements body s [] = Inr s"
| "range_elements body s (el # els) = go_bind (body s el) (\<lambda>s'. range_elements body s' els)"

definition range_over ::
  "elements_iter \<Rightarrow> (bson_error \<Rightarrow> bson_error) \<Rightarrow> ('s \<Rightarrow> bytes \<Rightarrow> 's res) \<Rightarrow> 's \<Rightarrow> 's res" where
  "range_over it w body s =
     go_bind (range_elements body s (fst it)) (\<lambda>s'.
     case snd it of
       None \<Rightarrow> Inr s'
     | Some (Err e) \<Rightarrow> Inl (Err (w e))
     | Some (Panic p) \<Rightarrow> Inl (Panic p)
     | Some Diverge \<Rightarrow> Inl Diverge)"

definition CountRawElements :: "bytes \<Rightarrow> nat res" where
  "CountRawElements doc =
     range_over (RawElements doc) (\<lambda>err. err) (\<lambda>elsCount _. Inr (elsCount + 1)) 0"

text \<open>\<open>RawLookup[T]\<close>; \<open>conv\<close> is \<open>RawValueTo[T]\<close>.\<close>

definition RawLookup :: "(RawValue \<Rightarrow> 'a res) \<Rightarrow> bytes \<Rightarrow> bytes list \<Rightarrow> 'a res" where
  "RawLookup conv doc pointer =
     go_bind (wrap_err (Wrapped ''extracting'') (LookupErr doc pointer)) (\<lambda>rv.
     wrap_err (Wrapped ''casting'') (conv rv))"

section \<open>The loops on encoded documents\<close>

abbreviation body :: "(bytes \<times> bson) list \<Rightarrow> bytes" where
  "body fs \<equiv> concat (map enc_elem fs)"

text \<open>
  The countdown of the driver's loops: with \<open>fs\<close> still to read, \<open>length\<close> is
  \<open>length (body fs) + 1\<close>, and it exceeds 1 exactly while a field is left.
\<close>

lemma countdown:
  assumes "fits (body (f # fs))" and "length (body (f # fs)) + 1 < 2147483648"
  shows "1 < sint (of_nat (length (body (f # fs)) + 1) :: i32)"
    and "(of_nat (length (body (f # fs)) + 1) :: i32) - of_nat (length (enc_elem f))
       = of_nat (length (body fs) + 1)"
proof -
  have "0 < length (enc_elem f)" by simp
  then show "1 < sint (of_nat (length (body (f # fs)) + 1) :: i32)"
    using sint_of_nat_32 [OF assms(2)] by (simp del: length_greater_0_conv)
  show "(of_nat (length (body (f # fs)) + 1) :: i32) - of_nat (length (enc_elem f))
       = of_nat (length (body fs) + 1)" by simp
qed

lemma fits_body: "fits (enc_doc fs) \<Longrightarrow> length (body fs) + 1 < 2147483648"
  by (simp add: enc_doc_def fits_def)

lemma elements_loop_enc:
  assumes "list_all wf_field fs" and "length (body fs) + 1 < 2147483648"
  shows "elements_loop (of_nat (length (body fs) + 1)) (body fs @ rest) = Inr (map enc_elem fs)"
  using assms
proof (induction fs)
  case Nil
  then show ?case by (simp add: elements_loop.simps)
next
  case (Cons f fs)
  then have f: "wf_field f" "fits (enc_elem f)" and fits: "fits (body (f # fs))"
    by (auto simp: fits_def)
  have IH: "elements_loop (of_nat (length (body fs) + 1)) (body fs @ rest) = Inr (map enc_elem fs)"
    using Cons by simp
  note cd = countdown [OF fits Cons.prems(2)]
  show ?case
    by (subst elements_loop.simps)
       (use cd IH ReadElement_enc [OF f] Element_Validate_enc [OF f] in simp)
qed

lemma lookup_loop_enc:
  assumes "list_all wf_field fs" and "length (body fs) + 1 < 2147483648"
  shows "lookup_loop (of_nat (length (body fs) + 1)) (body fs @ rest) k =
     (case map_of fs k of None \<Rightarrow> Inl (Err ElementNotFound) | Some v \<Rightarrow> Inr (enc_elem (k, v)))"
  using assms
proof (induction fs)
  case Nil
  then show ?case by (simp add: lookup_loop.simps)
next
  case (Cons f fs)
  then have f: "wf_field f" "fits (enc_elem f)" and fits: "fits (body (f # fs))"
    by (auto simp: fits_def)
  have IH: "lookup_loop (of_nat (length (body fs) + 1)) (body fs @ rest) k =
     (case map_of fs k of None \<Rightarrow> Inl (Err ElementNotFound) | Some v \<Rightarrow> Inr (enc_elem (k, v)))"
    using Cons by simp
  note cd = countdown [OF fits Cons.prems(2)]
  show ?case
    by (subst lookup_loop.simps)
       (use cd IH ReadElement_enc [OF f] KeyBytes_enc [OF f(1)] in \<open>auto split: option.split\<close>)
qed

lemma rawElementsLoop_enc:
  assumes "list_all wf_field fs" and "fits (body fs)"
  shows "rawElementsLoop (body fs) = (map enc_elem fs, None)"
  using assms
proof (induction fs)
  case Nil
  then show ?case by (simp add: rawElementsLoop.simps)
next
  case (Cons f fs)
  then have f: "wf_field f" "fits (enc_elem f)" and "fits (body fs)"
    by (auto simp: fits_def)
  with Cons have "rawElementsLoop (body fs) = (map enc_elem fs, None)" by simp
  then show ?case
    by (subst rawElementsLoop.simps)
       (use ReadElement_enc [OF f] Element_Validate_enc [OF f] in simp)
qed

lemma ReadLength_enc_doc:
  assumes "fits (enc_doc fs)"
  shows "ReadLength (enc_doc fs @ rest) = Some (of_nat (length (enc_doc fs)), body fs @ 0 # rest)"
  using ReadLength_frame [of "body fs" rest] assms by (simp add: enc_doc_def)

lemma header_minus_4: "(of_nat (length (enc_doc fs)) :: i32) - 4 = of_nat (length (body fs) + 1)"
  by (simp add: enc_doc_def)

lemma Raw_Elements_enc [read_simps]:
  assumes "wf_doc fs"
  shows "Raw_Elements (enc_doc fs) = Inr (map enc_elem fs)"
proof -
  from assms have fs: "list_all wf_field fs" "fits (enc_doc fs)" by (auto simp: wf_doc_def)
  have "enc_doc fs \<noteq> []" by (simp add: enc_doc_def)
  then show ?thesis
    using ReadLength_enc_doc [OF fs(2), of "[]"] elements_loop_enc [OF fs(1) fits_body [OF fs(2)], of "[0]"]
    by (simp add: Raw_Elements_def Elements_def header_minus_4)
qed

section \<open>Lookup in the tree\<close>

definition raw_of :: "bson \<Rightarrow> RawValue" where
  "raw_of v = \<lparr>rv_type = type_of v, rv_value = enc_val v\<rparr>"

fun tree_lookup :: "(bytes \<times> bson) list \<Rightarrow> bytes list \<Rightarrow> bson res" where
  "tree_lookup fs [] = Inl (Err EmptyKey)"
| "tree_lookup fs (k # ks) =
     (case map_of fs k of
        None \<Rightarrow> Inl (Err ElementNotFound)
      | Some v \<Rightarrow>
          if ks = [] then Inr v
          else (case v of Sub t sub \<Rightarrow> tree_lookup sub ks
                | Scalar t p \<Rightarrow> Inl (Err (InvalidDepthTraversal k t))))"

lemma enc_elem_Cons: "enc_elem (k, v) = type_of v # k @ 0 # enc_val v"
  by (simp add: enc_elem_def)

lemma LookupErr_enc:
  "wf_doc fs \<Longrightarrow> LookupErr (enc_doc fs) ks = map_sum (\<lambda>x. x) raw_of (tree_lookup fs ks)"
proof (induction fs ks rule: tree_lookup.induct)
  case (1 fs)
  then show ?case by simp
next
  case (2 fs k ks)
  from "2.prems" have fs: "list_all wf_field fs" "fits (enc_doc fs)" by (auto simp: wf_doc_def)
  note hdr = ReadLength_enc_doc [OF fs(2), of "[]", simplified]
  note scan = lookup_loop_enc [OF fs(1) fits_body [OF fs(2)], of "[0]" k, simplified]
  show ?case
  proof (cases "map_of fs k")
    case None
    then show ?thesis using hdr scan by (simp add: header_minus_4)
  next
    case (Some v)
    then have mem: "(k, v) \<in> set fs" by (rule map_of_SomeD)
    note f = wf_doc_field [OF "2.prems" mem]
    have val: "ValueErr (enc_elem (k, v)) = Inr (raw_of v)"
      using f by (simp add: ValueErr_enc raw_of_def)
    have eval: "Element_Value (enc_elem (k, v)) = Inr (raw_of v)"
      using f by (simp add: Element_Value_enc raw_of_def)
    show ?thesis
    proof (cases "ks = []")
      case True
      then show ?thesis using hdr scan Some val by (simp add: header_minus_4)
    next
      case False
      note ks = this
      show ?thesis
      proof (cases v)
        case (Scalar t p)
        with f have "\<not> is_sub t" by (simp add: wf_field_def wf_scalar_def)
        then show ?thesis
          using hdr scan Some ks Scalar f KeyBytes_enc(2) [of "(k, v)"]
          by (simp add: header_minus_4 enc_elem_Cons is_sub_def)
      next
        case (Sub t sub)
        with mem "2.prems" have sub: "wf_doc sub" by (blast intro: wf_doc_sub)
        have t: "t = TypeEmbeddedDocument \<or> t = TypeArray"
          using f Sub by (simp add: wf_field_def is_sub_def)
        have "LookupErr (enc_doc sub) ks = map_sum (\<lambda>x. x) raw_of (tree_lookup sub ks)"
          using "2.IH" [OF Some ks Sub sub] .
        moreover have "Value_Doc t (raw_of v) = Inr (enc_doc sub)"
          using Value_Doc_enc [of sub t] sub Sub by (simp add: raw_of_def wf_doc_def)
        ultimately show ?thesis
          using hdr scan Some ks Sub t eval by (auto simp: header_minus_4 enc_elem_Cons)
      qed
    qed
  qed
qed

section \<open>Soundness of the iterator\<close>

lemma uint_eq_sint: "0 \<le> sint (w :: i32) \<Longrightarrow> uint w = sint w"
  using sint_less [of w]
  by (simp only: uint_sint) (rule take_bit_int_eq_self, auto)

lemma ReadLength_Some:
  assumes "ReadLength src = Some (l, rest)"
  shows "0 \<le> sint l" and "src = le_bytes 4 (nat (sint l)) @ rest"
proof -
  from assms have r: "Read32 src = Some (l, rest)" and "0 \<le> sint l"
    by (auto simp: ReadLength_def split: option.splits if_splits)
  then show "0 \<le> sint l" by simp
  then have "unat l = nat (sint l)" using uint_eq_sint [of l] by (simp flip: nat_uint_eq)
  with Read32_Some [OF r] show "src = le_bytes 4 (nat (sint l)) @ rest" by simp
qed

lemma RawElements_header:
  assumes "RawElements doc = (els, None)" and "doc \<noteq> []"
  obtains body where "doc = frame body" and "fits doc" and "rawElementsLoop body = (els, None)"
proof -
  from assms obtain len rem where rl: "ReadLength doc = Some (len, rem)"
    and len: "5 \<le> sint len" "sint len = int (length doc)"
    and last: "doc ! (length doc - 1) = 0"
    and loop: "rawElementsLoop (take (length doc - 1 - 4) (drop 4 doc)) = (els, None)"
    by (auto simp: RawElements_def split: option.splits if_splits)
  have doc: "doc = le_bytes 4 (length doc) @ rem" using ReadLength_Some(2) [OF rl] len by simp
  have lr: "length doc = length rem + 4" by (subst doc) simp
  have ne: "rem \<noteq> []" using len lr by auto
  have lst: "last rem = 0"
    using last ne lr by (subst (asm) doc) (simp add: last_conv_nth nth_append)
  have d4: "drop 4 doc = rem" by (subst doc) simp
  let ?body = "butlast rem"
  have "length ?body + 5 = length rem + 4" using ne by (cases rem) auto
  moreover have "doc = le_bytes 4 (length rem + 4) @ ?body @ [0]"
    using doc lst lr append_butlast_last_id [OF ne] by simp
  ultimately have "doc = frame ?body" by (simp only: frame_def)
  moreover have "fits doc" using sint_less [of len] len by (simp add: fits_def)
  moreover have "rawElementsLoop ?body = (els, None)"
    using loop d4 lr by (simp add: butlast_conv_take)
  ultimately show thesis by (rule that)
qed

text \<open>An element that stands alone: the reader takes all of it and its value validates.\<close>

definition raw_element :: "bytes \<Rightarrow> bool" where
  "raw_element e \<longleftrightarrow> ReadElement e = Inr (Some (e, [])) \<and> Element_Validate e = Inr ()"

lemma key_end_IndexByte: "IndexByte b 0 = Some i \<Longrightarrow> key_end b n = n + i"
  by (induction b arbitrary: i n) (auto split: if_splits)

lemma key_end_notin: "IndexByte b 0 = None \<Longrightarrow> key_end b n = n + length b"
  by (induction b arbitrary: n) (auto split: if_splits)

lemma ReadElement_Cons:
  "ReadElement (t # b) = (case IndexByte b 0 of
     None \<Rightarrow> Inr None
   | Some i \<Rightarrow> (case valueLength (drop (i + 1) b) t of
       None \<Rightarrow> Inr None
     | Some len \<Rightarrow> (if int (length b) + 1 < int i + 2 + sint len then Inr None
         else go_bind (slice_at (t # b) (int i + 2 + sint len)) (\<lambda>p. Inr (Some p)))))"
proof (cases "IndexByte b 0")
  case None
  then show ?thesis by (simp add: ReadElement_def key_end_notin)
next
  case (Some i)
  have "i < length b" using IndexByte_Some [OF Some] by simp
  then show ?thesis
    using Some by (simp add: ReadElement_def key_end_IndexByte [OF Some] add.commute split: option.split)
qed

lemma ReadElement_raw_element:
  assumes "ReadElement src = Inr (Some (e, r))" and "Element_Validate e = Inr ()"
  shows "raw_element e"
proof -
  obtain t b i len where src: "src = t # b" and i: "IndexByte b 0 = Some i"
    and len: "valueLength (drop (i + 1) b) t = Some len"
    and e: "e = take (nat (int i + 2 + sint len)) src"
    and pos: "0 \<le> int i + 2 + sint len" "int i + 2 + sint len \<le> int (length b) + 1"
    using assms(1)
    by (cases src) (auto simp: ReadElement_def [of "[]"] ReadElement_Cons go_bind_eq_Inr slice_at_Inr
        split: option.splits if_splits)
  have le: "int (length e) = int i + 2 + sint len" using e pos src by simp
  obtain b' where eb: "e = t # b'" "b = b' @ r"
    using ReadElement_split [OF assms(1)] src assms(2)
    by (cases e) (auto simp: Element_Validate_def)
  obtain j where j: "IndexByte b' 0 = Some j"
    and vv: "Value_Validate \<lparr>rv_type = t, rv_value = drop (j + 1) b'\<rparr> = Inr ()"
    using assms(2) eb by (auto simp: Element_Validate_def split: option.splits)
  have ij: "j = i" using IndexByte_append_left [OF j, of r] i eb by simp
  have "j < length b'" using IndexByte_Some [OF j] by simp
  then have dr: "drop (i + 1) b = drop (j + 1) b' @ r" using eb ij by simp
  obtain l where l: "valueLength (drop (j + 1) b') t = Some l"
    using vv by (auto simp: Value_Validate_def readValue_def split: option.splits)
  have "l = len" using valueLength_append [OF l, of r] len dr by simp
  then have "ReadElement e = Inr (Some (e, []))"
    using eb j l le ij by (simp add: ReadElement_Cons slice_at_def)
  with assms(2) show ?thesis by (simp add: raw_element_def)
qed

lemma ReadElement_append:
  assumes "raw_element e"
  shows "ReadElement (e @ r) = Inr (Some (e, r))"
proof -
  from assms have e: "ReadElement e = Inr (Some (e, []))" by (simp add: raw_element_def)
  then obtain t b i len where eb: "e = t # b" and i: "IndexByte b 0 = Some i"
    and len: "valueLength (drop (i + 1) b) t = Some len"
    and le: "int i + 2 + sint len = int (length b) + 1"
    by (cases e) (auto simp: ReadElement_def [of "[]"] ReadElement_Cons go_bind_eq_Inr slice_at_Inr
        split: option.splits if_splits)
  have "i < length b" using IndexByte_Some [OF i] by simp
  then have "drop (i + 1) (b @ r) = drop (i + 1) b @ r" by simp
  then have vl: "valueLength (drop (i + 1) (b @ r)) t = Some len"
    using valueLength_append [OF len, of r] by simp
  have n: "int i + 2 + sint len = int (length (t # b))" using le by simp
  show ?thesis
    unfolding eb append_Cons ReadElement_Cons IndexByte_append_left [OF i] option.case vl n
    using slice_at_append [of "t # b" r] by simp
qed

lemma rawElementsLoop_sound:
  "rawElementsLoop b = (els, None) \<Longrightarrow> b = concat els \<and> list_all raw_element els"
proof (induction b arbitrary: els rule: rawElementsLoop.induct)
  case (1 b)
  show ?case
  proof (cases "b = []")
    case True
    with "1.prems" show ?thesis by (simp add: rawElementsLoop.simps)
  next
    case False
    with "1.prems" obtain el rest els' where
      el: "ReadElement b = Inr (Some (el, rest))" "Element_Validate el = Inr ()"
        "rawElementsLoop rest = (els', None)" "els = el # els'"
      by (subst (asm) rawElementsLoop.simps) (auto split: sum.splits option.splits prod.splits)
    then show ?thesis
      using "1.IH" [OF False el(1) refl refl el(2,3)] ReadElement_raw_element ReadElement_split [OF el(1)]
      by simp
  qed
qed

lemma raw_element_nonempty: "raw_element e \<Longrightarrow> e \<noteq> []"
  by (auto simp: raw_element_def Element_Validate_def)

lemma rawElementsLoop_concat:
  "list_all raw_element els \<Longrightarrow> rawElementsLoop (concat els) = (els, None)"
proof (induction els)
  case Nil
  then show ?case by (simp add: rawElementsLoop.simps)
next
  case (Cons e els)
  then have "Element_Validate e = Inr ()" by (simp add: raw_element_def)
  with Cons show ?case
    by (subst rawElementsLoop.simps) (simp add: ReadElement_append raw_element_nonempty)
qed

lemma RawElements_frame:
  assumes "fits (frame b)"
  shows "RawElements (frame b) = rawElementsLoop b"
proof -
  have "sint (of_nat (length b + 5) :: i32) = int (length b) + 5"
    using assms sint_of_nat_32 [of "length b + 5"] by (simp add: fits_def del: of_nat_add)
  moreover have "frame b ! (length (frame b) - 1) = 0"
    by (simp add: frame_def nth_append)
  moreover have "take (length (frame b) - 1 - 4) (drop 4 (frame b)) = b"
    by (simp add: frame_def)
  ultimately show ?thesis
    using ReadLength_frame [OF assms, of "[]"] by (simp add: RawElements_def del: of_nat_add)
qed

lemma RawElements_enc: "wf_doc fs \<Longrightarrow> RawElements (enc_doc fs) = (map enc_elem fs, None)"
  using RawElements_frame [of "body fs"] rawElementsLoop_enc [of fs] fits_mono [of "enc_doc fs" "body fs"]
  by (simp add: wf_doc_def enc_doc_def)

lemma rawElementsLoop_prefix:
  "list_all raw_element (fst (rawElementsLoop b)) \<and> (\<exists>r. b = concat (fst (rawElementsLoop b)) @ r)"
proof (induction b rule: rawElementsLoop.induct)
  case (1 b)
  show ?case
  proof (cases "\<exists>el rest. ReadElement b = Inr (Some (el, rest)) \<and> Element_Validate el = Inr () \<and> b \<noteq> []")
    case True
    then obtain el rest where el: "ReadElement b = Inr (Some (el, rest))"
      "Element_Validate el = Inr ()" "b \<noteq> []" by blast
    have "list_all raw_element (fst (rawElementsLoop rest))
        \<and> (\<exists>r. rest = concat (fst (rawElementsLoop rest)) @ r)"
      using "1.IH" [OF el(3,1) refl refl el(2)] .
    moreover have "fst (rawElementsLoop b) = el # fst (rawElementsLoop rest)"
      by (subst rawElementsLoop.simps) (use el in \<open>simp split: prod.split\<close>)
    ultimately show ?thesis
      using ReadElement_split [OF el(1)] ReadElement_raw_element [OF el(1,2)] by auto
  next
    case False
    then have "fst (rawElementsLoop b) = []"
      by (subst rawElementsLoop.simps) (auto split: sum.split option.split)
    then show ?thesis by simp
  qed
qed

lemma RawElements_iff:
  "RawElements doc = (els, None) \<longleftrightarrow>
     doc = [] \<and> els = [] \<or> doc = frame (concat els) \<and> fits doc \<and> list_all raw_element els"
proof
  assume ok: "RawElements doc = (els, None)"
  show "doc = [] \<and> els = [] \<or> doc = frame (concat els) \<and> fits doc \<and> list_all raw_element els"
  proof (cases "doc = []")
    case True
    with ok show ?thesis by (simp add: RawElements_def)
  next
    case False
    from RawElements_header [OF ok this] show ?thesis
      by (metis rawElementsLoop_sound)
  qed
next
  assume "doc = [] \<and> els = [] \<or> doc = frame (concat els) \<and> fits doc \<and> list_all raw_element els"
  then show "RawElements doc = (els, None)"
    by (auto simp: RawElements_frame rawElementsLoop_concat RawElements_def [of "[]"])
qed

lemma CountRawElements_body: "range_elements (\<lambda>n _. Inr (Suc n)) n els = Inr (n + length els)"
  by (induction els arbitrary: n) auto

lemma CountRawElements_iff:
  "CountRawElements doc = Inr n \<longleftrightarrow> (\<exists>els. RawElements doc = (els, None) \<and> n = length els)"
  by (cases "RawElements doc")
     (auto simp: CountRawElements_def range_over_def CountRawElements_body split: option.splits fault.splits)

section \<open>Properties\<close>

text \<open>
  C2: \<open>RawElements\<close> accepts exactly the well-formed documents and cuts them into their elements:
  it ends without error on a nonempty buffer iff the buffer is the int32 length header, the
  concatenation of the yielded elements and the zero terminator, every yielded element being
  one the reader takes whole and \<open>Validate\<close> accepts. An empty buffer yields nothing.
\<close>

theorem RawElements_accepts_exactly:
  "RawElements doc = (els, None) \<longleftrightarrow>
     doc = [] \<and> els = [] \<or> doc = frame (concat els) \<and> fits doc \<and> list_all raw_element els"
  by (rule RawElements_iff)

text \<open>
  C22: however the iteration ends (error and panic included), what \<open>RawElements\<close> has yielded is a
  prefix of the document's element bytes, made of whole validated elements, and never reaches
  the terminator.
\<close>

theorem RawElements_yields_prefix:
  "list_all raw_element (fst (RawElements doc)) \<and>
   (fst (RawElements doc) = [] \<or>
    (\<exists>r. doc = take 4 doc @ concat (fst (RawElements doc)) @ r @ [0]))"
proof (cases "fst (RawElements doc) = []")
  case True
  then show ?thesis by simp
next
  case False
  let ?b = "take (length doc - 1 - 4) (drop 4 doc)"
  from False have l5: "5 \<le> length doc" and lst: "doc ! (length doc - 1) = 0"
    and loop: "RawElements doc = rawElementsLoop ?b"
    by (auto simp: RawElements_def split: option.splits if_splits)
  then have "doc = butlast doc @ [0]"
    using lst by (metis append_butlast_last_id last_conv_nth list.size(3) not_numeral_le_zero)
  moreover have "take 4 (butlast doc) = take 4 doc" "drop 4 (butlast doc) = ?b"
    using l5 by (simp_all add: butlast_conv_take drop_take)
  then have "butlast doc = take 4 doc @ ?b" by (metis append_take_drop_id)
  ultimately have "doc = take 4 doc @ ?b @ [0]" by simp
  then show ?thesis using rawElementsLoop_prefix [of ?b] loop by (metis append.assoc)
qed

text \<open>
  C20: on the encoding of a field tree \<open>RawElements\<close>, the driver's \<open>Raw.Elements\<close> and
  \<open>CountRawElements\<close> agree: the iterator yields one encoded element per field, in order and
  with no error, and the count is the number of fields.
\<close>

theorem RawElements_of_tree:
  assumes "wf_doc fs"
  shows "RawElements (enc_doc fs) = (map enc_elem fs, None)
    \<and> Raw_Elements (enc_doc fs) = Inr (map enc_elem fs)
    \<and> CountRawElements (enc_doc fs) = Inr (length fs)"
  using assms by (simp add: RawElements_enc Raw_Elements_enc CountRawElements_iff)

theorem RawElements_of_tree_witness:
  "RawElements (enc_doc [(str ''a'', Scalar TypeBoolean [1])])
     = ([[8, 97, 0, 1]], None)"
proof -
  have "wf_doc [(str ''a'', Scalar TypeBoolean [1])]"
    by (simp add: tree_eval)
  then have "RawElements (enc_doc [(str ''a'', Scalar TypeBoolean [1])])
     = (map enc_elem [(str ''a'', Scalar TypeBoolean [1])], None)"
    using RawElements_of_tree by blast
  then show ?thesis by (simp add: enc_elem_def str_def)
qed

text \<open>
  C21: \<open>RawLookup\<close> on an encoded tree is lookup in the tree: it converts the value at the first
  field whose key matches at each level, and reports a missing key, a scalar on the way or an
  empty pointer as the wrapped error of that case.
\<close>

theorem RawLookup_of_tree:
  assumes "wf_doc fs"
  shows "RawLookup conv (enc_doc fs) ks =
    (case tree_lookup fs ks of
       Inr v \<Rightarrow> wrap_err (Wrapped ''casting'') (conv \<lparr>rv_type = type_of v, rv_value = enc_val v\<rparr>)
     | Inl x \<Rightarrow> wrap_err (Wrapped ''extracting'') (Inl x))"
  using LookupErr_enc [OF assms, of ks]
  by (cases "tree_lookup fs ks") (auto simp: RawLookup_def raw_of_def wrap_err_def split: fault.splits)

theorem RawLookup_of_tree_witness:
  "RawLookup Inr (enc_doc [(str ''a'', Sub TypeArray [(str ''0'', Scalar TypeNull [])])]) [str ''a'', str ''0'']
     = Inr \<lparr>rv_type = TypeNull, rv_value = []\<rparr>"
proof -
  have "wf_doc [(str ''a'', Sub TypeArray [(str ''0'', Scalar TypeNull [])])]" by (simp add: tree_eval)
  from RawLookup_of_tree [OF this, of Inr "[str ''a'', str ''0'']"] show ?thesis by simp
qed

text \<open>
  \<open>RawElements\<close> can panic instead of yielding an error: the 12-byte document below is one
  binary element whose int32 length plus 5 wraps below zero, so the driver's reader slices
  with a negative bound. The same document shows it in \<open>CountRawElements\<close>.
\<close>

lemma RawElements_length_overflow_panics:
  "RawElements [12, 0, 0, 0, 5, 97, 0, 0xFF, 0xFF, 0xFF, 0x7F, 0] = ([], Some (Panic SliceBounds))
   \<and> CountRawElements [12, 0, 0, 0, 5, 97, 0, 0xFF, 0xFF, 0xFF, 0x7F, 0] = Inl (Panic SliceBounds)"
  by (simp add: CountRawElements_def range_over_def RawElements_def rawElementsLoop.simps reader_eval)

end
