(* ===== verification/Bson_Edit.thy ===== *)
theory Bson_Edit
  imports Bson_Raw
begin

text \<open>
  \<open>bsontools/edit.go\<close>: \<open>ReplaceInRaw\<close> and \<open>RemoveFromRaw\<close>, which edit one value inside the
  bytes of a document and repair the int32 length header of every enclosing document. The
  model returns the edited bytes; on an error return the code also hands back its buffer,
  which no caller may rely on and the model leaves out.
\<close>

section \<open>The code\<close>

record elementInfo =
  ei_pos :: nat
  ei_valueAt :: nat
  ei_valueSize :: int
  ei_keyBytes :: bytes
  ei_bsonType :: byte

text \<open>\<open>safecast.Convert[int32]\<close> of an int and \<open>safecast.Convert[uint32]\<close> of an int32.\<close>

definition Convert_int32 :: "int \<Rightarrow> i32 res" where
  "Convert_int32 n = (if - 2147483648 \<le> n \<and> n < 2147483648 then Inr (word_of_int n)
                      else Inl (Err RangeError))"

definition Convert_uint32 :: "i32 \<Rightarrow> i32 res" where
  "Convert_uint32 w = (if 0 \<le> sint w then Inr w else Inl (Err RangeError))"

text \<open>\<open>slices.Replace(s, i, j, v...)\<close>; \<open>slices.Delete(s, i, j)\<close> is its case \<open>v = []\<close>.\<close>

definition slices_Replace :: "bytes \<Rightarrow> int \<Rightarrow> int \<Rightarrow> bytes \<Rightarrow> bytes res" where
  "slices_Replace s i j v =
     (if 0 \<le> i \<and> i \<le> j \<and> j \<le> int (length s) then Inr (take (nat i) s @ v @ drop (nat j) s)
      else Inl (Panic SliceBounds))"

definition PutUint32 :: "bytes \<Rightarrow> i32 \<Rightarrow> bytes res" where
  "PutUint32 b v = (if length b < 4 then Inl (Panic IndexRange)
                    else Inr (le_bytes 4 (unat v) @ drop 4 b))"

definition removeElement :: "bytes \<Rightarrow> elementInfo \<Rightarrow> (bytes \<times> i32) res" where
  "removeElement raw info =
     go_bind (slices_Replace raw (int (ei_pos info)) (int (ei_valueAt info) + ei_valueSize info) []) (\<lambda>raw'.
     go_bind (Convert_int32 (- ei_valueSize info - int (length (ei_keyBytes info)) - 2)) (\<lambda>bytesAdded.
     Inr (raw', bytesAdded)))"

definition replaceElement :: "bytes \<Rightarrow> RawValue \<Rightarrow> elementInfo \<Rightarrow> (bytes \<times> i32) res" where
  "replaceElement raw replacement info =
     (if length raw \<le> ei_pos info then Inl (Panic IndexRange)
      else let raw = raw[ei_pos info := rv_type replacement] in
        go_bind (Convert_int32 (int (length (rv_value replacement)) - ei_valueSize info)) (\<lambda>bytesAdded.
        go_bind (slices_Replace raw (int (ei_valueAt info)) (int (ei_valueAt info) + ei_valueSize info)
                   (rv_value replacement)) (\<lambda>raw'.
        Inr (raw', bytesAdded))))"

text \<open>
  The loop of \<open>editMatchingElement\<close> up to the element whose key is \<open>pointer[0]\<close>. An element of
  zero bytes (a key of 2 GiB) would be read forever.
\<close>

function matchLoop :: "bytes \<Rightarrow> bytes list \<Rightarrow> i32 \<Rightarrow> nat \<Rightarrow> elementInfo option res" where
  "matchLoop raw pointer sizeFromHeader pos =
     (if int pos < sint sizeFromHeader - 1 then
        go_bind (slice_at raw (int pos)) (\<lambda>(_, src).
        go_bind (ReadElement src) (\<lambda>r. case r of
          None \<Rightarrow> Inl (Err (Errorf ''invalid BSON element at offset''))
        | Some (el, _) \<Rightarrow>
            let keyBytes = KeyBytes el; valueAt = pos + 1 + length keyBytes + 1 in
            case pointer of
              [] \<Rightarrow> Inl (Panic IndexRange)
            | key # _ \<Rightarrow>
                if keyBytes \<noteq> key then
                  (if el = [] then Inl Diverge
                   else matchLoop raw pointer sizeFromHeader (pos + length el))
                else
                  (case el of
                     [] \<Rightarrow> Inl (Panic IndexRange)
                   | t # _ \<Rightarrow> Inr (Some
                       \<lparr>ei_pos = pos, ei_valueAt = valueAt,
                        ei_valueSize = int (length el) - int (length keyBytes) - 2,
                        ei_keyBytes = keyBytes, ei_bsonType = t\<rparr>))))
      else Inr None)"
  by pat_completeness auto
termination
  by (relation "measure (\<lambda>(raw, pointer, size, pos). length raw - pos)")
     (auto simp: slice_at_Inr simp flip: length_greater_0_conv
       dest!: ReadElement_split arg_cong [of _ _ length])

declare matchLoop.simps [simp del]

text \<open>
  The three mutually recursive functions; the replacement \<open>None\<close> is the nil pointer that means
  removal. The boolean is the \<open>found\<close> result.
\<close>

function replaceOrRemoveInRaw :: "bytes \<Rightarrow> RawValue option \<Rightarrow> bytes list \<Rightarrow> (bytes \<times> bool) res"
  and editMatchingElement :: "bytes \<Rightarrow> RawValue option \<Rightarrow> bytes list \<Rightarrow> i32 \<Rightarrow> (bytes \<times> bool) res"
  and recurseIntoSubDoc ::
    "bytes \<Rightarrow> RawValue option \<Rightarrow> bytes list \<Rightarrow> elementInfo \<Rightarrow> (bytes \<times> i32) option res" where
  "replaceOrRemoveInRaw raw replacement pointer =
     (case ReadLength raw of
        None \<Rightarrow> Inl (Err (Errorf ''too few bytes to read BSON length''))
      | Some (sizeFromHeader, _) \<Rightarrow> editMatchingElement raw replacement pointer sizeFromHeader)"
| "editMatchingElement raw replacement pointer sizeFromHeader =
     go_bind (matchLoop raw pointer sizeFromHeader 4) (\<lambda>r. case r of
       None \<Rightarrow> Inr (raw, False)
     | Some info \<Rightarrow>
         go_bind
           (if length pointer = 1 then
              (case replacement of
                 None \<Rightarrow> go_bind (removeElement raw info) (\<lambda>x. Inr (Some x))
               | Some v \<Rightarrow> go_bind (replaceElement raw v info) (\<lambda>x. Inr (Some x)))
            else recurseIntoSubDoc raw replacement pointer info) (\<lambda>edited.
         case edited of
           None \<Rightarrow> Inr (raw, False)
         | Some (raw', bytesAdded) \<Rightarrow>
             go_bind (Convert_uint32 (sizeFromHeader + bytesAdded)) (\<lambda>newSize.
             go_bind (PutUint32 raw' newSize) (\<lambda>raw2. Inr (raw2, True)))))"
| "recurseIntoSubDoc raw replacement pointer info =
     (if ei_bsonType info \<noteq> TypeArray \<and> ei_bsonType info \<noteq> TypeEmbeddedDocument then
        Inl (Err (PointerTooDeep pointer (ei_bsonType info) (take 1 pointer)))
      else
        go_bind (slice_at raw (int (ei_valueAt info))) (\<lambda>(before, curDoc).
        case ReadLength curDoc of
          None \<Rightarrow> Inl (Err (Errorf ''old embedded doc too short to read length''))
        | Some (oldDocSize, _) \<Rightarrow>
            (case pointer of
               [] \<Rightarrow> Inl (Panic SliceBounds)
             | p # ps \<Rightarrow>
                 go_bind
                   (wrap_err (\<lambda>err. case as_too_deep err of
                        Some (given, t, el) \<Rightarrow> PointerTooDeep (p # given) t (p # el)
                      | None \<Rightarrow> Wrapped ''replace'' err)
                     (replaceOrRemoveInRaw curDoc replacement ps)) (\<lambda>(curDoc', found).
                 if \<not> found then Inr None
                 else case ReadLength curDoc' of
                   None \<Rightarrow> Inl (Err (Errorf ''new embedded doc too short to read length''))
                 | Some (newDocSize, _) \<Rightarrow>
                     Inr (Some (before @ curDoc', newDocSize - oldDocSize))))))"
  by pat_completeness auto
termination
  by (relation "measures [\<lambda>x. case x of Inl (_, _, p) \<Rightarrow> length p
        | Inr (Inl (_, _, p, _)) \<Rightarrow> length p | Inr (Inr (_, _, p, _)) \<Rightarrow> length p,
        \<lambda>x. case x of Inl _ \<Rightarrow> 2 | Inr (Inl _) \<Rightarrow> 1 | Inr (Inr _) \<Rightarrow> 0]") auto

declare replaceOrRemoveInRaw.simps [simp del] editMatchingElement.simps [simp del]
  recurseIntoSubDoc.simps [simp del]

definition ReplaceInRaw :: "bytes \<Rightarrow> RawValue \<Rightarrow> bytes list \<Rightarrow> (bytes \<times> bool) res" where
  "ReplaceInRaw raw newValue pointer = replaceOrRemoveInRaw raw (Some newValue) pointer"

definition RemoveFromRaw :: "bytes \<Rightarrow> bytes list \<Rightarrow> (bytes \<times> bool) res" where
  "RemoveFromRaw raw pointer = replaceOrRemoveInRaw raw None pointer"

section \<open>Editing a tree\<close>

fun split_field :: "bytes \<Rightarrow> (bytes \<times> bson) list
    \<Rightarrow> ((bytes \<times> bson) list \<times> bson \<times> (bytes \<times> bson) list) option" where
  "split_field k [] = None"
| "split_field k (f # fs) =
     (if fst f = k then Some ([], snd f, fs)
      else map_option (\<lambda>(pre, v, post). (f # pre, v, post)) (split_field k fs))"

text \<open>\<open>Inr None\<close> is "not found"; the only error of a well-formed tree is a scalar on the path.\<close>

function tree_edit :: "bson option \<Rightarrow> (bytes \<times> bson) list \<Rightarrow> bytes list
    \<Rightarrow> (bytes \<times> bson) list option res" where
  "tree_edit r fs [] = (if fs = [] then Inr None else Inl (Panic IndexRange))"
| "tree_edit r fs (k # ks) =
     (case split_field k fs of
        None \<Rightarrow> Inr None
      | Some (pre, v, post) \<Rightarrow>
          if ks = [] then
            Inr (Some (pre @ (case r of None \<Rightarrow> [] | Some nv \<Rightarrow> [(k, nv)]) @ post))
          else (case v of
              Scalar t p \<Rightarrow> Inl (Err (PointerTooDeep (k # ks) t [k]))
            | Sub t sub \<Rightarrow>
                go_bind
                  (wrap_err (\<lambda>err. case as_too_deep err of
                        Some (given, t, el) \<Rightarrow> PointerTooDeep (k # given) t (k # el)
                      | None \<Rightarrow> Wrapped ''replace'' err)
                    (tree_edit r sub ks))
                  (\<lambda>e. Inr (map_option (\<lambda>sub'. pre @ (k, Sub t sub') # post) e))))"
  by pat_completeness auto
termination by (relation "measure (\<lambda>(r, fs, ks). length ks)") auto

section \<open>The operations on encoded documents\<close>

lemma split_field_Some: "split_field k fs = Some (pre, v, post) \<Longrightarrow> fs = pre @ (k, v) # post"
  by (induction fs arbitrary: pre) (auto split: if_splits)

definition info_of :: "nat \<Rightarrow> bytes \<Rightarrow> bson \<Rightarrow> elementInfo" where
  "info_of pos k v = \<lparr>ei_pos = pos, ei_valueAt = pos + length k + 2,
     ei_valueSize = int (length (enc_val v)), ei_keyBytes = k, ei_bsonType = type_of v\<rparr>"

lemma matchLoop_enc:
  assumes "list_all wf_field fs" and "pos + length (body fs) + 1 < 2147483648" and "length before = pos"
  shows "matchLoop (before @ body fs @ rest) (k # ks) (of_nat (pos + length (body fs) + 1)) pos =
    Inr (case split_field k fs of
           None \<Rightarrow> None
         | Some (pre, v, post) \<Rightarrow> Some (info_of (pos + length (body pre)) k v))"
  using assms
proof (induction fs arbitrary: before pos)
  case Nil
  have "sint (of_nat (pos + 1) :: i32) = int (pos + 1)"
    using Nil.prems(2) by (intro sint_of_nat_32) simp
  then show ?case by (simp add: matchLoop.simps del: of_nat_add)
next
  case (Cons f fs)
  obtain k' v where f: "f = (k', v)" by (cases f)
  from Cons.prems f have wf: "wf_field (k', v)" "fits (enc_elem (k', v))" by (auto simp: fits_def)
  define sz :: i32 where "sz = of_nat (pos + length (body (f # fs)) + 1)"
  define raw where "raw = before @ body (f # fs) @ rest"
  define src where "src = body (f # fs) @ rest"
  have "sint sz = int (pos + length (body (f # fs)) + 1)"
    unfolding sz_def by (rule sint_of_nat_32 [OF Cons.prems(2)])
  then have lt: "int pos < sint sz - 1" using f by simp
  have sl: "slice_at raw (int pos) = Inr (before, src)"
    using slice_at_append [of before src] Cons.prems(3) by (simp add: raw_def src_def)
  have re: "ReadElement src = Inr (Some (enc_elem (k', v), body fs @ rest))"
    using ReadElement_enc [OF wf] by (simp add: f src_def)
  have kb: "KeyBytes (enc_elem (k', v)) = k'" using KeyBytes_enc(2) [OF wf(1)] by simp
  have "matchLoop ((before @ enc_elem f) @ body fs @ rest) (k # ks)
      (of_nat ((pos + length (enc_elem f)) + length (body fs) + 1)) (pos + length (enc_elem f)) =
    Inr (case split_field k fs of None \<Rightarrow> None
         | Some (pre, v, post) \<Rightarrow> Some (info_of (pos + length (enc_elem f) + length (body pre)) k v))"
    by (rule Cons.IH) (use Cons.prems in auto)
  then have IH: "matchLoop raw (k # ks) sz (pos + length (enc_elem f)) =
    Inr (case split_field k fs of None \<Rightarrow> None
         | Some (pre, v, post) \<Rightarrow> Some (info_of (pos + length (enc_elem f) + length (body pre)) k v))"
    by (simp add: raw_def sz_def add.assoc)
  have "matchLoop raw (k # ks) sz pos =
    (if k' = k then Inr (Some (info_of pos k v)) else matchLoop raw (k # ks) sz (pos + length (enc_elem f)))"
    by (subst matchLoop.simps) (simp add: lt sl re kb f info_of_def, simp add: enc_elem_def)
  then show ?case
    unfolding raw_def [symmetric] sz_def [symmetric] IH using f by (auto simp: add.assoc split: option.split)
qed

lemma matchLoop_no_pointer:
  assumes "wf_doc fs"
  shows "matchLoop (enc_doc fs @ rest) [] (of_nat (length (enc_doc fs))) 4
    = (if fs = [] then Inr None else Inl (Panic IndexRange))"
proof (cases fs)
  case Nil
  then show ?thesis by (simp add: matchLoop.simps enc_doc_def)
next
  case (Cons f fs')
  then have f: "wf_field f" "fits (enc_elem f)" using wf_doc_field [OF assms, of f] by auto
  have "sint (of_nat (length (enc_doc fs)) :: i32) = int (length (enc_doc fs))"
    using assms by (intro sint_of_nat_32) (simp add: wf_doc_def fits_def)
  moreover have "int 4 < int (length (enc_doc fs)) - 1"
    using Cons by (cases f) (simp add: enc_doc_def)
  moreover have "slice_at (enc_doc fs @ rest) (int 4)
      = Inr (le_bytes 4 (length (body fs) + 5), enc_elem f @ body fs' @ 0 # rest)"
    using slice_at_append [of "le_bytes 4 (length (body fs) + 5)" "body fs @ 0 # rest"] Cons
    by (simp add: enc_doc_def frame_def)
  ultimately show ?thesis
    using Cons by (subst matchLoop.simps) (simp add: ReadElement_enc [OF f])
qed

lemma slices_Replace_middle:
  "slices_Replace (a @ m @ c) (int (length a)) (int (length a) + int (length m)) v = Inr (a @ v @ c)"
  by (simp add: slices_Replace_def nat_add_distrib)

lemma PutUint32_header:
  assumes "length h = 4" and "fits (frame b)"
  shows "PutUint32 (h @ b @ 0 # rest) (of_nat (length b + 5)) = Inr (frame b @ rest)"
proof -
  have "unat (of_nat (length b + 5) :: i32) = length b + 5"
    using assms(2) by (intro unat_of_nat_32) (simp add: fits_def)
  then show ?thesis using assms by (simp add: PutUint32_def frame_def del: of_nat_add)
qed

lemma Convert_int32_ok:
  "a < 2147483648 \<Longrightarrow> b < 2147483648 \<Longrightarrow> Convert_int32 (int a - int b) = Inr (word_of_int (int a - int b))"
  by (simp add: Convert_int32_def)

lemma Convert_uint32_ok: "n < 2147483648 \<Longrightarrow> Convert_uint32 (of_nat n) = Inr (of_nat n)"
  by (simp add: Convert_uint32_def sint_of_nat_32)

text \<open>
  The state of an edit at one level: four header bytes, the elements and what follows. Each of
  the three edits turns the elements of \<open>fs\<close> into those of \<open>fs'\<close> and reports the difference.
\<close>

lemma removeElement_enc:
  assumes "length h = 4" and "fits (body (pre @ (k, v) # post))"
  shows "removeElement (h @ body (pre @ (k, v) # post) @ rest) (info_of (4 + length (body pre)) k v)
    = Inr (h @ body (pre @ post) @ rest,
           word_of_int (int (length (body (pre @ post))) - int (length (body (pre @ (k, v) # post)))))"
proof -
  have "slices_Replace ((h @ body pre) @ enc_elem (k, v) @ body post @ rest)
     (int (length (h @ body pre))) (int (length (h @ body pre)) + int (length (enc_elem (k, v)))) []
    = Inr ((h @ body pre) @ [] @ body post @ rest)"
    by (rule slices_Replace_middle)
  then have "slices_Replace (h @ body (pre @ (k, v) # post) @ rest) (int (4 + length (body pre)))
      (int (4 + length (body pre) + length k + 2) + int (length (enc_val v))) []
    = Inr (h @ body (pre @ post) @ rest)"
    by (simp add: assms(1) algebra_simps)
  moreover have "Convert_int32 (- int (length (enc_val v)) - int (length k) - 2)
    = Inr (word_of_int (int (length (body (pre @ post))) - int (length (body (pre @ (k, v) # post)))))"
  proof -
    have "- int (length (enc_val v)) - int (length k) - 2
        = int (length (body (pre @ post))) - int (length (body (pre @ (k, v) # post)))" by simp
    then show ?thesis using assms(2) by (simp only:) (rule Convert_int32_ok, auto simp: fits_def)
  qed
  ultimately show ?thesis by (simp add: removeElement_def info_of_def del: of_nat_add)
qed

lemma replaceElement_enc:
  assumes "length h = 4" and "fits (body (pre @ (k, v) # post))" and "fits (body (pre @ (k, nv) # post))"
  shows "replaceElement (h @ body (pre @ (k, v) # post) @ rest) (raw_of nv) (info_of (4 + length (body pre)) k v)
    = Inr (h @ body (pre @ (k, nv) # post) @ rest,
           word_of_int (int (length (body (pre @ (k, nv) # post)))
                      - int (length (body (pre @ (k, v) # post)))))"
proof -
  let ?a = "h @ body pre @ type_of nv # k @ [0]"
  have upd: "(h @ body (pre @ (k, v) # post) @ rest)[4 + length (body pre) := type_of nv]
      = ?a @ enc_val v @ body post @ rest"
    by (simp add: list_update_append assms(1) enc_elem_def)
  have "slices_Replace (?a @ enc_val v @ body post @ rest) (int (length ?a))
      (int (length ?a) + int (length (enc_val v))) (enc_val nv) = Inr (?a @ enc_val nv @ body post @ rest)"
    by (rule slices_Replace_middle)
  moreover have "int (length ?a) = int (4 + length (body pre) + length k + 2)" using assms(1) by simp
  moreover have "?a @ enc_val nv @ body post @ rest = h @ body (pre @ (k, nv) # post) @ rest"
    by (simp add: enc_elem_def)
  moreover have "Convert_int32 (int (length (enc_val nv)) - int (length (enc_val v)))
    = Inr (word_of_int (int (length (body (pre @ (k, nv) # post)))
                      - int (length (body (pre @ (k, v) # post)))))"
    using Convert_int32_ok [of "length (body (pre @ (k, nv) # post))" "length (body (pre @ (k, v) # post))"]
      assms(2,3) by (simp add: fits_def)
  moreover have "\<not> length (h @ body (pre @ (k, v) # post) @ rest) \<le> 4 + length (body pre)"
    using assms(1) by simp
  ultimately show ?thesis
    unfolding replaceElement_def Let_def info_of_def raw_of_def elementInfo.simps RawValue.simps upd
    by (simp del: of_nat_add length_append)
qed

text \<open>The header after an edit that turned \<open>fs\<close> into \<open>fs'\<close>.\<close>

lemma new_header:
  assumes "fits (enc_doc fs')"
  shows "Convert_uint32 (of_nat (length (enc_doc fs))
           + word_of_int (int (length (body fs')) - int (length (body fs))))
         = Inr (of_nat (length (body fs') + 5))"
proof -
  have "(of_nat (length (enc_doc fs)) :: i32) + word_of_int (int (length (body fs')) - int (length (body fs)))
      = of_nat (length (body fs') + 5)"
    by (simp add: enc_doc_def flip: wi_hom_sub)
  moreover have "length (body fs') + 5 < 2147483648"
    using assms by (simp add: enc_doc_def fits_def)
  ultimately show ?thesis using Convert_uint32_ok by (simp only:)
qed

lemma fits_part: "fits (enc_doc fs) \<Longrightarrow> fits (body fs)"
  by (simp add: enc_doc_def fits_def)

lemma fits_new_sub: "fits (enc_doc (pre @ (k, Sub t sub) # post)) \<Longrightarrow> fits (enc_doc sub)"
  by (simp add: enc_doc_def fits_def)

lemma map_sum_eq_Inr: "map_sum f g x = Inr y \<longleftrightarrow> (\<exists>z. x = Inr z \<and> y = g z)"
  by (cases x) auto

text \<open>
  The end of \<open>editMatchingElement\<close>, after one of the three edits: write the new length into
  the header.
\<close>

definition conclude :: "bytes \<Rightarrow> i32 \<Rightarrow> (bytes \<times> i32) option res \<Rightarrow> (bytes \<times> bool) res" where
  "conclude raw hdr m = go_bind m (\<lambda>edited. case edited of
       None \<Rightarrow> Inr (raw, False)
     | Some (raw', bytesAdded) \<Rightarrow>
         go_bind (Convert_uint32 (hdr + bytesAdded)) (\<lambda>newSize.
         go_bind (PutUint32 raw' newSize) (\<lambda>raw2. Inr (raw2, True))))"

lemma conclude_simps [simp]:
  "conclude raw hdr (Inl x) = Inl x"
  "conclude raw hdr (Inr None) = Inr (raw, False)"
  by (simp_all add: conclude_def)

lemma conclude_enc:
  assumes "fits (enc_doc fs')"
  shows "conclude raw (of_nat (length (enc_doc fs)))
           (Inr (Some (le_bytes 4 n @ body fs' @ 0 # rest,
                       word_of_int (int (length (body fs')) - int (length (body fs))))))
       = Inr (enc_doc fs' @ rest, True)"
  using assms PutUint32_header [of "le_bytes 4 n" "body fs'" rest] new_header [OF assms]
  by (simp add: conclude_def enc_doc_def del: of_nat_add)

lemma enc_doc_append: "enc_doc fs @ rest = le_bytes 4 (length (body fs) + 5) @ body fs @ 0 # rest"
  by (simp add: enc_doc_def frame_def)

text \<open>Reading the header and searching for the key, then the edit.\<close>

lemma replaceOrRemove_scan:
  assumes "wf_doc fs"
  shows "replaceOrRemoveInRaw (enc_doc fs @ rest) R (k # ks) = (case split_field k fs of
     None \<Rightarrow> Inr (enc_doc fs @ rest, False)
   | Some (pre, v, post) \<Rightarrow>
       let raw = enc_doc fs @ rest; info = info_of (4 + length (body pre)) k v in
       conclude raw (of_nat (length (enc_doc fs)))
         (if ks = [] then
            (case R of None \<Rightarrow> go_bind (removeElement raw info) (\<lambda>x. Inr (Some x))
             | Some v' \<Rightarrow> go_bind (replaceElement raw v' info) (\<lambda>x. Inr (Some x)))
          else recurseIntoSubDoc raw R (k # ks) info))"
proof -
  from assms have fs: "list_all wf_field fs" "fits (enc_doc fs)" by (auto simp: wf_doc_def)
  note hdr = ReadLength_enc_doc [OF fs(2), of rest]
  have n: "4 + length (body fs) + 1 = length (enc_doc fs)" by (simp add: enc_doc_def)
  have "matchLoop (enc_doc fs @ rest) (k # ks) (of_nat (length (enc_doc fs))) 4 =
    Inr (case split_field k fs of None \<Rightarrow> None
         | Some (pre, v, post) \<Rightarrow> Some (info_of (4 + length (body pre)) k v))"
    using matchLoop_enc [OF fs(1), of 4 "le_bytes 4 (length (body fs) + 5)" "0 # rest" k ks] fs(2)
    unfolding enc_doc_append n by (simp add: fits_def)
  with hdr show ?thesis
    by (auto simp: replaceOrRemoveInRaw.simps editMatchingElement.simps conclude_def Let_def
        split: option.split)
qed

text \<open>At the end of the pointer: remove or replace the element.\<close>

lemma edit_leaf:
  assumes fs: "wf_doc fs" and s: "split_field k fs = Some (pre, v, post)"
    and fit: "fits (enc_doc (pre @ (case r of None \<Rightarrow> [] | Some nv \<Rightarrow> [(k, nv)]) @ post))"
  shows "replaceOrRemoveInRaw (enc_doc fs @ rest) (map_option raw_of r) [k] =
    Inr (enc_doc (pre @ (case r of None \<Rightarrow> [] | Some nv \<Rightarrow> [(k, nv)]) @ post) @ rest, True)"
proof -
  let ?h = "le_bytes 4 (length (body fs) + 5)"
  have fs_eq: "fs = pre @ (k, v) # post" by (rule split_field_Some [OF s])
  have b: "enc_doc fs @ rest = ?h @ body (pre @ (k, v) # post) @ 0 # rest"
    unfolding enc_doc_append by (simp add: fs_eq)
  have part: "fits (body (pre @ (k, v) # post))" using fits_part [of fs] fs fs_eq by (simp add: wf_doc_def)
  show ?thesis
  proof (cases r)
    case None
    then have fit': "fits (enc_doc (pre @ post))" using fit by simp
    have "removeElement (enc_doc fs @ rest) (info_of (4 + length (body pre)) k v)
      = Inr (?h @ body (pre @ post) @ 0 # rest,
             word_of_int (int (length (body (pre @ post))) - int (length (body fs))))"
      using removeElement_enc [OF _ part, of ?h "0 # rest"] unfolding b by (simp add: fs_eq)
    then show ?thesis
      using None conclude_enc [OF fit'] by (simp add: replaceOrRemove_scan [OF fs] s)
  next
    case (Some nv)
    then have fit': "fits (enc_doc (pre @ (k, nv) # post))" using fit by simp
    have "replaceElement (enc_doc fs @ rest) (raw_of nv) (info_of (4 + length (body pre)) k v)
      = Inr (?h @ body (pre @ (k, nv) # post) @ 0 # rest,
             word_of_int (int (length (body (pre @ (k, nv) # post))) - int (length (body fs))))"
      using replaceElement_enc [OF _ part fits_part [OF fit'], of ?h "0 # rest"]
      unfolding b by (simp add: fs_eq)
    then show ?thesis
      using Some conclude_enc [OF fit'] by (simp add: replaceOrRemove_scan [OF fs] s)
  qed
qed

text \<open>Before the end of the pointer: edit the subdocument and put it back.\<close>

lemma recurseIntoSubDoc_enc:
  assumes fs: "wf_doc fs" and s: "split_field k fs = Some (pre, Sub t sub, post)"
  shows "recurseIntoSubDoc (enc_doc fs @ rest) R (k # ks) (info_of (4 + length (body pre)) k (Sub t sub)) =
    go_bind (wrap_err (\<lambda>err. case as_too_deep err of
                 Some (given, t, el) \<Rightarrow> PointerTooDeep (k # given) t (k # el)
               | None \<Rightarrow> Wrapped ''replace'' err)
              (replaceOrRemoveInRaw (enc_doc sub @ body post @ 0 # rest) R ks)) (\<lambda>(curDoc', found).
      if \<not> found then Inr None
      else case ReadLength curDoc' of
        None \<Rightarrow> Inl (Err (Errorf ''new embedded doc too short to read length''))
      | Some (newDocSize, _) \<Rightarrow>
          Inr (Some ((le_bytes 4 (length (body fs) + 5) @ body pre @ t # k @ [0]) @ curDoc',
                     newDocSize - of_nat (length (enc_doc sub)))))"
proof -
  have fs_eq: "fs = pre @ (k, Sub t sub) # post" by (rule split_field_Some [OF s])
  have t: "t = TypeEmbeddedDocument \<or> t = TypeArray" and "wf_doc sub"
    using fs wf_doc_sub [OF fs, of k t sub] by (auto simp: fs_eq wf_doc_def wf_field_def is_sub_def)
  let ?before = "le_bytes 4 (length (body fs) + 5) @ body pre @ t # k @ [0]"
  let ?after = "body post @ 0 # rest"
  have "int (length ?before) = int (4 + length (body pre) + length k + 2)" by simp
  moreover have "enc_doc fs @ rest = ?before @ enc_doc sub @ ?after"
    unfolding enc_doc_append by (simp add: fs_eq enc_elem_Cons enc_doc_append)
  ultimately have sl: "slice_at (enc_doc fs @ rest) (int (4 + length (body pre) + length k + 2))
      = Inr (?before, enc_doc sub @ ?after)"
    using slice_at_append [of ?before "enc_doc sub @ ?after"] by (simp del: length_append)
  have "ReadLength (enc_doc sub @ ?after) = Some (of_nat (length (enc_doc sub)), body sub @ 0 # ?after)"
    using \<open>wf_doc sub\<close> by (intro ReadLength_enc_doc) (simp add: wf_doc_def)
  then show ?thesis using t sl by (auto simp: recurseIntoSubDoc.simps info_of_def)
qed

lemma edit_sub:
  assumes fs: "wf_doc fs" and s: "split_field k fs = Some (pre, Sub t sub, post)" and ks: "ks \<noteq> []"
    and sub: "replaceOrRemoveInRaw (enc_doc sub @ body post @ 0 # rest) R ks =
       Inr (enc_doc sub' @ body post @ 0 # rest, True)"
    and fit: "fits (enc_doc (pre @ (k, Sub t sub') # post))"
  shows "replaceOrRemoveInRaw (enc_doc fs @ rest) R (k # ks) =
    Inr (enc_doc (pre @ (k, Sub t sub') # post) @ rest, True)"
proof -
  let ?fs' = "pre @ (k, Sub t sub') # post"
  have new: "ReadLength (enc_doc sub' @ body post @ 0 # rest)
      = Some (of_nat (length (enc_doc sub')), body sub' @ 0 # body post @ 0 # rest)"
    by (rule ReadLength_enc_doc [OF fits_new_sub [OF fit]])
  have raw': "(le_bytes 4 (length (body fs) + 5) @ body pre @ t # k @ [0]) @ enc_doc sub' @ body post @ 0 # rest
      = le_bytes 4 (length (body fs) + 5) @ body ?fs' @ 0 # rest"
    by (simp add: enc_elem_Cons)
  have added: "(of_nat (length (enc_doc sub')) :: i32) - of_nat (length (enc_doc sub))
      = word_of_int (int (length (body ?fs')) - int (length (body fs)))"
    by (simp add: split_field_Some [OF s] enc_doc_def)
  show ?thesis
    using ks conclude_enc [OF fit]
    by (simp add: replaceOrRemove_scan [OF fs] s recurseIntoSubDoc_enc [OF fs s] sub new added raw'
        del: append_assoc append_Cons)
qed

lemma replaceOrRemove_enc:
  assumes "wf_doc fs" and "\<And>fs'. tree_edit r fs ks = Inr (Some fs') \<Longrightarrow> fits (enc_doc fs')"
  shows "replaceOrRemoveInRaw (enc_doc fs @ rest) (map_option raw_of r) ks =
    map_sum (\<lambda>x. x) (\<lambda>e. case e of None \<Rightarrow> (enc_doc fs @ rest, False) | Some fs' \<Rightarrow> (enc_doc fs' @ rest, True))
      (tree_edit r fs ks)"
  using assms
proof (induction r fs ks arbitrary: rest rule: tree_edit.induct)
  case (1 r fs)
  then have "fits (enc_doc fs)" by (simp add: wf_doc_def)
  from ReadLength_enc_doc [OF this, of rest] matchLoop_no_pointer [OF "1.prems"(1), of rest]
  show ?case
    by (simp add: replaceOrRemoveInRaw.simps editMatchingElement.simps)
next
  case (2 r fs k ks)
  note scan = replaceOrRemove_scan [OF "2.prems"(1)]
  consider "split_field k fs = None"
    | (leaf) pre v post where "split_field k fs = Some (pre, v, post)" "ks = []"
    | (scalar) pre t p post where "split_field k fs = Some (pre, Scalar t p, post)" "ks \<noteq> []"
    | (sub) pre t sub post where "split_field k fs = Some (pre, Sub t sub, post)" "ks \<noteq> []"
    by (metis bson.exhaust option.exhaust prod_cases3)
  then show ?case
  proof cases
    case 1
    then show ?thesis by (simp add: scan)
  next
    case leaf
    then show ?thesis using edit_leaf [OF "2.prems"(1) leaf(1)] "2.prems"(2) by simp
  next
    case scalar
    have "wf_val (Scalar t p)"
      using "2.prems"(1) split_field_Some [OF scalar(1)] by (simp add: wf_doc_def wf_field_def)
    then have "\<not> is_sub t" by (simp add: wf_scalar_def)
    then show ?thesis
      using scalar by (simp add: scan recurseIntoSubDoc.simps info_of_def is_sub_def)
  next
    case sub
    have wf: "wf_doc sub"
      by (rule wf_doc_sub [OF "2.prems"(1), of k t]) (simp add: split_field_Some [OF sub(1)])
    have IH: "replaceOrRemoveInRaw (enc_doc sub @ body post @ 0 # rest) (map_option raw_of r) ks =
      map_sum (\<lambda>x. x) (\<lambda>e. case e of None \<Rightarrow> (enc_doc sub @ body post @ 0 # rest, False)
          | Some fs' \<Rightarrow> (enc_doc fs' @ body post @ 0 # rest, True)) (tree_edit r sub ks)"
    proof (rule "2.IH" [OF sub(1) refl refl sub(2) refl wf])
      fix sub' assume "tree_edit r sub ks = Inr (Some sub')"
      then have "tree_edit r fs (k # ks) = Inr (Some (pre @ (k, Sub t sub') # post))"
        using sub by simp
      then show "fits (enc_doc sub')" by (rule fits_new_sub [OF "2.prems"(2)])
    qed
    show ?thesis
    proof (cases "tree_edit r sub ks")
      case (Inl x)
      then show ?thesis using sub
        by (cases x) (auto simp: scan recurseIntoSubDoc_enc [OF "2.prems"(1) sub(1)] IH)
    next
      case (Inr e)
      show ?thesis
      proof (cases e)
        case None
        then show ?thesis using sub Inr
          by (simp add: scan recurseIntoSubDoc_enc [OF "2.prems"(1) sub(1)] IH)
      next
        case (Some sub')
        with Inr sub have t: "tree_edit r fs (k # ks) = Inr (Some (pre @ (k, Sub t sub') # post))"
          by simp
        show ?thesis
          unfolding t using edit_sub [OF "2.prems"(1) sub _ "2.prems"(2) [OF t]] IH Inr Some by simp
      qed
    qed
  qed
qed

section \<open>Facts about tree edits\<close>

lemma split_field_map_of:
  "map_of fs k = Some v \<longleftrightarrow> (\<exists>pre post. split_field k fs = Some (pre, v, post))"
  by (induction fs) auto

lemma split_field_pre: "split_field k fs = Some (pre, v, post) \<Longrightarrow> map_of pre k = None"
  by (induction fs arbitrary: pre) (auto split: if_splits)

lemma length_enc_doc_middle:
  "length (enc_doc (pre @ (k, v) # post)) = length (enc_doc (pre @ post)) + length k + length (enc_val v) + 2"
  by (simp add: enc_doc_def)

lemma tree_replace_found:
  assumes "tree_lookup fs ks = Inr v" and "wf_val nv" and "list_all wf_field fs"
  shows "\<exists>fs'. tree_edit (Some nv) fs ks = Inr (Some fs') \<and> tree_lookup fs' ks = Inr nv
    \<and> list_all wf_field fs'
    \<and> length (enc_doc fs') + length (enc_val v) = length (enc_doc fs) + length (enc_val nv)"
  using assms(1,3)
proof (induction fs ks rule: tree_lookup.induct)
  case (1 fs)
  then show ?case by simp
next
  case (2 fs k ks)
  then obtain w where w: "map_of fs k = Some w" by (auto split: option.splits)
  then obtain pre post where s: "split_field k fs = Some (pre, w, post)"
    by (auto simp: split_field_map_of)
  have fs: "fs = pre @ (k, w) # post" and np: "map_of pre k = None"
    using s by (auto dest: split_field_Some split_field_pre)
  show ?case
  proof (cases "ks = []")
    case True
    then have "w = v" using "2.prems"(1) w by simp
    then show ?thesis
      using True s np "2.prems"(2) assms(2)
      by (simp add: fs length_enc_doc_middle map_add_def wf_field_def)
  next
    case False
    with "2.prems"(1) w obtain t sub where sub: "w = Sub t sub" "tree_lookup sub ks = Inr v"
      by (auto split: bson.splits)
    have "list_all wf_field sub" using "2.prems"(2) sub by (simp add: fs wf_field_def)
    then obtain sub' where sub': "tree_edit (Some nv) sub ks = Inr (Some sub')"
      "tree_lookup sub' ks = Inr nv" "list_all wf_field sub'"
      "length (enc_doc sub') + length (enc_val v) = length (enc_doc sub) + length (enc_val nv)"
      using "2.IH" [OF w False sub] by blast
    then show ?thesis
      using False s np sub "2.prems"(2)
      by (simp add: fs length_enc_doc_middle map_add_def wf_field_def)
  qed
qed

lemma tree_edit_scalar:
  assumes "tree_lookup fs p = Inr (Scalar t x)" and "q \<noteq> []"
  shows "tree_edit r fs (p @ q) = Inl (Err (PointerTooDeep (p @ q) t p))"
  using assms(1)
proof (induction fs p rule: tree_lookup.induct)
  case (1 fs)
  then show ?case by simp
next
  case (2 fs k ks)
  then obtain w where w: "map_of fs k = Some w" by (auto split: option.splits)
  then obtain pre post where s: "split_field k fs = Some (pre, w, post)"
    by (auto simp: split_field_map_of)
  show ?case
  proof (cases "ks = []")
    case True
    then show ?thesis using "2.prems" w s assms(2) by simp
  next
    case False
    with "2.prems" w obtain t' sub where sub: "w = Sub t' sub" "tree_lookup sub ks = Inr (Scalar t x)"
      by (auto split: bson.splits)
    then show ?thesis using "2.IH" [OF w False sub] s False by simp
  qed
qed

lemma tree_edit_not_found:
  assumes "tree_lookup fs ks = Inl (Err ElementNotFound)"
  shows "tree_edit r fs ks = Inr None"
  using assms
proof (induction fs ks rule: tree_lookup.induct)
  case (1 fs)
  then show ?case by simp
next
  case (2 fs k ks)
  show ?case
  proof (cases "map_of fs k")
    case None
    then have "split_field k fs = None" by (metis option.exhaust prod_cases3 split_field_map_of option.distinct(1))
    then show ?thesis by simp
  next
    case (Some w)
    then obtain pre post where s: "split_field k fs = Some (pre, w, post)"
      by (auto simp: split_field_map_of)
    with "2.prems" Some obtain t' sub where sub: "ks \<noteq> []" "w = Sub t' sub"
      "tree_lookup sub ks = Inl (Err ElementNotFound)"
      by (auto split: bson.splits if_splits)
    then show ?thesis using "2.IH" [OF Some sub] s by simp
  qed
qed

section \<open>Properties\<close>

text \<open>
  C3: \<open>ReplaceInRaw\<close> and \<open>RemoveFromRaw\<close> on the bytes of a well-formed document are the edit
  of its field tree: the returned bytes are exactly the encoding of the edited tree (so every
  length header on the path is right and no other byte changes), a missing key returns the
  document untouched with found false, and a scalar on the path is the error of that case. The
  result only has to stay below the 2 GiB an int32 length can describe.
\<close>

theorem edit_refines_tree:
  assumes "wf_doc fs" and "\<And>fs'. tree_edit r fs ks = Inr (Some fs') \<Longrightarrow> fits (enc_doc fs')"
  shows "(case r of None \<Rightarrow> RemoveFromRaw (enc_doc fs) ks
                  | Some nv \<Rightarrow> ReplaceInRaw (enc_doc fs) \<lparr>rv_type = type_of nv, rv_value = enc_val nv\<rparr> ks) =
    (case tree_edit r fs ks of
       Inl x \<Rightarrow> Inl x
     | Inr None \<Rightarrow> Inr (enc_doc fs, False)
     | Inr (Some fs') \<Rightarrow> Inr (enc_doc fs', True))"
  using replaceOrRemove_enc [of fs r ks "[]", OF assms]
  by (cases r) (auto simp: RemoveFromRaw_def ReplaceInRaw_def raw_of_def split: sum.split option.split)

theorem edit_refines_tree_witness:
  "RemoveFromRaw (enc_doc [(str ''a'', Sub TypeEmbeddedDocument [(str ''b'', Scalar TypeNull []),
      (str ''c'', Scalar TypeBoolean [1])])]) [str ''a'', str ''b'']
   = Inr (enc_doc [(str ''a'', Sub TypeEmbeddedDocument [(str ''c'', Scalar TypeBoolean [1])])], True)"
proof -
  let ?fs = "[(str ''a'', Sub TypeEmbeddedDocument [(str ''b'', Scalar TypeNull []),
      (str ''c'', Scalar TypeBoolean [1])])]"
  have "wf_doc ?fs" by (simp add: tree_eval)
  moreover have "fits (enc_doc fs')" if "tree_edit None ?fs [str ''a'', str ''b''] = Inr (Some fs')" for fs'
    using that by (auto simp: tree_eval)
  ultimately show ?thesis
    using edit_refines_tree [of ?fs None "[str ''a'', str ''b'']"] by (simp add: str_def)
qed

text \<open>
  A value that is replaced is the value that is then read: if the pointer refers to some
  \<open>v\<close> in the document, \<open>ReplaceInRaw\<close> finds it and \<open>LookupErr\<close> on the result returns the new
  value; the document's length changes by the difference of the two values' lengths.
\<close>

lemma replace_then_lookup:
  assumes "wf_doc fs" and "tree_lookup fs ks = Inr v" and "wf_val nv"
    and "length (enc_doc fs) + length (enc_val nv) < 2147483648"
  shows "\<exists>raw'. ReplaceInRaw (enc_doc fs) \<lparr>rv_type = type_of nv, rv_value = enc_val nv\<rparr> ks = Inr (raw', True)
    \<and> LookupErr raw' ks = Inr \<lparr>rv_type = type_of nv, rv_value = enc_val nv\<rparr>
    \<and> length raw' + length (enc_val v) = length (enc_doc fs) + length (enc_val nv)"
proof -
  from assms obtain fs' where fs': "tree_edit (Some nv) fs ks = Inr (Some fs')" "tree_lookup fs' ks = Inr nv"
    "list_all wf_field fs'" "length (enc_doc fs') + length (enc_val v) = length (enc_doc fs) + length (enc_val nv)"
    using tree_replace_found [of fs ks v nv] by (auto simp: wf_doc_def)
  then have "wf_doc fs'" using assms(4) by (simp add: wf_doc_def fits_def)
  then have "ReplaceInRaw (enc_doc fs) (raw_of nv) ks = Inr (enc_doc fs', True)"
    using replaceOrRemove_enc [OF assms(1), of "Some nv" ks "[]"] fs'(1)
    by (simp add: ReplaceInRaw_def wf_doc_def)
  moreover have "LookupErr (enc_doc fs') ks = Inr (raw_of nv)"
    using LookupErr_enc [OF \<open>wf_doc fs'\<close>] fs'(2) by simp
  ultimately show ?thesis using fs'(4) by (auto simp: raw_of_def)
qed

lemma replace_then_lookup_witness:
  "\<exists>raw'. ReplaceInRaw (enc_doc [(str ''a'', Scalar TypeNull [])]) \<lparr>rv_type = TypeBoolean, rv_value = [1]\<rparr> [str ''a'']
      = Inr (raw', True) \<and> LookupErr raw' [str ''a''] = Inr \<lparr>rv_type = TypeBoolean, rv_value = [1]\<rparr>"
  using replace_then_lookup [of "[(str ''a'', Scalar TypeNull [])]" "[str ''a'']" "Scalar TypeNull []"
      "Scalar TypeBoolean [1]"]
  by (auto simp: tree_eval)

text \<open>
  C27: an edit whose pointer goes through a scalar is refused with a \<open>PointerTooDeepError\<close> that
  names the whole pointer given, the type of the scalar and the part of the pointer that
  reaches it, however deep the recursion was when it met it.
\<close>

theorem edit_too_deep:
  assumes "wf_doc fs" and "tree_lookup fs p = Inr (Scalar t x)" and "q \<noteq> []"
  shows "ReplaceInRaw (enc_doc fs) \<lparr>rv_type = type_of nv, rv_value = enc_val nv\<rparr> (p @ q)
           = Inl (Err (PointerTooDeep (p @ q) t p))
       \<and> RemoveFromRaw (enc_doc fs) (p @ q) = Inl (Err (PointerTooDeep (p @ q) t p))"
  using replaceOrRemove_enc [OF assms(1), of "Some nv" "p @ q" "[]"]
    replaceOrRemove_enc [OF assms(1), of None "p @ q" "[]"]
  by (simp add: tree_edit_scalar [OF assms(2,3)] ReplaceInRaw_def RemoveFromRaw_def raw_of_def)

theorem edit_too_deep_witness:
  "RemoveFromRaw (enc_doc [(str ''a'', Sub TypeArray [(str ''0'', Scalar TypeNull [])])])
     [str ''a'', str ''0'', str ''b'']
   = Inl (Err (PointerTooDeep [str ''a'', str ''0'', str ''b''] TypeNull [str ''a'', str ''0'']))"
  using edit_too_deep [of "[(str ''a'', Sub TypeArray [(str ''0'', Scalar TypeNull [])])]"
      "[str ''a'', str ''0'']" TypeNull "[]" "[str ''b'']"]
  by (simp add: tree_eval)

text \<open>
  An edit whose pointer refers to nothing (\<open>LookupErr\<close> reports not found) returns the
  document unchanged with found false.
\<close>

lemma edit_missing_is_noop:
  assumes "wf_doc fs" and "tree_lookup fs ks = Inl (Err ElementNotFound)"
  shows "LookupErr (enc_doc fs) ks = Inl (Err ElementNotFound)
    \<and> ReplaceInRaw (enc_doc fs) \<lparr>rv_type = type_of nv, rv_value = enc_val nv\<rparr> ks = Inr (enc_doc fs, False)
    \<and> RemoveFromRaw (enc_doc fs) ks = Inr (enc_doc fs, False)"
  using LookupErr_enc [OF assms(1), of ks]
    replaceOrRemove_enc [OF assms(1), of "Some nv" ks "[]"] replaceOrRemove_enc [OF assms(1), of None ks "[]"]
  by (simp add: assms(2) tree_edit_not_found [OF assms(2)] ReplaceInRaw_def RemoveFromRaw_def raw_of_def)

lemma edit_missing_is_noop_witness:
  "RemoveFromRaw (enc_doc [(str ''a'', Scalar TypeNull [])]) [str ''b'']
     = Inr (enc_doc [(str ''a'', Scalar TypeNull [])], False)"
  using edit_missing_is_noop [of "[(str ''a'', Scalar TypeNull [])]" "[str ''b'']"]
  by (simp add: tree_eval)

text \<open>
  With an empty pointer both edits index past the end of the pointer and panic on every
  nonempty document, where \<open>LookupErr\<close> returns an error.
\<close>

lemma edit_empty_pointer_panics:
  assumes "wf_doc (f # fs)"
  shows "ReplaceInRaw (enc_doc (f # fs)) v [] = Inl (Panic IndexRange)
    \<and> RemoveFromRaw (enc_doc (f # fs)) [] = Inl (Panic IndexRange)
    \<and> LookupErr (enc_doc (f # fs)) [] = Inl (Err EmptyKey)"
proof -
  have "fits (enc_doc (f # fs))" using assms by (simp add: wf_doc_def)
  from ReadLength_enc_doc [OF this, of "[]"] matchLoop_no_pointer [OF assms, of "[]"] show ?thesis
    by (simp add: ReplaceInRaw_def RemoveFromRaw_def replaceOrRemoveInRaw.simps editMatchingElement.simps)
qed

lemma edit_empty_pointer_panics_witness:
  "RemoveFromRaw (enc_doc [(str ''a'', Scalar TypeNull [])]) [] = Inl (Panic IndexRange)"
  using edit_empty_pointer_panics [of "(str ''a'', Scalar TypeNull [])" "[]"] by (simp add: tree_eval)

end
