(* ===== verification/Go_Sort.thy ===== *)
theory Go_Sort
  imports Go_Prelude "HOL-Library.List_Lexorder" "HOL-Library.Multiset"
begin

text \<open>
  Three-way comparison functions (the contract of Go's \<open>cmp.Compare\<close>, which the repository
  asks of every comparer it takes or provides) as a locale, and the library sort that relies
  on it, \<open>slices.SortStableFunc\<close>.
\<close>

section \<open>Stable sorting\<close>

fun sort_insert :: "('a \<Rightarrow> 'a \<Rightarrow> int) \<Rightarrow> 'a \<Rightarrow> 'a list \<Rightarrow> 'a list" where
  "sort_insert cmp x [] = [x]"
| "sort_insert cmp x (y # ys) = (if cmp x y \<le> 0 then x # y # ys else y # sort_insert cmp x ys)"

text \<open>
  What \<open>slices.SortStableFunc\<close> returns; for a comparer that meets its contract there is only
  one such result (\<open>SortStableFunc_unique\<close>), so the algorithm does not matter.
\<close>

definition SortStableFunc :: "('a \<Rightarrow> 'a \<Rightarrow> int) \<Rightarrow> 'a list \<Rightarrow> 'a list" where
  "SortStableFunc cmp xs = foldr (sort_insert cmp) xs []"

lemma SortStableFunc_simps [simp]:
  "SortStableFunc cmp [] = []"
  "SortStableFunc cmp (x # xs) = sort_insert cmp x (SortStableFunc cmp xs)"
  by (simp_all add: SortStableFunc_def)

lemma mset_sort_insert [simp]: "mset (sort_insert cmp x ys) = add_mset x (mset ys)"
  by (induction ys) auto

lemma mset_SortStableFunc [simp]: "mset (SortStableFunc cmp xs) = mset xs"
  by (induction xs) auto

lemma set_SortStableFunc [simp]: "set (SortStableFunc cmp xs) = set xs"
  using mset_SortStableFunc [of cmp xs] by (rule mset_eq_setD)

lemma length_SortStableFunc [simp]: "length (SortStableFunc cmp xs) = length xs"
  using mset_SortStableFunc [of cmp xs] by (rule mset_eq_length)

text \<open>A comparer that reads a linearly ordered key sorts by that key.\<close>

lemma SortStableFunc_sort_key:
  assumes "\<And>x y. cmp x y \<le> 0 \<longleftrightarrow> f x \<le> f y"
  shows "SortStableFunc cmp xs = sort_key f xs"
proof -
  have ins: "sort_insert cmp x ys = insort_key f x ys" for x ys
    by (induction ys) (auto simp: assms)
  show ?thesis by (induction xs) (simp_all add: ins)
qed

lemma SortStableFunc_map:
  assumes "\<And>x y. cmp' (f x) (f y) = cmp x y"
  shows "SortStableFunc cmp' (map f xs) = map f (SortStableFunc cmp xs)"
proof -
  have ins: "sort_insert cmp' (f x) (map f ys) = map f (sort_insert cmp x ys)" for x ys
    by (induction ys) (auto simp: assms)
  show ?thesis by (induction xs) (simp_all add: ins)
qed

section \<open>The contract of a comparer\<close>

text \<open>The running maximum: keep the current value unless the next one is greater.\<close>

definition keep_max :: "('a \<Rightarrow> 'a \<Rightarrow> int) \<Rightarrow> 'a \<Rightarrow> 'a \<Rightarrow> 'a" where
  "keep_max cmp m v = (if 0 \<le> cmp m v then m else v)"

locale comparator =
  fixes cmp :: "'a \<Rightarrow> 'a \<Rightarrow> int"
  assumes swap: "sgn (cmp b a) = - sgn (cmp a b)"
    and trans: "cmp a b \<le> 0 \<Longrightarrow> cmp b c \<le> 0 \<Longrightarrow> cmp a c \<le> 0"
begin

lemma refl [simp]: "cmp a a = 0"
  using swap [of a a] by (simp add: sgn_if split: if_splits)

lemma not_le: "\<not> cmp a b \<le> 0 \<longleftrightarrow> cmp b a < 0"
  using swap [of a b] by (auto simp: sgn_if split: if_splits)

lemma ge_le: "0 \<le> cmp a b \<longleftrightarrow> cmp b a \<le> 0"
  using swap [of a b] by (auto simp: sgn_if split: if_splits)

lemma total: "cmp a b \<le> 0 \<or> cmp b a \<le> 0"
  using not_le [of a b] by auto

lemma eq_le: "cmp a b = 0 \<longleftrightarrow> cmp a b \<le> 0 \<and> cmp b a \<le> 0"
  using swap [of a b] by (auto simp: sgn_if split: if_splits)

lemma eq_trans: "cmp a b = 0 \<Longrightarrow> cmp b c = 0 \<Longrightarrow> cmp a c = 0"
  by (meson eq_le trans)

lemma eq_sym: "cmp a b = 0 \<longleftrightarrow> cmp b a = 0"
  using eq_le by blast

lemma sort_insert_sorted:
  "sorted_wrt (\<lambda>a b. cmp a b \<le> 0) ys \<Longrightarrow> sorted_wrt (\<lambda>a b. cmp a b \<le> 0) (sort_insert cmp x ys)"
proof (induction ys)
  case Nil
  then show ?case by simp
next
  case (Cons y ys)
  have set: "set (sort_insert cmp x ys) = insert x (set ys)"
    using mset_sort_insert [of cmp x ys] by (metis set_mset_add_mset_insert set_mset_mset)
  show ?case
  proof (cases "cmp x y \<le> 0")
    case True
    with Cons.prems show ?thesis by (auto intro: trans)
  next
    case False
    then have "cmp y x \<le> 0" using not_le by fastforce
    with False Cons show ?thesis by (auto simp: set)
  qed
qed

lemma sorted: "sorted_wrt (\<lambda>a b. cmp a b \<le> 0) (SortStableFunc cmp xs)"
  by (induction xs) (auto intro: sort_insert_sorted)

lemma sort_insert_filter:
  "sorted_wrt (\<lambda>a b. cmp a b \<le> 0) ys \<Longrightarrow>
   filter (\<lambda>b. cmp a b = 0) (sort_insert cmp x ys)
     = (if cmp a x = 0 then [x] else []) @ filter (\<lambda>b. cmp a b = 0) ys"
proof (induction ys)
  case Nil
  then show ?case by simp
next
  case (Cons y ys)
  show ?case
  proof (cases "cmp x y \<le> 0")
    case True
    then show ?thesis by simp
  next
    case False
    have "\<not> (cmp a x = 0 \<and> cmp a y = 0)"
    proof
      assume "cmp a x = 0 \<and> cmp a y = 0"
      then have "cmp x y = 0" by (meson eq_sym eq_trans)
      with False show False by simp
    qed
    with False Cons show ?thesis by auto
  qed
qed

lemma stable: "filter (\<lambda>b. cmp a b = 0) (SortStableFunc cmp xs) = filter (\<lambda>b. cmp a b = 0) xs"
  by (induction xs) (simp_all add: sort_insert_filter sorted)

text \<open>A sorted list that keeps the order of equal items is the only stable sort.\<close>

lemma sorted_stable_eq:
  assumes "sorted_wrt (\<lambda>a b. cmp a b \<le> 0) xs" and "sorted_wrt (\<lambda>a b. cmp a b \<le> 0) ys"
    and "\<And>a. filter (\<lambda>b. cmp a b = 0) xs = filter (\<lambda>b. cmp a b = 0) ys"
  shows "xs = ys"
  using assms
proof (induction xs arbitrary: ys)
  case Nil
  show ?case
  proof (cases ys)
    case (Cons y ys')
    then show ?thesis using Nil.prems(3) [of y] by simp
  qed simp
next
  case (Cons x xs)
  from Cons.prems(3) [of x] have fx: "filter (\<lambda>b. cmp x b = 0) ys = x # filter (\<lambda>b. cmp x b = 0) xs"
    by simp
  then obtain y ys' where ys: "ys = y # ys'" by (cases ys) auto
  have "x \<in> set (filter (\<lambda>b. cmp x b = 0) ys)" using fx by simp
  then have "x \<in> set ys" by simp
  then have yx: "cmp y x \<le> 0" using Cons.prems(2) ys by auto
  have "y \<in> set (filter (\<lambda>b. cmp y b = 0) (x # xs))"
    unfolding Cons.prems(3) by (simp add: ys)
  then have "y \<in> set (x # xs)" by (simp only: set_filter) blast
  then have "cmp x y \<le> 0" using Cons.prems(1) by auto
  with yx have "cmp x y = 0" using eq_le by blast
  then have "x = y" using fx ys by simp
  moreover have "xs = ys'"
  proof (rule Cons.IH)
    show "sorted_wrt (\<lambda>a b. cmp a b \<le> 0) xs" "sorted_wrt (\<lambda>a b. cmp a b \<le> 0) ys'"
      using Cons.prems ys by auto
    fix a show "filter (\<lambda>b. cmp a b = 0) xs = filter (\<lambda>b. cmp a b = 0) ys'"
      using Cons.prems(3) [of a] ys \<open>x = y\<close> by (simp split: if_splits)
  qed
  ultimately show ?case by (simp add: ys)
qed

lemma SortStableFunc_unique:
  assumes "sorted_wrt (\<lambda>a b. cmp a b \<le> 0) ys"
    and "\<And>a. filter (\<lambda>b. cmp a b = 0) ys = filter (\<lambda>b. cmp a b = 0) xs"
  shows "ys = SortStableFunc cmp xs"
  by (rule sorted_stable_eq) (use assms sorted stable in auto)

lemma sort_sorted: "sorted_wrt (\<lambda>a b. cmp a b \<le> 0) xs \<Longrightarrow> SortStableFunc cmp xs = xs"
  by (rule SortStableFunc_unique [symmetric]) auto

lemma keep_max_ge: "cmp m (keep_max cmp m v) \<le> 0" "cmp v (keep_max cmp m v) \<le> 0"
  using not_le [of m v] ge_le [of m v] by (auto simp: keep_max_def)

end

text \<open>Comparing through a key keeps the contract.\<close>

lemma comparator_key: "comparator cmp \<Longrightarrow> comparator (\<lambda>x y. cmp (f x) (f y))"
  unfolding comparator_def by blast

interpretation bytes_cmp: comparator compare_bytes
proof
  fix a b c :: bytes
  have "compare_bytes b a = - compare_bytes a b" by (rule compare_bytes_swap)
  then show "sgn (compare_bytes b a) = - sgn (compare_bytes a b)" by simp
  show "compare_bytes a b \<le> 0 \<Longrightarrow> compare_bytes b c \<le> 0 \<Longrightarrow> compare_bytes a c \<le> 0"
    by (rule compare_bytes_trans)
qed

text \<open>Byte-wise comparison is the lexicographic order of the library on lists of words.\<close>

lemma compare_bytes_le: "compare_bytes xs ys \<le> 0 \<longleftrightarrow> xs \<le> ys"
  by (induction xs ys rule: compare_bytes.induct) auto

end
