(* ===== verification/Bson_Canonical.thy ===== *)
theory Bson_Canonical
  imports Bson_Raw Go_Sort
begin

text \<open>
  \<open>bsontools/canonical.go\<close>: \<open>SortFields\<close> sorts the fields of a document and of every document
  in it, inside the given buffer. The elements and the values are windows of that buffer; the
  model passes each window's new content back to the buffer it belongs to.
\<close>

section \<open>The code\<close>

text \<open>Writing \<open>v\<close> over the bytes of \<open>b\<close> from \<open>n\<close> on.\<close>

definition write_at :: "bytes \<Rightarrow> nat \<Rightarrow> bytes \<Rightarrow> bytes" where
  "write_at b n v = take n b @ v @ drop (n + length v) b"

lemma elements_loop_split: "elements_loop len rem = Inr els \<Longrightarrow> \<exists>r. rem = concat els @ r"
proof (induction len rem arbitrary: els rule: elements_loop.induct)
  case (1 len rem)
  show ?case
  proof (cases "1 < sint len")
    case False
    with "1.prems" show ?thesis by (simp add: elements_loop.simps)
  next
    case True
    with "1.prems" obtain el r els' where el: "ReadElement rem = Inr (Some (el, r))"
      "Element_Validate el = Inr ()" "elements_loop (len - of_nat (length el)) r = Inr els'"
      "els = el # els'"
      by (subst (asm) elements_loop.simps) (auto simp: go_bind_eq_Inr split: option.splits)
    have "\<exists>r'. r = concat els' @ r'" by (rule "1.IH" [OF True el(1) refl refl el(2,3)])
    with el(4) ReadElement_split [OF el(1)] show ?thesis by auto
  qed
qed

lemma Raw_Elements_split:
  assumes "Raw_Elements d = Inr els" and "els \<noteq> []"
  obtains r where "d = take 4 d @ concat els @ r" and "4 \<le> length d"
proof -
  from assms obtain len rem where rl: "ReadLength d = Some (len, rem)"
    and "elements_loop (len - 4) rem = Inr els"
    by (auto simp: Raw_Elements_def Elements_def split: if_splits option.splits)
  then obtain r where r: "rem = concat els @ r" using elements_loop_split by blast
  have d: "d = le_bytes 4 (nat (sint len)) @ rem" by (rule ReadLength_Some(2) [OF rl])
  then have "4 \<le> length d" "take 4 d = le_bytes 4 (nat (sint len))" by simp_all
  with d r show thesis by (intro that [of r]) simp_all
qed

lemma Element_Value_shorter:
  "Element_Value el = Inr v \<Longrightarrow> el \<noteq> [] \<Longrightarrow> length (rv_value v) < length el"
  by (auto simp: Element_Value_def ValueErr_def go_bind_eq_Inr readValue_def slice_at_Inr
      split: sum.splits fault.splits list.splits option.splits if_splits dest!: IndexByte_Some)

function (sequential)
  sortInPlaceInternal :: "bytes \<Rightarrow> bool \<Rightarrow> bytes res"
  and iterateElements :: "bytes list \<Rightarrow> bytes list res" where
  "sortInPlaceInternal buf isArray =
     go_bind (wrap_err (Wrapped ''parsing fields'') (Raw_Elements buf)) (\<lambda>els.
     if els = [] then Inr buf
     else
       go_bind (wrap_err (Wrapped ''iterating'') (iterateElements els)) (\<lambda>els'.
       let in1 = write_at buf 4 (concat els') in
       if isArray then Inr in1
       else
         let fields = SortStableFunc (\<lambda>a b. compare_bytes (fst a) (fst b)) (map (\<lambda>el. (KeyBytes el, el)) els');
             elementsBlockSize = int (length buf) - 5 in
         if elementsBlockSize \<le> 0 then Inr in1
         else
           let scratch = concat (map snd fields) in
           go_bind (go_assert (int (length scratch) = elementsBlockSize) ''scratch size'') (\<lambda>_.
           Inr (write_at in1 4 scratch))))"
| "iterateElements [] = Inr []"
| "iterateElements (el # els) =
     (case el of
        [] \<Rightarrow> Inl (Panic IndexRange)
      | bType # _ \<Rightarrow>
          go_bind
            (if bType \<noteq> TypeEmbeddedDocument \<and> bType \<noteq> TypeArray then Inr el
             else
               go_bind (Element_Value el) (\<lambda>val.
               go_bind (wrap_err (Wrapped ''sorting subdoc'')
                          (sortInPlaceInternal (rv_value val) (bType = TypeArray))) (\<lambda>sorted.
               Inr (write_at el (length (KeyBytes el) + 2) sorted)))) (\<lambda>el'.
          go_bind (iterateElements els) (\<lambda>els'. Inr (el' # els'))))"
  by pat_completeness auto
termination
proof (relation "measure (\<lambda>x. case x of Inl (d, _) \<Rightarrow> length d | Inr els \<Rightarrow> length (concat els))", goal_cases)
  case 1
  then show ?case by simp
next
  case (2 buf isArray els)
  then obtain r where "buf = take 4 buf @ concat els @ r" "4 \<le> length buf"
    by (auto elim: Raw_Elements_split)
  then have "length buf = 4 + length (concat els) + length r"
    by (metis length_append length_take min_absorb2 add.assoc)
  then show ?case by simp
qed (auto dest: Element_Value_shorter)

declare sortInPlaceInternal.simps [simp del] iterateElements.simps(2) [simp del]

definition SortFields :: "bytes \<Rightarrow> bytes res" where
  "SortFields buf = sortInPlaceInternal buf False"

section \<open>Sorting a tree\<close>

abbreviation by_key :: "bytes \<times> 'a \<Rightarrow> bytes \<times> 'a \<Rightarrow> int" where
  "by_key \<equiv> \<lambda>a b. compare_bytes (fst a) (fst b)"

fun tree_sort :: "bson \<Rightarrow> bson" where
  "tree_sort (Scalar t p) = Scalar t p"
| "tree_sort (Sub t fs) =
     (let gs = map (\<lambda>(k, v). (k, tree_sort v)) fs in
      Sub t (if t = TypeArray then gs else SortStableFunc by_key gs))"

definition sort_fields :: "(bytes \<times> bson) list \<Rightarrow> (bytes \<times> bson) list" where
  "sort_fields fs = SortStableFunc by_key (map (apsnd tree_sort) fs)"

lemma tree_sort_Sub:
  "tree_sort (Sub t fs) = Sub t (if t = TypeArray then map (apsnd tree_sort) fs else sort_fields fs)"
proof -
  have eq: "(\<lambda>(k, v). (k, tree_sort v)) = apsnd tree_sort" by auto
  show ?thesis unfolding tree_sort.simps Let_def eq sort_fields_def ..
qed

declare tree_sort.simps(2) [simp del]

lemma type_of_tree_sort [simp]: "type_of (tree_sort v) = type_of v"
  by (cases v) (simp_all add: tree_sort_Sub)

lemma wf_sort_fields:
  "list_all wf_field (map (apsnd tree_sort) fs) \<Longrightarrow> list_all wf_field (sort_fields fs)"
  by (simp add: sort_fields_def list_all_iff)

lemma length_body_sort_fields:
  "length (body (sort_fields fs)) = length (body (map (apsnd tree_sort) fs))"
proof -
  have "mset (map (length \<circ> enc_elem) (sort_fields fs)) = mset (map (length \<circ> enc_elem) (map (apsnd tree_sort) fs))"
    by (simp only: mset_map sort_fields_def mset_SortStableFunc)
  then have "sum_list (map (length \<circ> enc_elem) (sort_fields fs))
      = sum_list (map (length \<circ> enc_elem) (map (apsnd tree_sort) fs))"
    by (metis sum_mset_sum_list)
  then show ?thesis by (simp add: length_concat comp_assoc)
qed

lemma length_enc_tree_sort: "length (enc_val (tree_sort v)) = length (enc_val v)"
proof (induction v)
  case (Scalar t p)
  then show ?case by simp
next
  case (Sub t fs)
  have "length (enc_elem (apsnd tree_sort f)) = length (enc_elem f)" if "f \<in> set fs" for f
    using Sub.IH [OF that, of "snd f"] by (cases f) simp
  then have "length (body (map (apsnd tree_sort) fs)) = length (body fs)"
    by (simp add: length_concat cong: map_cong)
  then show ?case
    by (simp add: tree_sort_Sub enc_doc_def length_body_sort_fields)
qed

lemma wf_tree_sort: "wf_val v \<Longrightarrow> wf_val (tree_sort v)"
proof (induction v)
  case (Scalar t p)
  then show ?case by simp
next
  case (Sub t fs)
  have "wf_field (apsnd tree_sort f)" if "f \<in> set fs" for f
    using Sub.IH [OF that, of "snd f"] Sub.prems that
    by (cases f) (auto simp: wf_field_def list_all_iff)
  then have "list_all wf_field (map (apsnd tree_sort) fs)" by (simp add: list_all_iff)
  then show ?case using Sub.prems wf_sort_fields by (simp add: tree_sort_Sub)
qed

section \<open>The code on encoded documents\<close>

definition val_ok :: "bson \<Rightarrow> bool" where
  "val_ok v \<longleftrightarrow> wf_val v \<and> fits (enc_val v)"

lemma iterateElements_enc:
  assumes "list_all wf_field fs" and "\<And>f. f \<in> set fs \<Longrightarrow> fits (enc_elem f)"
    and "\<And>k t sub. (k, Sub t sub) \<in> set fs \<Longrightarrow>
      sortInPlaceInternal (enc_doc sub) (t = TypeArray) = Inr (enc_val (tree_sort (Sub t sub)))"
  shows "iterateElements (map enc_elem fs) = Inr (map enc_elem (map (apsnd tree_sort) fs))"
  using assms
proof (induction fs)
  case Nil
  then show ?case by simp
next
  case (Cons f fs)
  obtain k v where f: "f = (k, v)" by (cases f)
  have wf: "wf_field (k, v)" "fits (enc_elem (k, v))" using Cons.prems f by auto
  have IH: "iterateElements (map enc_elem fs) = Inr (map enc_elem (map (apsnd tree_sort) fs))"
  proof (rule Cons.IH)
    show "list_all wf_field fs" using Cons.prems(1) by simp
    show "fits (enc_elem g)" if "g \<in> set fs" for g using that by (intro Cons.prems(2)) simp
    show "sortInPlaceInternal (enc_doc sub) (t = TypeArray) = Inr (enc_val (tree_sort (Sub t sub)))"
      if "(k, Sub t sub) \<in> set fs" for k t sub using that by (intro Cons.prems(3) [of k]) simp
  qed
  show ?case
  proof (cases v)
    case (Scalar t p)
    then have "t \<noteq> TypeEmbeddedDocument \<and> t \<noteq> TypeArray"
      using wf by (simp add: wf_field_def wf_scalar_def is_sub_def)
    then show ?thesis
      using IH f Scalar by (simp add: iterateElements.simps enc_elem_Cons)
  next
    case (Sub t sub)
    have t: "t = TypeEmbeddedDocument \<or> t = TypeArray"
      using wf Sub by (simp add: wf_field_def is_sub_def)
    have "sortInPlaceInternal (enc_doc sub) (t = TypeArray) = Inr (enc_val (tree_sort v))"
      using Cons.prems(3) [of k t sub] f Sub by simp
    moreover have "Element_Value (enc_elem (k, v)) = Inr \<lparr>rv_type = t, rv_value = enc_doc sub\<rparr>"
      using Element_Value_enc [OF wf] Sub by simp
    moreover have "KeyBytes (enc_elem (k, v)) = k" using KeyBytes_enc(2) [OF wf(1)] by simp
    moreover have "write_at (enc_elem (k, v)) (length k + 2) (enc_val (tree_sort v))
        = enc_elem (k, tree_sort v)"
      using length_enc_tree_sort [of v] by (simp add: write_at_def enc_elem_def)
    ultimately show ?thesis
      using IH f Sub t by (auto simp: iterateElements.simps enc_elem_Cons)
  qed
qed

text \<open>The elements of an encoded document, as a window of its bytes.\<close>

lemma write_body:
  assumes "length (body gs) = length (body fs)"
  shows "write_at (enc_doc fs) 4 (body gs) = enc_doc gs"
  using assms by (simp add: write_at_def enc_doc_def frame_def)

lemma sort_step_enc:
  assumes fs: "wf_doc fs"
    and el: "iterateElements (map enc_elem fs) = Inr (map enc_elem gs)"
    and gs: "list_all wf_field gs" "length (body gs) = length (body fs)"
  shows "sortInPlaceInternal (enc_doc fs) isArray
    = Inr (enc_doc (if isArray then gs else SortStableFunc by_key gs))"
proof (cases "fs = []")
  case True
  then have "body gs = []" using gs(2) by simp
  then have "gs = []" by (cases gs) auto
  then show ?thesis
    using True Raw_Elements_enc [OF fs] by (simp add: sortInPlaceInternal.simps)
next
  case False
  let ?sorted = "SortStableFunc by_key gs"
  have "map (\<lambda>el. (KeyBytes el, el)) (map enc_elem gs) = map (\<lambda>f. (fst f, enc_elem f)) gs"
    using gs(1) KeyBytes_enc(2) by (auto simp: list_all_iff)
  then have fields: "SortStableFunc by_key (map (\<lambda>el. (KeyBytes el, el)) (map enc_elem gs))
      = map (\<lambda>f. (fst f, enc_elem f)) ?sorted"
    by (simp only:) (rule SortStableFunc_map, simp)
  have "mset (map (length \<circ> enc_elem) ?sorted) = mset (map (length \<circ> enc_elem) gs)"
    by (simp only: mset_map mset_SortStableFunc)
  then have "sum_list (map (length \<circ> enc_elem) ?sorted) = sum_list (map (length \<circ> enc_elem) gs)"
    by (metis sum_mset_sum_list)
  then have len: "length (body ?sorted) = length (body gs)" by (simp add: length_concat)
  have "int (length (enc_doc fs)) - 5 = int (length (body ?sorted))"
    using len gs(2) by (simp add: enc_doc_def)
  moreover have "body fs \<noteq> []" using False by (cases fs) auto
  then have "length (body ?sorted) \<noteq> 0" by (simp only: len gs(2) length_0_conv not_False_eq_True)
  moreover have "write_at (enc_doc fs) 4 (body gs) = enc_doc gs" by (rule write_body [OF gs(2)])
  moreover have "write_at (enc_doc gs) 4 (body ?sorted) = enc_doc ?sorted" by (rule write_body [OF len])
  moreover have "concat (map snd (map (\<lambda>f. (fst f, enc_elem f)) ?sorted)) = body ?sorted"
    by (simp add: comp_def)
  ultimately show ?thesis
    unfolding sortInPlaceInternal.simps Raw_Elements_enc [OF fs] wrap_err_simps go_bind_Inr el Let_def fields
    using False by simp
qed

lemma sort_enc:
  "wf_val v \<Longrightarrow> fits (enc_val v) \<Longrightarrow> v = Sub t fs \<Longrightarrow>
   sortInPlaceInternal (enc_doc fs) (t = TypeArray) = Inr (enc_val (tree_sort v))"
proof (induction v arbitrary: t fs)
  case (Scalar t' p)
  then show ?case by simp
next
  case (Sub t' fs')
  then have fs: "wf_doc fs" by (simp add: wf_doc_def)
  let ?gs = "map (apsnd tree_sort) fs"
  have "iterateElements (map enc_elem fs) = Inr (map enc_elem ?gs)"
  proof (rule iterateElements_enc)
    fix k s sub assume mem: "(k, bson.Sub s sub) \<in> set fs"
    show "sortInPlaceInternal (enc_doc sub) (s = TypeArray) = Inr (enc_val (tree_sort (bson.Sub s sub)))"
      by (rule Sub.IH [of "(k, bson.Sub s sub)"])
         (use mem Sub.prems wf_doc_field [OF fs mem] fits_val [of k "bson.Sub s sub"] in
           \<open>auto simp: wf_field_def\<close>)
  qed (use fs wf_doc_field [OF fs] in \<open>auto simp: wf_doc_def\<close>)
  moreover have "wf_val (tree_sort (bson.Sub TypeArray fs))"
    using fs by (intro wf_tree_sort) (simp add: wf_doc_def is_sub_def)
  then have "list_all wf_field ?gs" by (simp add: tree_sort_Sub)
  moreover have "length (body ?gs) = length (body fs)"
    using length_enc_tree_sort [of "bson.Sub TypeArray fs"] by (simp add: tree_sort_Sub enc_doc_def)
  ultimately have "sortInPlaceInternal (enc_doc fs) (t = TypeArray)
      = Inr (enc_doc (if t = TypeArray then ?gs else SortStableFunc by_key ?gs))"
    by (rule sort_step_enc [OF fs])
  then show ?case using Sub.prems(3) by (simp add: tree_sort_Sub sort_fields_def)
qed

lemma SortFields_enc: "wf_doc fs \<Longrightarrow> SortFields (enc_doc fs) = Inr (enc_doc (sort_fields fs))"
  using sort_enc [of "Sub TypeEmbeddedDocument fs" TypeEmbeddedDocument fs]
  by (simp add: SortFields_def wf_doc_def is_sub_def tree_sort_Sub)

section \<open>The sorted tree\<close>

interpretation key_cmp: comparator by_key
  by (rule comparator_key [OF bytes_cmp.comparator_axioms])

lemma tree_sort_idem: "tree_sort (tree_sort v) = tree_sort v"
proof (induction v)
  case (Scalar t p)
  then show ?case by simp
next
  case (Sub t fs)
  have again: "map (apsnd tree_sort) (map (apsnd tree_sort) fs) = map (apsnd tree_sort) fs"
    using Sub.IH by (auto simp: apsnd_def map_prod_def)
  have "sort_fields (sort_fields fs)
      = SortStableFunc by_key (SortStableFunc by_key (map (apsnd tree_sort) (map (apsnd tree_sort) fs)))"
    unfolding sort_fields_def by (subst SortStableFunc_map [symmetric, of by_key]) simp_all
  then have "sort_fields (sort_fields fs) = sort_fields fs"
    unfolding again by (simp add: sort_fields_def key_cmp.sort_sorted key_cmp.sorted)
  then show ?case using again by (simp add: tree_sort_Sub del: list.map_comp)
qed

lemma sort_fields_idem: "sort_fields (sort_fields fs) = sort_fields fs"
  using tree_sort_idem [of "Sub TypeEmbeddedDocument fs"] by (simp add: tree_sort_Sub)

lemma map_of_filter:
  "map_of fs k = (case filter (\<lambda>f. by_key (k, z) f = 0) fs of [] \<Rightarrow> None | f # _ \<Rightarrow> Some (snd f))"
  by (induction fs) (auto simp: compare_bytes_eq_0)

lemma map_of_sorted: "map_of (SortStableFunc by_key fs) k = map_of fs k"
  using map_of_filter [of "SortStableFunc by_key fs" k undefined] map_of_filter [of fs k undefined]
  by (simp only: key_cmp.stable)

lemma map_of_apsnd: "map_of (map (apsnd f) fs) k = map_option f (map_of fs k)"
  by (induction fs) auto

lemma tree_lookup_cong: "(\<And>k. map_of fs k = map_of gs k) \<Longrightarrow> tree_lookup fs ks = tree_lookup gs ks"
  by (cases ks) auto

lemma tree_lookup_apsnd:
  "tree_lookup (map (apsnd tree_sort) fs) ks = map_sum (\<lambda>x. x) tree_sort (tree_lookup fs ks)"
proof (induction fs ks rule: tree_lookup.induct)
  case (1 fs)
  then show ?case by simp
next
  case (2 fs k ks)
  show ?case
  proof (cases "\<exists>t sub. map_of fs k = Some (Sub t sub) \<and> ks \<noteq> []")
    case True
    then obtain t sub where sub: "map_of fs k = Some (Sub t sub)" "ks \<noteq> []" by blast
    have "tree_lookup (sort_fields sub) ks = tree_lookup (map (apsnd tree_sort) sub) ks"
      unfolding sort_fields_def by (rule tree_lookup_cong) (rule map_of_sorted)
    then show ?thesis
      using sub "2.IH" [OF sub refl] by (simp add: map_of_apsnd tree_sort_Sub)
  next
    case False
    then show ?thesis by (auto simp: map_of_apsnd split: option.split bson.split)
  qed
qed

lemma tree_lookup_sort_fields:
  "tree_lookup (sort_fields fs) ks = map_sum (\<lambda>x. x) tree_sort (tree_lookup fs ks)"
  using tree_lookup_apsnd tree_lookup_cong [OF map_of_sorted] by (simp add: sort_fields_def)

text \<open>
  Two trees that differ only in the order of the fields of their documents (arrays keep
  theirs), the keys of each reordered document being distinct.
\<close>

inductive reordered :: "bson \<Rightarrow> bson \<Rightarrow> bool" where
  reordered_scalar: "reordered (Scalar t p) (Scalar t p)"
| reordered_array: "list_all2 (\<lambda>f g. fst f = fst g \<and> reordered (snd f) (snd g)) fs gs \<Longrightarrow>
     reordered (Sub TypeArray fs) (Sub TypeArray gs)"
| reordered_doc: "t \<noteq> TypeArray \<Longrightarrow> distinct (map fst gs) \<Longrightarrow> mset hs = mset gs \<Longrightarrow>
     list_all2 (\<lambda>f g. fst f = fst g \<and> reordered (snd f) (snd g)) fs hs \<Longrightarrow>
     reordered (Sub t fs) (Sub t gs)"

lemma sorted_distinct_unique:
  assumes "mset xs = mset ys" and "distinct (map fst xs)"
  shows "SortStableFunc by_key xs = SortStableFunc by_key ys"
proof -
  have key: "SortStableFunc by_key zs = sort_key fst zs" for zs :: "(bytes \<times> 'a) list"
    by (rule SortStableFunc_sort_key) (rule compare_bytes_le)
  have "inj_on fst (set xs)" using assms(2) by (simp add: distinct_map)
  then show ?thesis
    unfolding key by (rule sort_key_inj_key_eq [rotated]) (use assms in simp_all)
qed

lemma tree_sort_reordered: "reordered v w \<Longrightarrow> tree_sort v = tree_sort w"
proof (induction rule: reordered.induct)
  case (reordered_scalar t p)
  then show ?case by simp
next
  case (reordered_array fs gs)
  then have "map (apsnd tree_sort) fs = map (apsnd tree_sort) gs"
    by (induction rule: list_all2_induct) (auto simp: apsnd_def map_prod_def split: prod.split)
  then show ?case by (simp add: tree_sort_Sub)
next
  case (reordered_doc t gs hs fs)
  from reordered_doc(4) have eq: "map (apsnd tree_sort) fs = map (apsnd tree_sort) hs"
    by (induction rule: list_all2_induct) (auto simp: apsnd_def map_prod_def split: prod.split)
  have "mset (map (apsnd tree_sort) gs) = mset (map (apsnd tree_sort) hs)"
    by (simp only: mset_map reordered_doc(3))
  moreover have "distinct (map fst (map (apsnd tree_sort) gs))"
    using reordered_doc(2) by (simp add: comp_def)
  ultimately have "sort_fields fs = sort_fields gs"
    unfolding sort_fields_def eq by (rule sorted_distinct_unique [symmetric])
  then show ?case using reordered_doc(1) by (simp add: tree_sort_Sub)
qed

section \<open>Any buffer\<close>

lemma Element_Value_window:
  assumes "Element_Value el = Inr v"
  shows "\<exists>r. el = take (length (KeyBytes el) + 2) el @ rv_value v @ r"
proof (cases "rv_value v = []")
  case True
  then show ?thesis by (metis append_Nil append_take_drop_id)
next
  case False
  with assms obtain t b i r where el: "el = t # b" "IndexByte b 0 = Some i"
    and rv: "readValue (drop (i + 2) el) t = Inr (Some (rv_value v, r))"
    by (auto simp: Element_Value_def ValueErr_def go_bind_eq_Inr
        split: sum.splits fault.splits list.splits option.splits)
  have "i < length b" using IndexByte_Some [OF el(2)] by simp
  then have "length (KeyBytes el) = i" using el by (simp add: KeyBytes_def KeyBytesErr_def)
  moreover have "drop (i + 2) el = rv_value v @ r" using readValue_split [OF rv] .
  ultimately show ?thesis by (metis append_take_drop_id)
qed

definition permutes :: "bytes \<Rightarrow> bytes \<Rightarrow> bool" where
  "permutes b b' \<longleftrightarrow> mset b' = mset b \<and> length b' = length b"

lemma permutes_write_at:
  assumes "b = take n b @ w @ r" and "permutes w w'"
  shows "write_at b n w' = take n b @ w' @ r \<and> permutes b (write_at b n w')"
proof -
  have "take n b @ drop n b = take n b @ w @ r"
    unfolding append_take_drop_id by (rule assms(1))
  then have d: "drop n b = w @ r" by (simp only: same_append_eq)
  have "drop (n + length w') b = drop (length w') (drop n b)" by (simp add: add.commute)
  then have "write_at b n w' = take n b @ w' @ r"
    using assms(2) by (simp add: write_at_def permutes_def d)
  moreover have "permutes (take n b @ drop n b) (take n b @ w' @ r)"
    using assms(2) by (simp add: permutes_def d del: append_take_drop_id)
  ultimately show ?thesis by simp
qed

lemma mset_concat_cong: "mset xs = mset ys \<Longrightarrow> mset (concat xs) = mset (concat ys)"
  by (simp add: mset_concat) (metis mset_map sum_mset_sum_list)

lemma permutes_append: "permutes a a' \<Longrightarrow> permutes b b' \<Longrightarrow> permutes (a @ b) (a' @ b')"
  by (simp add: permutes_def)

lemma permutes_trans: "permutes a b \<Longrightarrow> permutes b c \<Longrightarrow> permutes a c"
  by (simp add: permutes_def)

lemma permutes_refl [simp]: "permutes a a"
  by (simp add: permutes_def)

text \<open>The end of \<open>sortInPlaceInternal\<close>, once the elements' windows have been permuted.\<close>

lemma rearrange_permutes:
  assumes buf: "buf = take 4 buf @ concat els @ r" "4 \<le> length buf"
    and els: "permutes (concat els) (concat els')"
    and flds: "mset (map snd flds) = mset els'"
  shows "permutes buf (write_at (write_at buf 4 (concat els')) 4 (concat (map snd flds)))
    \<and> take 4 (write_at (write_at buf 4 (concat els')) 4 (concat (map snd flds))) = take 4 buf"
proof -
  let ?in1 = "write_at buf 4 (concat els')"
  have in1: "?in1 = take 4 buf @ concat els' @ r" "permutes buf ?in1"
    using permutes_write_at [OF buf(1) els] by auto
  then have t: "take 4 ?in1 = take 4 buf" using buf(2) by simp
  have "mset (concat (map snd flds)) = mset (concat els')"
    by (rule mset_concat_cong [OF flds])
  then have perm: "permutes (concat els') (concat (map snd flds))"
    by (simp only: permutes_def) (blast dest: mset_eq_length)
  have "?in1 = take 4 ?in1 @ concat els' @ r" unfolding t by (rule in1(1))
  note w0 = permutes_write_at [OF this perm]
  have w: "write_at ?in1 4 (concat (map snd flds)) = take 4 buf @ concat (map snd flds) @ r"
    "permutes ?in1 (write_at ?in1 4 (concat (map snd flds)))"
    using w0 unfolding t by (rule conjunct1, rule conjunct2)
  have "take 4 (take 4 buf @ concat (map snd flds) @ r) = take 4 buf" using buf(2) by simp
  then show ?thesis using permutes_trans [OF in1(2) w(2)] unfolding w(1) by simp
qed

lemma sort_permutes:
  "sortInPlaceInternal buf isArray = Inr buf' \<Longrightarrow> permutes buf buf' \<and> take 4 buf' = take 4 buf"
  "iterateElements els = Inr els' \<Longrightarrow> permutes (concat els) (concat els')"
proof (induction buf isArray and els arbitrary: buf' and els'
    rule: sortInPlaceInternal_iterateElements.induct)
  case (1 buf isArray)
  from "1.prems" obtain els where els: "Raw_Elements buf = Inr els"
    by (subst (asm) sortInPlaceInternal.simps) (auto simp: go_bind_eq_Inr)
  show ?case
  proof (cases "els = []")
    case True
    with "1.prems" els show ?thesis by (simp add: sortInPlaceInternal.simps)
  next
    case False
    obtain r where buf: "buf = take 4 buf @ concat els @ r" "4 \<le> length buf"
      by (rule Raw_Elements_split [OF els False])
    from "1.prems" els False obtain els' where it: "iterateElements els = Inr els'"
      by (subst (asm) sortInPlaceInternal.simps) (auto simp: go_bind_eq_Inr)
    have IH: "permutes (concat els) (concat els')"
      using "1.IH" [of els els'] els False it by simp
    let ?in1 = "write_at buf 4 (concat els')"
    have in1: "permutes buf ?in1 \<and> take 4 ?in1 = take 4 buf"
      using permutes_write_at [OF buf(1) IH] buf(2) by auto
    let ?fields = "SortStableFunc by_key (map (\<lambda>el. (KeyBytes el, el)) els')"
    have "mset (map snd ?fields) = mset els'"
      by (simp only: mset_map mset_SortStableFunc image_mset.compositionality) (simp add: comp_def)
    note re = rearrange_permutes [OF buf IH this]
    from "1.prems" els False it consider "buf' = ?in1"
      | "int (length (concat (map snd ?fields))) = int (length buf) - 5"
        "buf' = write_at ?in1 4 (concat (map snd ?fields))"
      by (subst (asm) sortInPlaceInternal.simps)
         (auto simp: go_bind_eq_Inr Let_def go_assert_def split: if_splits)
    then show ?thesis
    proof cases
      case 1
      then show ?thesis using in1 by simp
    next
      case 2
      then show ?thesis using re by simp
    qed
  qed
next
  case 2
  then show ?case by simp
next
  case (3 el els)
  from "3.prems" obtain t b where el: "el = t # b"
    by (cases el) (auto simp: iterateElements.simps)
  show ?case
  proof (cases "t \<noteq> TypeEmbeddedDocument \<and> t \<noteq> TypeArray")
    case True
    with "3.prems" el obtain els'' where "iterateElements els = Inr els''" "els' = el # els''"
      by (auto simp: iterateElements.simps go_bind_eq_Inr)
    with "3.IH"(2) [OF el, of el els''] True el have "permutes (concat els) (concat els'')" by simp
    then have "permutes (el @ concat els) (el @ concat els'')" by (intro permutes_append permutes_refl)
    then show ?thesis by (simp add: \<open>els' = el # els''\<close>)
  next
    case False
    with "3.prems" el obtain val sorted els'' where
      v: "Element_Value el = Inr val"
        "sortInPlaceInternal (rv_value val) (t = TypeArray) = Inr sorted"
      and it: "iterateElements els = Inr els''"
        "els' = write_at el (length (KeyBytes el) + 2) sorted # els''"
      by (auto simp: iterateElements.simps go_bind_eq_Inr)
    have "permutes (rv_value val) sorted"
      using "3.IH"(1) [OF el _ v(1), of sorted] False v(2) by simp
    moreover obtain r where "el = take (length (KeyBytes el) + 2) el @ rv_value val @ r"
      using Element_Value_window [OF v(1)] by blast
    ultimately have "permutes el (write_at el (length (KeyBytes el) + 2) sorted)"
      using permutes_write_at by blast
    moreover have "permutes (concat els) (concat els'')"
      using "3.IH"(2) [OF el, of "write_at el (length (KeyBytes el) + 2) sorted"] False v it(1) el by simp
    ultimately show ?thesis using it(2) by (simp add: permutes_append)
  qed
qed

section \<open>Properties\<close>

lemma wf_doc_sort_fields: "wf_doc fs \<Longrightarrow> wf_doc (sort_fields fs)"
  using wf_tree_sort [of "Sub TypeEmbeddedDocument fs"] length_enc_tree_sort [of "Sub TypeEmbeddedDocument fs"]
  by (simp add: wf_doc_def fits_def tree_sort_Sub is_sub_def)

text \<open>
  C4: \<open>SortFields\<close> on the bytes of a well-formed document succeeds and leaves the encoding of
  the sorted tree: in every document at every depth the fields are stably sorted by key bytes,
  arrays keep their order (their contents are sorted), and nothing else changes.
\<close>

theorem SortFields_sorts_tree:
  assumes "wf_doc fs"
  shows "SortFields (enc_doc fs) = Inr (enc_doc (sort_fields fs))
    \<and> sorted_wrt (\<lambda>f g. compare_bytes (fst f) (fst g) \<le> 0) (sort_fields fs)
    \<and> mset (sort_fields fs) = mset (map (apsnd tree_sort) fs)"
  using SortFields_enc [OF assms] key_cmp.sorted by (simp add: sort_fields_def)

theorem SortFields_sorts_tree_witness:
  "SortFields (enc_doc [(str ''b'', Scalar TypeNull []), (str ''a'', Scalar TypeBoolean [1])])
    = Inr (enc_doc [(str ''a'', Scalar TypeBoolean [1]), (str ''b'', Scalar TypeNull [])])"
proof -
  have "wf_doc [(str ''b'', Scalar TypeNull []), (str ''a'', Scalar TypeBoolean [1])]"
    by (simp add: tree_eval)
  from SortFields_sorts_tree [OF this] show ?thesis by (simp add: sort_fields_def str_def)
qed

text \<open>
  C28: the sorted form is canonical: two documents that differ only in the order of the fields
  of their (sub)documents, with distinct keys, are sorted to the same bytes.
\<close>

theorem SortFields_canonical:
  assumes "wf_doc fs" and "wf_doc gs"
    and "reordered (Sub TypeEmbeddedDocument fs) (Sub TypeEmbeddedDocument gs)"
  shows "\<exists>d. SortFields (enc_doc fs) = Inr d \<and> SortFields (enc_doc gs) = Inr d"
  using tree_sort_reordered [OF assms(3)] SortFields_enc [OF assms(1)] SortFields_enc [OF assms(2)]
  by (simp add: tree_sort_Sub)

theorem SortFields_canonical_witness:
  "\<exists>d. SortFields (enc_doc [(str ''b'', Scalar TypeNull []), (str ''a'', Scalar TypeNull [])]) = Inr d
     \<and> SortFields (enc_doc [(str ''a'', Scalar TypeNull []), (str ''b'', Scalar TypeNull [])]) = Inr d"
proof (rule SortFields_canonical)
  show "reordered (Sub TypeEmbeddedDocument [(str ''b'', Scalar TypeNull []), (str ''a'', Scalar TypeNull [])])
      (Sub TypeEmbeddedDocument [(str ''a'', Scalar TypeNull []), (str ''b'', Scalar TypeNull [])])"
    by (rule reordered_doc [of _ _ "[(str ''b'', Scalar TypeNull []), (str ''a'', Scalar TypeNull [])]"])
       (simp_all add: str_def reordered_scalar)
qed (simp_all add: tree_eval)

text \<open>
  \<open>SortFields\<close> is idempotent: sorting its own result changes no byte.
\<close>

lemma SortFields_idempotent:
  assumes "wf_doc fs" and "SortFields (enc_doc fs) = Inr d"
  shows "SortFields d = Inr d"
  using SortFields_enc [OF assms(1)] SortFields_enc [OF wf_doc_sort_fields [OF assms(1)]] assms(2)
  by (simp add: sort_fields_idem)

lemma SortFields_idempotent_witness:
  "\<exists>d. SortFields (enc_doc [(str ''b'', Scalar TypeNull []), (str ''a'', Scalar TypeNull [])]) = Inr d
     \<and> SortFields d = Inr d"
proof -
  let ?fs = "[(str ''b'', Scalar TypeNull []), (str ''a'', Scalar TypeNull [])]"
  have wf: "wf_doc ?fs" by (simp add: tree_eval)
  show ?thesis using SortFields_enc [OF wf] SortFields_idempotent [OF wf] by blast
qed

text \<open>
  Sorting changes no lookup: on the sorted bytes \<open>LookupErr\<close> finds, for every pointer, the
  value it found before (itself sorted), or fails with the same error, even when keys repeat.
\<close>

lemma SortFields_keeps_lookups:
  assumes "wf_doc fs"
  shows "\<exists>d. SortFields (enc_doc fs) = Inr d \<and>
    LookupErr d ks = (case tree_lookup fs ks of
        Inl x \<Rightarrow> Inl x
      | Inr v \<Rightarrow> Inr \<lparr>rv_type = type_of v, rv_value = enc_val (tree_sort v)\<rparr>)"
  using SortFields_enc [OF assms] LookupErr_enc [OF wf_doc_sort_fields [OF assms], of ks]
  by (auto simp: tree_lookup_sort_fields raw_of_def split: sum.split)

lemma SortFields_keeps_lookups_witness:
  "\<exists>d. SortFields (enc_doc [(str ''b'', Scalar TypeBoolean [1]), (str ''a'', Scalar TypeNull [])]) = Inr d
     \<and> LookupErr d [str ''b''] = Inr \<lparr>rv_type = TypeBoolean, rv_value = [1]\<rparr>"
  using SortFields_keeps_lookups [of "[(str ''b'', Scalar TypeBoolean [1]), (str ''a'', Scalar TypeNull [])]"
      "[str ''b'']"]
  by (simp add: tree_eval)

text \<open>
  C29: on any buffer at all, well-formed or not, a \<open>SortFields\<close> that returns without error has only
  rearranged the bytes of the buffer: same length, same multiset of bytes, same length header.
\<close>

theorem SortFields_only_permutes:
  assumes "SortFields buf = Inr buf'"
  shows "length buf' = length buf \<and> mset buf' = mset buf \<and> take 4 buf' = take 4 buf"
  using sort_permutes(1) [of buf False buf'] assms by (simp add: SortFields_def permutes_def)

theorem SortFields_only_permutes_witness:
  "\<exists>d. SortFields (enc_doc [(str ''b'', Scalar TypeNull [])]) = Inr d
     \<and> length d = length (enc_doc [(str ''b'', Scalar TypeNull [])])"
proof -
  have "wf_doc [(str ''b'', Scalar TypeNull [])]" by (simp add: tree_eval)
  from SortFields_enc [OF this] show ?thesis using SortFields_only_permutes by blast
qed

text \<open>
  A malformed document makes \<open>SortFields\<close> panic instead of returning an error: in these
  eight bytes the only element takes the place of the terminator, the driver accepts it, and
  the size assertion fails. \<open>RawElements\<close> rejects the same bytes with an error.
\<close>

lemma SortFields_malformed_panics:
  "SortFields [8, 0, 0, 0, 8, 97, 0, 1] = Inl (Panic (AssertFailed ''scratch size''))
   \<and> RawElements [8, 0, 0, 0, 8, 97, 0, 1]
       = ([], Some (Err (Errorf ''BSON document missing trailing NUL terminator'')))"
proof
  have el: "Raw_Elements [8, 0, 0, 0, 8, 97, 0, 1] = Inr [[8, 97, 0, 1]]"
    by (simp add: Raw_Elements_def Elements_def elements_loop.simps reader_eval Element_Validate_def
        Value_Validate_def readValue_def)
  show "SortFields [8, 0, 0, 0, 8, 97, 0, 1] = Inl (Panic (AssertFailed ''scratch size''))"
    by (simp add: SortFields_def sortInPlaceInternal.simps el iterateElements.simps)
  show "RawElements [8, 0, 0, 0, 8, 97, 0, 1]
       = ([], Some (Err (Errorf ''BSON document missing trailing NUL terminator'')))"
    by (simp add: RawElements_def reader_eval)
qed

end
