(* ===== verification/Go_Utf8.thy ===== *)
theory Go_Utf8
  imports Go_Prelude "HOL-Library.Multiset"
begin

text \<open>
  The conversions \<open>[]rune(s)\<close> and \<open>string(runes)\<close> of Go, which the marshaling of regex options
  goes through: invalid UTF-8 decodes, byte by byte, to U+FFFD.
\<close>

definition cont :: "nat \<Rightarrow> bool" where
  "cont b \<longleftrightarrow> 0x80 \<le> b \<and> b \<le> 0xBF"

text \<open>The accepted ranges of the second byte of a three- and a four-byte sequence.\<close>

definition second3 :: "nat \<Rightarrow> nat \<Rightarrow> bool" where
  "second3 b0 b1 \<longleftrightarrow> (if b0 = 0xE0 then 0xA0 else 0x80) \<le> b1 \<and> b1 \<le> (if b0 = 0xED then 0x9F else 0xBF)"

definition second4 :: "nat \<Rightarrow> nat \<Rightarrow> bool" where
  "second4 b0 b1 \<longleftrightarrow> (if b0 = 0xF0 then 0x90 else 0x80) \<le> b1 \<and> b1 \<le> (if b0 = 0xF4 then 0x8F else 0xBF)"

definition DecodeRune :: "nat list \<Rightarrow> nat \<times> nat" where
  "DecodeRune p = (case p of
      [] \<Rightarrow> (0xFFFD, 0)
    | b0 # q \<Rightarrow>
        if b0 < 0x80 then (b0, 1)
        else if 0xC2 \<le> b0 \<and> b0 \<le> 0xDF \<and> q \<noteq> [] \<and> cont (q ! 0) then
          ((b0 mod 0x20) * 0x40 + q ! 0 mod 0x40, 2)
        else if 0xE0 \<le> b0 \<and> b0 \<le> 0xEF \<and> 2 \<le> length q \<and> second3 b0 (q ! 0) \<and> cont (q ! 1) then
          ((b0 mod 0x10) * 0x1000 + (q ! 0 mod 0x40) * 0x40 + q ! 1 mod 0x40, 3)
        else if 0xF0 \<le> b0 \<and> b0 \<le> 0xF4 \<and> 3 \<le> length q \<and> second4 b0 (q ! 0)
            \<and> cont (q ! 1) \<and> cont (q ! 2) then
          ((b0 mod 8) * 0x40000 + (q ! 0 mod 0x40) * 0x1000 + (q ! 1 mod 0x40) * 0x40 + q ! 2 mod 0x40, 4)
        else (0xFFFD, 1))"

lemma DecodeRune_progress: "(r, n) = DecodeRune p \<Longrightarrow> p \<noteq> [] \<Longrightarrow> 0 < n"
  by (auto simp: DecodeRune_def split: list.splits if_splits)

function decode_runes :: "nat list \<Rightarrow> nat list" where
  "decode_runes p =
     (if p = [] then [] else case DecodeRune p of (r, n) \<Rightarrow> r # decode_runes (drop n p))"
  by pat_completeness auto
termination
  by (relation "measure length") (auto dest: DecodeRune_progress)

declare decode_runes.simps [simp del]

definition encode_rune :: "nat \<Rightarrow> nat list" where
  "encode_rune r =
     (if r < 0x80 then [r]
      else if r < 0x800 then [0xC0 + r div 0x40, 0x80 + r mod 0x40]
      else if r < 0x10000 then [0xE0 + r div 0x1000, 0x80 + r div 0x40 mod 0x40, 0x80 + r mod 0x40]
      else [0xF0 + r div 0x40000, 0x80 + r div 0x1000 mod 0x40, 0x80 + r div 0x40 mod 0x40, 0x80 + r mod 0x40])"

definition runes_of_string :: "bytes \<Rightarrow> nat list" where
  "runes_of_string s = decode_runes (map unat s)"

definition string_of_runes :: "nat list \<Rightarrow> bytes" where
  "string_of_runes rs = map of_nat (concat (map encode_rune rs))"

text \<open>\<open>opts := []rune(options); slices.Sort(opts); string(opts)\<close>.\<close>

definition sort_options :: "bytes \<Rightarrow> bytes" where
  "sort_options s = string_of_runes (sort (runes_of_string s))"

section \<open>ASCII strings\<close>

definition ascii :: "bytes \<Rightarrow> bool" where
  "ascii s \<longleftrightarrow> (\<forall>b \<in> set s. unat b < 0x80)"

lemma decode_runes_ascii: "\<forall>b \<in> set p. b < 0x80 \<Longrightarrow> decode_runes p = p"
proof (induction p)
  case Nil
  then show ?case by (simp add: decode_runes.simps)
next
  case (Cons b p)
  then show ?case by (subst decode_runes.simps) (simp add: DecodeRune_def)
qed

lemma encode_runes_ascii: "\<forall>b \<in> set p. b < 0x80 \<Longrightarrow> concat (map encode_rune p) = p"
  by (induction p) (simp_all add: encode_rune_def)

text \<open>On ASCII options the detour through runes is a sort of the bytes.\<close>

lemma sort_options_ascii:
  assumes "ascii s"
  shows "sort_options s = map of_nat (sort (map unat s))"
  using assms by (simp add: sort_options_def runes_of_string_def string_of_runes_def ascii_def
      decode_runes_ascii encode_runes_ascii)

lemma ascii_sort_options:
  assumes "ascii s"
  shows "mset (sort_options s) = mset s" and "ascii (sort_options s)"
proof -
  show m: "mset (sort_options s) = mset s"
    unfolding sort_options_ascii [OF assms] mset_map mset_sort
    by (simp add: image_mset.compositionality comp_def)
  then have "set (sort_options s) = set s" by (rule mset_eq_setD)
  then show "ascii (sort_options s)" using assms by (simp add: ascii_def)
qed

lemma sort_options_idem:
  assumes "ascii s"
  shows "sort_options (sort_options s) = sort_options s"
proof -
  have "map unat (sort_options s) = sort (map unat s)"
    using assms unfolding sort_options_ascii [OF assms]
    by (simp add: comp_def unat_of_nat) (rule map_idI, auto simp: ascii_def)
  then show ?thesis
    using sort_options_ascii [OF ascii_sort_options(2) [OF assms]] sort_options_ascii [OF assms]
    by (simp add: sorted_sort_id)
qed

end
