(* ===== verification/Bson_Value.thy ===== *)
theory Bson_Value
  imports Bson_Raw Go_Utf8
begin

text \<open>
  \<open>bsontools/raw_value.go\<close>: the casts \<open>RawValueTo\<close> from a BSON value to a Go value and back,
  \<open>ToRawValue\<close>, with their special cases for strings, integers, timestamps and binaries.
\<close>

section \<open>Go values\<close>

text \<open>
  The Go types of the two type constraints, the containers \<open>bson.D\<close> and \<open>bson.A\<close> and \<open>nil\<close> that
  a value of type \<open>any\<close> adds, and \<open>GoOther\<close> for a value of any other type. A float64 is its 64
  bits; a string is its bytes; a \<open>time.Time\<close> is its seconds and nanoseconds.
\<close>

datatype goval =
    GoFloat64 i64 | GoString bytes | GoRaw bytes | GoRawArray bytes
  | GoBinary byte bytes | GoUndefined | GoObjectID bytes | GoBool bool | GoDateTime i64 | GoNull
  | GoRegex bytes bytes | GoDBPointer bytes bytes | GoJavaScript bytes | GoSymbol bytes
  | GoCodeWithScope bytes goval | GoInt32 i32 | GoTimestamp i32 i32 | GoInt64 i64
  | GoDecimal128 i64 i64 | GoMinKey | GoMaxKey | GoInt i64 | GoTime int int
  | GoD "(bytes \<times> goval) list" | GoA "goval list" | GoNil | GoOther nat

datatype gotype =
    TFloat64 | TString | TRaw | TRawArray | TBinary | TUndefined | TObjectID | TBool | TDateTime
  | TNull | TRegex | TDBPointer | TJavaScript | TSymbol | TCodeWithScope | TInt32 | TTimestamp
  | TInt64 | TInt | TDecimal128 | TMaxKey | TMinKey | TTime

section \<open>The driver's typed readers\<close>

text \<open>\<open>xOK()\<close>: the value has BSON type \<open>t\<close> and its bytes start with such a value.\<close>

definition valueOK :: "byte \<Rightarrow> (bytes \<Rightarrow> ('a \<times> bytes) option) \<Rightarrow> RawValue \<Rightarrow> 'a option" where
  "valueOK t reader v = (if rv_type v \<noteq> t then None else map_option fst (reader (rv_value v)))"

definition TimestampOK :: "RawValue \<Rightarrow> (i32 \<times> i32) option" where
  "TimestampOK v = valueOK TypeTimestamp (\<lambda>b. map_option (\<lambda>(t, i, r). ((t, i), r)) (ReadTimestamp b)) v"

definition BinaryOK :: "RawValue \<Rightarrow> (byte \<times> bytes) option" where
  "BinaryOK v = valueOK TypeBinary (\<lambda>b. map_option (\<lambda>(t, d, r). ((t, d), r)) (ReadBinary b)) v"

definition RegexOK :: "RawValue \<Rightarrow> (bytes \<times> bytes) option" where
  "RegexOK v = valueOK TypeRegex (\<lambda>b. map_option (\<lambda>(p, q, r). ((p, q), r)) (ReadRegex b)) v"

definition DBPointerOK :: "RawValue \<Rightarrow> (bytes \<times> bytes) option" where
  "DBPointerOK v = valueOK TypeDBPointer (\<lambda>b. map_option (\<lambda>(p, q, r). ((p, q), r)) (ReadDBPointer b)) v"

definition CodeWithScopeOK :: "RawValue \<Rightarrow> (bytes \<times> bytes) option" where
  "CodeWithScopeOK v =
     valueOK TypeCodeWithScope (\<lambda>b. map_option (\<lambda>(p, q, r). ((p, q), r)) (ReadCodeWithScope b)) v"

definition Decimal128OK :: "RawValue \<Rightarrow> (i64 \<times> i64) option" where
  "Decimal128OK v = valueOK TypeDecimal128 (\<lambda>b. map_option (\<lambda>(h, l, r). ((h, l), r)) (ReadDecimal128 b)) v"

text \<open>\<open>AsInt64OK\<close> on an int32 or int64, the only types its callers here pass it.\<close>

definition AsInt64OK :: "RawValue \<Rightarrow> i64 option" where
  "AsInt64OK v =
     (if rv_type v = TypeInt32 then map_option (\<lambda>(x, _). word_of_int (sint x)) (Read32 (rv_value v))
      else if rv_type v = TypeInt64 then map_option fst (Read64 (rv_value v))
      else None)"

text \<open>\<open>time.Unix(dt/1000, dt%1000*1000000)\<close>: division truncates, negative nanoseconds borrow.\<close>

definition time_of_millis :: "i64 \<Rightarrow> goval" where
  "time_of_millis dt = (let ms = sint dt in GoTime (ms div 1000) (ms mod 1000 * 1000000))"

section \<open>RawValueTo\<close>

definition cast :: "string \<Rightarrow> RawValue \<Rightarrow> goval option \<Rightarrow> goval res" where
  "cast T v r = (case r of Some x \<Rightarrow> Inr x | None \<Rightarrow> Inl (Err (CannotCast T (rv_type v))))"

fun RawValueTo :: "gotype \<Rightarrow> RawValue \<Rightarrow> goval res" where
  "RawValueTo TFloat64 v = cast ''float64'' v (map_option GoFloat64 (valueOK TypeDouble Read64 v))"
| "RawValueTo TString v = cast ''string'' v (map_option GoString (valueOK TypeString readstring v))"
| "RawValueTo TRaw v = cast ''bson.Raw'' v (map_option GoRaw (valueOK TypeEmbeddedDocument readLengthBytes v))"
| "RawValueTo TRawArray v = cast ''bson.RawArray'' v (map_option GoRawArray (valueOK TypeArray readLengthBytes v))"
| "RawValueTo TBinary v = cast ''bson.Binary'' v (map_option (\<lambda>(t, d). GoBinary t d) (BinaryOK v))"
| "RawValueTo TUndefined v =
     cast ''bson.Undefined'' v (if rv_type v = TypeUndefined then Some GoUndefined else None)"
| "RawValueTo TObjectID v = cast ''bson.ObjectID'' v (map_option GoObjectID (valueOK TypeObjectID ReadObjectID v))"
| "RawValueTo TBool v = cast ''bool'' v (map_option GoBool (valueOK TypeBoolean ReadBoolean v))"
| "RawValueTo TDateTime v = cast ''bson.DateTime'' v (map_option GoDateTime (valueOK TypeDateTime Read64 v))"
| "RawValueTo TNull v = cast ''bson.Null'' v (if rv_type v = TypeNull then Some GoNull else None)"
| "RawValueTo TRegex v = cast ''bson.Regex'' v (map_option (\<lambda>(p, q). GoRegex p q) (RegexOK v))"
| "RawValueTo TDBPointer v = cast ''bson.DBPointer'' v (map_option (\<lambda>(p, q). GoDBPointer p q) (DBPointerOK v))"
| "RawValueTo TJavaScript v = cast ''bson.JavaScript'' v (map_option GoJavaScript (valueOK TypeJavaScript readstring v))"
| "RawValueTo TSymbol v = cast ''bson.Symbol'' v (map_option GoSymbol (valueOK TypeSymbol readstring v))"
| "RawValueTo TCodeWithScope v =
     cast ''bson.CodeWithScope'' v (map_option (\<lambda>(c, s). GoCodeWithScope c (GoRaw s)) (CodeWithScopeOK v))"
| "RawValueTo TInt32 v = cast ''int32'' v (map_option GoInt32 (valueOK TypeInt32 Read32 v))"
| "RawValueTo TTimestamp v = cast ''bson.Timestamp'' v (map_option (\<lambda>(t, i). GoTimestamp t i) (TimestampOK v))"
| "RawValueTo TInt64 v = cast ''int64'' v (map_option GoInt64 (valueOK TypeInt64 Read64 v))"
| "RawValueTo TInt v =
     (if rv_type v = TypeInt32 \<or> rv_type v = TypeInt64 then
        (case AsInt64OK v of
           None \<Rightarrow> Inl (Panic (Panicked ''InsufficientBytesError''))   \<comment> \<open>\<open>AsInt64\<close>, not \<open>AsInt64OK\<close>\<close>
         | Some x \<Rightarrow> Inr (GoInt x))
      else Inl (Err (CannotCast ''int'' (rv_type v))))"
| "RawValueTo TDecimal128 v = cast ''bson.Decimal128'' v (map_option (\<lambda>(h, l). GoDecimal128 h l) (Decimal128OK v))"
| "RawValueTo TMaxKey v = cast ''bson.MaxKey'' v (if rv_type v = TypeMaxKey then Some GoMaxKey else None)"
| "RawValueTo TMinKey v = cast ''bson.MinKey'' v (if rv_type v = TypeMinKey then Some GoMinKey else None)"
| "RawValueTo TTime v = cast ''time.Time'' v (map_option time_of_millis (valueOK TypeDateTime Read64 v))"

definition RawValueToString :: "RawValue \<Rightarrow> bytes res" where
  "RawValueToString v = (case valueOK TypeString readstring v of
      Some s \<Rightarrow> Inr s | None \<Rightarrow> Inl (Err (CannotCast ''string'' (rv_type v))))"

definition RawValueToInt64 :: "RawValue \<Rightarrow> i64 res" where
  "RawValueToInt64 v = (case valueOK TypeInt64 Read64 v of
      Some x \<Rightarrow> Inr x | None \<Rightarrow> Inl (Err (CannotCast ''int64'' (rv_type v))))"

definition RawValueToInt :: "RawValue \<Rightarrow> i64 res" where
  "RawValueToInt v =
     (case (if rv_type v = TypeInt32 \<or> rv_type v = TypeInt64 then AsInt64OK v else None) of
        Some x \<Rightarrow> Inr x      \<comment> \<open>\<open>safecast.Convert[int]\<close> of an int64 is the identity\<close>
      | None \<Rightarrow> Inl (Err (CannotCast ''int'' (rv_type v))))"

definition RawValueToTimestamp :: "RawValue \<Rightarrow> (i32 \<times> i32) res" where
  "RawValueToTimestamp v = (case TimestampOK v of
      Some x \<Rightarrow> Inr x | None \<Rightarrow> Inl (Err (CannotCast ''bson.Timestamp'' (rv_type v))))"

definition RawValueToBinary :: "RawValue \<Rightarrow> (byte \<times> bytes) res" where
  "RawValueToBinary v = (case BinaryOK v of
      Some x \<Rightarrow> Inr x | None \<Rightarrow> Inl (Err (CannotCast ''bson.Binary'' (rv_type v))))"

definition RawValueToStringBytes :: "RawValue \<Rightarrow> bytes res" where
  "RawValueToStringBytes v =
     (if rv_type v = TypeString then
        if length (rv_value v) < 5 then Inl (Err (Errorf ''too few bytes in BSON string''))
        else if length (rv_value v) - 4 \<noteq> le_nat (take 4 (rv_value v)) then
          Inl (Err (Errorf ''BSON string header says another length''))
        else Inr (take (length (rv_value v) - 5) (drop 4 (rv_value v)))
      else Inl (Err (Errorf ''expected BSON string'')))"

section \<open>ToRawValue\<close>

definition i32ToRawValue :: "i32 \<Rightarrow> RawValue" where
  "i32ToRawValue x = \<lparr>rv_type = TypeInt32, rv_value = Append32 [] x\<rparr>"

definition i64ToRawValue :: "i64 \<Rightarrow> RawValue" where
  "i64ToRawValue x = \<lparr>rv_type = TypeInt64, rv_value = Append64 [] x\<rparr>"

text \<open>
  \<open>ToRawValue\<close> panics in \<open>AppendRegex\<close> on a zero byte, and on a value whose type is outside its
  constraint, which a Go program cannot pass.
\<close>

fun ToRawValue :: "goval \<Rightarrow> RawValue res" where
  "ToRawValue (GoFloat64 x) = Inr \<lparr>rv_type = TypeDouble, rv_value = Append64 [] x\<rparr>"
| "ToRawValue (GoString s) = Inr \<lparr>rv_type = TypeString, rv_value = appendstring [] s\<rparr>"
| "ToRawValue (GoRaw d) = Inr \<lparr>rv_type = TypeEmbeddedDocument, rv_value = d\<rparr>"
| "ToRawValue (GoRawArray d) = Inr \<lparr>rv_type = TypeArray, rv_value = d\<rparr>"
| "ToRawValue (GoBinary t d) = Inr \<lparr>rv_type = TypeBinary, rv_value = AppendBinary [] t d\<rparr>"
| "ToRawValue GoUndefined = Inr \<lparr>rv_type = TypeUndefined, rv_value = []\<rparr>"
| "ToRawValue (GoObjectID oid) = Inr \<lparr>rv_type = TypeObjectID, rv_value = oid\<rparr>"
| "ToRawValue (GoBool b) = Inr \<lparr>rv_type = TypeBoolean, rv_value = AppendBoolean [] b\<rparr>"
| "ToRawValue (GoDateTime x) = Inr \<lparr>rv_type = TypeDateTime, rv_value = Append64 [] x\<rparr>"
| "ToRawValue GoNull = Inr \<lparr>rv_type = TypeNull, rv_value = []\<rparr>"
| "ToRawValue (GoRegex p q) =
     go_bind (AppendRegex [] p (sort_options q)) (\<lambda>b. Inr \<lparr>rv_type = TypeRegex, rv_value = b\<rparr>)"
| "ToRawValue (GoDBPointer db ptr) = Inr \<lparr>rv_type = TypeDBPointer, rv_value = AppendDBPointer [] db ptr\<rparr>"
| "ToRawValue (GoJavaScript s) = Inr \<lparr>rv_type = TypeJavaScript, rv_value = appendstring [] s\<rparr>"
| "ToRawValue (GoSymbol s) = Inr \<lparr>rv_type = TypeSymbol, rv_value = appendstring [] s\<rparr>"
| "ToRawValue (GoInt32 x) = Inr (i32ToRawValue x)"
| "ToRawValue (GoTimestamp t i) = Inr \<lparr>rv_type = TypeTimestamp, rv_value = AppendTimestamp [] t i\<rparr>"
| "ToRawValue (GoInt64 x) = Inr (i64ToRawValue x)"
| "ToRawValue (GoDecimal128 h l) = Inr \<lparr>rv_type = TypeDecimal128, rv_value = AppendDecimal128 [] h l\<rparr>"
| "ToRawValue GoMaxKey = Inr \<lparr>rv_type = TypeMaxKey, rv_value = []\<rparr>"
| "ToRawValue GoMinKey = Inr \<lparr>rv_type = TypeMinKey, rv_value = []\<rparr>"
| "ToRawValue (GoInt x) =
     (if sint x < - 2147483648 \<or> 2147483647 < sint x then Inr (i64ToRawValue x)
      else Inr (i32ToRawValue (word_of_int (sint x))))"
| "ToRawValue _ = Inl (Panic (Panicked ''Unrecognized Go type''))"

section \<open>The contract of an appender and its reader\<close>

text \<open>
  \<open>codec\<close>: what an appender writes, its reader returns, whatever follows. \<open>value_codec\<close> adds
  that the bytes are a complete BSON value of the type \<open>t\<close>.
\<close>

locale codec =
  fixes enc :: "'a \<Rightarrow> bytes"
    and dec :: "bytes \<Rightarrow> ('a \<times> bytes) option"
    and ok :: "'a \<Rightarrow> bool"
  assumes dec_enc: "ok x \<Longrightarrow> dec (enc x @ rest) = Some (x, rest)"
begin

lemma dec_all: "ok x \<Longrightarrow> dec (enc x) = Some (x, [])"
  using dec_enc [of x "[]"] by simp

lemma unique: "ok x \<Longrightarrow> ok y \<Longrightarrow> enc x @ r = enc y @ s \<Longrightarrow> x = y \<and> r = s"
  by (metis dec_enc option.inject prod.inject)

end

locale value_codec = codec +
  fixes t :: byte
  assumes not_sub: "\<not> is_sub t"
    and whole: "ok x \<Longrightarrow> valueLength (enc x) t = Some (of_nat (length (enc x)))"
begin

lemma wf: "ok x \<Longrightarrow> wf_scalar t (enc x)"
  by (simp add: wf_scalar_def not_sub whole)

lemma reads: "ok x \<Longrightarrow> valueOK t dec \<lparr>rv_type = t, rv_value = enc x\<rparr> = Some x"
  by (simp add: valueOK_def dec_all)

end

definition short :: "bytes \<Rightarrow> bool" where
  "short b \<longleftrightarrow> length b < 2147483600"

lemma length_Append [simp]: "length (Append32 b x) = length b + 4" "length (Append64 b y) = length b + 8"
  by (simp_all add: Append32_def Append64_def)

lemma ReadLength_appendLength:
  assumes "n < 2147483648"
  shows "ReadLength (appendLength [] (of_nat n) @ rest) = Some (of_nat n, rest)"
  using ReadLength_le [OF assms, of rest] assms
  by (simp add: appendLength_def Append32_def unat_of_nat_32)

interpretation double_codec: value_codec "Append64 []" Read64 "\<lambda>_. True" TypeDouble
  by unfold_locales (simp_all add: Append64_def is_sub_def valueLength_def)

interpretation datetime_codec: value_codec "Append64 []" Read64 "\<lambda>_. True" TypeDateTime
  by unfold_locales (simp_all add: Append64_def is_sub_def valueLength_def)

interpretation int64_codec: value_codec "Append64 []" Read64 "\<lambda>_. True" TypeInt64
  by unfold_locales (simp_all add: Append64_def is_sub_def valueLength_def)

interpretation int32_codec: value_codec "Append32 []" Read32 "\<lambda>_. True" TypeInt32
  by unfold_locales (simp_all add: Append32_def is_sub_def valueLength_def)

lemma readstring_appendstring:
  assumes "short s"
  shows "readstring (appendstring [] s @ rest) = Some (s, rest)"
proof -
  define w where "w = (of_nat (length s + 1) :: i32)"
  have n: "length s + 1 < 2147483648" using assms by (simp add: short_def)
  have w: "sint w = int (length s) + 1"
    using sint_of_nat_32 [OF n] by (simp add: w_def)
  then have "w \<noteq> 0" by auto
  moreover have "drop 4 (appendstring [] s @ rest) = s @ 0 # rest"
    by (simp add: appendstring_def appendLength_def Append32_def)
  moreover have "ReadLength (appendstring [] s @ rest) = Some (w, s @ 0 # rest)"
    using ReadLength_appendLength [OF n, of "s @ 0 # rest"] unfolding w_def appendstring_def by simp
  moreover have "nat (int (length s) + 1) = Suc (length s)" by simp
  ultimately show ?thesis using w by (simp add: readstring_def)
qed

lemma valueLength_appendstring:
  assumes "short s" and "t = TypeString \<or> t = TypeJavaScript \<or> t = TypeSymbol"
  shows "valueLength (appendstring [] s) t = Some (of_nat (length (appendstring [] s)))"
proof -
  have "ReadLength (appendstring [] s) = Some (of_nat (length s + 1), s @ [0])"
    using ReadLength_appendLength [of "length s + 1" "s @ [0]"] assms(1)
    by (simp add: appendstring_def short_def)
  then show ?thesis
    using assms(2) by (auto simp: valueLength_def appendstring_def appendLength_def)
qed

interpretation string_codec: value_codec "appendstring []" readstring short TypeString
  by unfold_locales (simp_all add: readstring_appendstring valueLength_appendstring is_sub_def)

interpretation javascript_codec: value_codec "appendstring []" readstring short TypeJavaScript
  by unfold_locales (simp_all add: readstring_appendstring valueLength_appendstring is_sub_def)

interpretation symbol_codec: value_codec "appendstring []" readstring short TypeSymbol
  by unfold_locales (simp_all add: readstring_appendstring valueLength_appendstring is_sub_def)

interpretation objectid_codec: value_codec "\<lambda>x. x" ReadObjectID "\<lambda>x. length x = 12" TypeObjectID
  by unfold_locales (simp_all add: ReadObjectID_def is_sub_def valueLength_def)

interpretation boolean_codec: value_codec "AppendBoolean []" ReadBoolean "\<lambda>_. True" TypeBoolean
  by unfold_locales (simp_all add: AppendBoolean_def ReadBoolean_def is_sub_def valueLength_def)

interpretation timestamp_codec: value_codec "\<lambda>(t, i). AppendTimestamp [] t i"
  "\<lambda>b. map_option (\<lambda>(t, i, r). ((t, i), r)) (ReadTimestamp b)" "\<lambda>_. True" TypeTimestamp
  by unfold_locales (auto simp: AppendTimestamp_def ReadTimestamp_def is_sub_def valueLength_def
      Append32_def [of "le_bytes _ _"] Append32_def [of "[]"] Append32_def)

interpretation decimal_codec: value_codec "\<lambda>(h, l). AppendDecimal128 [] h l"
  "\<lambda>b. map_option (\<lambda>(h, l, r). ((h, l), r)) (ReadDecimal128 b)" "\<lambda>_. True" TypeDecimal128
  by unfold_locales (auto simp: AppendDecimal128_def ReadDecimal128_def is_sub_def valueLength_def
      Append64_def)

lemma ReadLength_Append32:
  "n < 2147483648 \<Longrightarrow> ReadLength (Append32 [] (of_nat n) @ rest) = Some (of_nat n, rest)"
  using ReadLength_appendLength by (simp add: appendLength_def)

lemma sint_short: "n < 2147483648 \<Longrightarrow> nat (sint (of_nat n :: i32)) = n"
  by (simp add: sint_of_nat_32)

lemma ReadBinary_AppendBinary:
  assumes "short d"
  shows "ReadBinary (AppendBinary [] t d @ rest) = Some (t, d, rest)"
proof -
  have n: "length d < 2147483648" "length d + 4 < 2147483648" using assms by (simp_all add: short_def)
  note s = sint_of_nat_32 [OF n(1)] sint_of_nat_32 [OF n(2)]
  show ?thesis
  proof (cases "t = 2")
    case True
    have "AppendBinary [] t d @ rest = Append32 [] (of_nat (length d + 4)) @ t # Append32 [] (of_nat (length d)) @ d @ rest"
      using True by (simp add: AppendBinary_def appendLength_def Append32_def)
    then show ?thesis
      using True s by (simp add: ReadBinary_def ReadLength_Append32 [OF n(1)] ReadLength_Append32 [OF n(2)] del: of_nat_add)
  next
    case False
    have "AppendBinary [] t d @ rest = Append32 [] (of_nat (length d)) @ t # d @ rest"
      using False by (simp add: AppendBinary_def appendLength_def Append32_def)
    then show ?thesis
      using False s by (simp add: ReadBinary_def ReadLength_Append32 [OF n(1)])
  qed
qed

lemma valueLength_AppendBinary:
  assumes "short d"
  shows "valueLength (AppendBinary [] t d) TypeBinary = Some (of_nat (length (AppendBinary [] t d)))"
proof -
  have n: "length d < 2147483648" "length d + 4 < 2147483648" using assms by (simp_all add: short_def)
  have v: "valueLength p TypeBinary = map_option (\<lambda>(l, _). l + (4 + 1)) (ReadLength p)" for p
    by (simp add: valueLength_def)
  show ?thesis
  proof (cases "t = 2")
    case True
    have "AppendBinary [] t d = Append32 [] (of_nat (length d + 4)) @ t # Append32 [] (of_nat (length d)) @ d"
      using True by (simp add: AppendBinary_def appendLength_def Append32_def)
    then show ?thesis unfolding v by (simp only: ReadLength_Append32 [OF n(2)]) simp
  next
    case False
    have "AppendBinary [] t d = Append32 [] (of_nat (length d)) @ t # d"
      using False by (simp add: AppendBinary_def appendLength_def Append32_def)
    then show ?thesis unfolding v by (simp only: ReadLength_Append32 [OF n(1)]) simp
  qed
qed

interpretation binary_codec: value_codec "\<lambda>(t, d). AppendBinary [] t d"
  "\<lambda>b. map_option (\<lambda>(t, d, r). ((t, d), r)) (ReadBinary b)" "\<lambda>(t, d). short d" TypeBinary
  by unfold_locales (auto simp: ReadBinary_AppendBinary valueLength_AppendBinary is_sub_def)

definition regex_bytes :: "bytes \<times> bytes \<Rightarrow> bytes" where
  "regex_bytes r = fst r @ 0 # snd r @ [0]"

definition regex_ok :: "bytes \<times> bytes \<Rightarrow> bool" where
  "regex_ok r \<longleftrightarrow> isValidCString (fst r) \<and> isValidCString (snd r)"

lemma AppendRegex_ok: "regex_ok (p, q) \<Longrightarrow> AppendRegex [] p q = Inr (regex_bytes (p, q))"
  by (simp add: AppendRegex_def regex_ok_def regex_bytes_def)

lemma IndexByte_cstring: "isValidCString p \<Longrightarrow> IndexByte (p @ 0 # r) 0 = Some (length p)"
  by (simp add: isValidCString_def IndexByte_None IndexByte_append_notin)

interpretation regex_codec: value_codec regex_bytes
  "\<lambda>b. map_option (\<lambda>(p, q, r). ((p, q), r)) (ReadRegex b)" regex_ok TypeRegex
  by unfold_locales (auto simp: regex_ok_def regex_bytes_def ReadRegex_def ReadCString_def IndexByte_cstring
      valueLength_def is_sub_def)

interpretation dbpointer_codec: value_codec "\<lambda>(ns, oid). AppendDBPointer [] ns oid"
  "\<lambda>b. map_option (\<lambda>(p, q, r). ((p, q), r)) (ReadDBPointer b)"
  "\<lambda>(ns, oid). short ns \<and> length oid = 12" TypeDBPointer
proof (unfold_locales, goal_cases)
  case (1 x rest)
  then show ?case
    by (cases x) (auto simp: AppendDBPointer_def ReadDBPointer_def readstring_appendstring ReadObjectID_def)
next
  case 2
  then show ?case by (simp add: is_sub_def)
next
  case (3 x)
  then obtain ns oid where x: "x = (ns, oid)" "short ns" "length oid = 12" by (cases x) auto
  have "ReadLength (AppendDBPointer [] ns oid) = Some (of_nat (length ns + 1), ns @ 0 # oid)"
    using ReadLength_appendLength [of "length ns + 1" "ns @ 0 # oid"] x(2)
    by (simp add: AppendDBPointer_def appendstring_def short_def)
  then show ?case
    using x by (simp add: valueLength_def AppendDBPointer_def appendstring_def appendLength_def)
qed

definition cws_ok :: "bytes \<times> bytes \<Rightarrow> bool" where
  "cws_ok x \<longleftrightarrow> short (fst x @ snd x) \<and> readLengthBytes (snd x) = Some (snd x, [])"

lemma readLengthBytes_append:
  assumes "readLengthBytes d = Some (d, [])"
  shows "readLengthBytes (d @ rest) = Some (d, rest)"
proof -
  from assms obtain l r where l: "ReadLength d = Some (l, r)" "\<not> sint l < 4" "sint l = int (length d)"
    by (auto simp: readLengthBytes_def split: option.splits if_splits)
  then show ?thesis
    using ReadLength_append [OF l(1), of rest] by (simp add: readLengthBytes_def)
qed

interpretation cws_codec: value_codec "\<lambda>(code, scope). AppendCodeWithScope [] code scope"
  "\<lambda>b. map_option (\<lambda>(p, q, r). ((p, q), r)) (ReadCodeWithScope b)" cws_ok TypeCodeWithScope
proof (unfold_locales, goal_cases)
  case (1 x rest)
  then obtain c s where x: "x = (c, s)" "short c" "length c + length s < 2147483600"
    and s: "readLengthBytes s = Some (s, [])"
    by (cases x) (auto simp: cws_ok_def short_def)
  let ?n = "4 + 4 + length c + 1 + length s"
  have n: "?n < 2147483648" using x(3) by simp
  have "AppendCodeWithScope [] c s @ rest = appendLength [] (of_nat ?n) @ appendstring [] c @ s @ rest"
    by (simp add: AppendCodeWithScope_def appendstring_def appendLength_def Append32_def)
  moreover have "length (appendstring [] c) = length c + 5"
    by (simp add: appendstring_def appendLength_def)
  ultimately show ?case
    using ReadLength_appendLength [OF n, of "appendstring [] c @ s @ rest"] sint_of_nat_32 [OF n]
      readLengthBytes_append [OF s, of rest] readstring_appendstring [OF x(2), of "s @ rest"]
    by (simp add: x(1) ReadCodeWithScope_def appendLength_def del: of_nat_add of_nat_Suc)
next
  case 2
  then show ?case by (simp add: is_sub_def)
next
  case (3 x)
  then obtain c s where x: "x = (c, s)" "length c + length s < 2147483600"
    by (cases x) (auto simp: cws_ok_def short_def)
  let ?n = "4 + 4 + length c + 1 + length s"
  have n: "?n < 2147483648" using x(2) by simp
  have "AppendCodeWithScope [] c s = appendLength [] (of_nat ?n) @ appendstring [] c @ s"
    by (simp add: AppendCodeWithScope_def appendstring_def appendLength_def Append32_def)
  then show ?case
    using ReadLength_appendLength [OF n, of "appendstring [] c @ s"]
    by (simp add: x(1) valueLength_def appendLength_def appendstring_def)
qed

section \<open>Round trip of the casts\<close>

text \<open>The Go values \<open>ToRawValue\<close> accepts, the type to cast back to, and the value that comes back.\<close>

fun go_type :: "goval \<Rightarrow> gotype" where
  "go_type (GoFloat64 _) = TFloat64" | "go_type (GoString _) = TString" | "go_type (GoRaw _) = TRaw"
| "go_type (GoRawArray _) = TRawArray" | "go_type (GoBinary _ _) = TBinary"
| "go_type GoUndefined = TUndefined" | "go_type (GoObjectID _) = TObjectID"
| "go_type (GoBool _) = TBool" | "go_type (GoDateTime _) = TDateTime" | "go_type GoNull = TNull"
| "go_type (GoRegex _ _) = TRegex" | "go_type (GoDBPointer _ _) = TDBPointer"
| "go_type (GoJavaScript _) = TJavaScript" | "go_type (GoSymbol _) = TSymbol"
| "go_type (GoCodeWithScope _ _) = TCodeWithScope" | "go_type (GoInt32 _) = TInt32"
| "go_type (GoTimestamp _ _) = TTimestamp" | "go_type (GoInt64 _) = TInt64"
| "go_type (GoDecimal128 _ _) = TDecimal128" | "go_type GoMinKey = TMinKey"
| "go_type GoMaxKey = TMaxKey" | "go_type (GoInt _) = TInt" | "go_type (GoTime _ _) = TTime"
| "go_type _ = TNull"

fun marshalable :: "goval \<Rightarrow> bool" where
  "marshalable (GoString s) = short s"
| "marshalable (GoRaw d) = (readLengthBytes d = Some (d, []))"
| "marshalable (GoRawArray d) = (readLengthBytes d = Some (d, []))"
| "marshalable (GoBinary t d) = short d"
| "marshalable (GoObjectID oid) = (length oid = 12)"
| "marshalable (GoRegex p q) = (regex_ok (p, q) \<and> ascii q)"
| "marshalable (GoDBPointer ns oid) = (short ns \<and> length oid = 12)"
| "marshalable (GoJavaScript s) = short s"
| "marshalable (GoSymbol s) = short s"
| "marshalable (GoCodeWithScope _ _) = False"
| "marshalable (GoTime _ _) = False" | "marshalable (GoD _) = False" | "marshalable (GoA _) = False"
| "marshalable GoNil = False" | "marshalable (GoOther _) = False"
| "marshalable _ = True"

fun canonical_go :: "goval \<Rightarrow> goval" where
  "canonical_go (GoRegex p q) = GoRegex p (sort_options q)"
| "canonical_go v = v"

lemma regex_ok_sorted: "regex_ok (p, q) \<Longrightarrow> ascii q \<Longrightarrow> regex_ok (p, sort_options q)"
  using ascii_sort_options(1) [of q] mset_eq_setD
  by (fastforce simp: regex_ok_def isValidCString_def IndexByte_None)

lemma AsInt64OK_i64 [simp]: "AsInt64OK (i64ToRawValue x) = Some x"
  using double_codec.dec_all by (simp add: AsInt64OK_def i64ToRawValue_def)

lemma AsInt64OK_i32 [simp]: "AsInt64OK (i32ToRawValue x) = Some (word_of_int (sint x))"
  using int32_codec.dec_all by (simp add: AsInt64OK_def i32ToRawValue_def)

lemma int32_in_range:
  assumes "- 2147483648 \<le> k" and "k \<le> 2147483647"
  shows "sint (word_of_int k :: i32) = k"
proof -
  have "signed_take_bit 31 k = k"
    by (rule signed_take_bit_int_eq_self) (use assms in auto)
  moreover have "sint (word_of_int k :: i32) = signed_take_bit 31 k"
    by (simp only: sint_sbintrunc' len_num1 len_bit0) simp
  ultimately show ?thesis by simp
qed

lemma int_through_int32:
  assumes "- 2147483648 \<le> sint (x :: i64)" and "sint x \<le> 2147483647"
  shows "(scast (scast x :: i32) :: i64) = x"
proof -
  have "sint (scast x :: i32) = sint x" using int32_in_range [OF assms] by simp
  then have "(word_of_int (sint (scast x :: i32)) :: i64) = word_of_int (sint x)" by (simp only:)
  then show ?thesis by simp
qed

lemmas cast_reads =
  double_codec.reads datetime_codec.reads int64_codec.reads int32_codec.reads string_codec.reads
  javascript_codec.reads symbol_codec.reads objectid_codec.reads boolean_codec.reads
  timestamp_codec.reads [of "(_, _)", simplified] decimal_codec.reads [of "(_, _)", simplified]
  binary_codec.reads [of "(_, _)", simplified] dbpointer_codec.reads [of "(_, _)", simplified]
  regex_codec.reads

lemma valueOK_doc:
  "readLengthBytes d = Some (d, []) \<Longrightarrow> valueOK t readLengthBytes \<lparr>rv_type = t, rv_value = d\<rparr> = Some d"
  by (simp add: valueOK_def)

lemma cast_round_trip:
  assumes "marshalable v"
  shows "\<exists>rv. ToRawValue v = Inr rv \<and> RawValueTo (go_type v) rv = Inr (canonical_go v)"
proof (cases v)
  case (GoRegex p q)
  then have "regex_ok (p, sort_options q)" using assms by (simp add: regex_ok_sorted)
  then show ?thesis
    using GoRegex regex_codec.reads [of "(p, sort_options q)"]
    by (simp add: AppendRegex_ok RegexOK_def cast_def)
next
  case (GoInt x)
  have r: "rv_type (i64ToRawValue x) = TypeInt64" "rv_type (i32ToRawValue y) = TypeInt32" for y
    by (simp_all add: i64ToRawValue_def i32ToRawValue_def)
  then show ?thesis using GoInt by (simp add: int_through_int32)
qed (use assms in \<open>auto simp: cast_def cast_reads valueOK_doc BinaryOK_def DBPointerOK_def TimestampOK_def
    Decimal128OK_def i32ToRawValue_def i64ToRawValue_def\<close>)

lemma cast_no_panic [simp]: "cast T v r \<noteq> Inl (Panic x)"
  by (cases r) (simp_all add: cast_def)

lemma Read32_None: "Read32 b = None \<longleftrightarrow> length b < 4"
  by (simp add: Read32_def)

lemma Read64_None: "Read64 b = None \<longleftrightarrow> length b < 8"
  by (simp add: Read64_def)

lemma AsInt64OK_None:
  "rv_type v = TypeInt32 \<or> rv_type v = TypeInt64 \<Longrightarrow>
   AsInt64OK v = None \<longleftrightarrow> length (rv_value v) < (if rv_type v = TypeInt32 then 4 else 8)"
  by (auto simp: AsInt64OK_def Read32_None Read64_None)

text \<open>A whole string value: its length header counts all the bytes after it.\<close>

lemma whole_string:
  assumes "valueLength p TypeString = Some (of_nat (length p))" and "fits p"
  obtains rem where "p = le_bytes 4 (length rem) @ rem"
    and "ReadLength p = Some (of_nat (length rem), rem)" and "length rem < 2147483648"
proof -
  from assms(1) obtain l rem where rl: "ReadLength p = Some (l, rem)" and l: "l + 4 = of_nat (length p)"
    by (auto simp: valueLength_def)
  have p: "p = le_bytes 4 (nat (sint l)) @ rem" by (rule ReadLength_Some(2) [OF rl])
  then have lp: "length p = length rem + 4" by (metis length_append length_le_bytes add.commute)
  then have "l + 4 = of_nat (length rem) + 4" using l by simp
  then have "l = of_nat (length rem)" by (simp only: add_right_cancel)
  moreover have "length rem < 2147483648" using assms(2) lp by (simp add: fits_def)
  ultimately show thesis using p rl that [of rem] by (simp add: sint_of_nat_32)
qed

section \<open>Properties\<close>

text \<open>
  C8: \<open>RawValueTo\<close> undoes \<open>ToRawValue\<close>: for every Go value the constraint admits (strings and
  binaries below 2 GiB, 12-byte object IDs, regexes without zero bytes and with ASCII options,
  documents that are as long as their header says), marshaling succeeds and casting back to the value's own type
  returns it, a regex with its options sorted. A Go int comes back equal whether it was
  written as an int32 or as an int64.
\<close>

theorem RawValueTo_undoes_ToRawValue:
  assumes "marshalable v"
  shows "\<exists>rv. ToRawValue v = Inr rv \<and> RawValueTo (go_type v) rv = Inr (canonical_go v)"
  using assms by (rule cast_round_trip)

theorem RawValueTo_undoes_ToRawValue_witness:
  "\<exists>rv. ToRawValue (GoRegex (str ''^a'') (str ''mi'')) = Inr rv
     \<and> RawValueTo TRegex rv = Inr (GoRegex (str ''^a'') (str ''im''))"
proof -
  have "marshalable (GoRegex (str ''^a'') (str ''mi''))"
    by (simp add: str_def regex_ok_def isValidCString_def ascii_def)
  moreover have "ascii (str ''mi'')" by (simp add: str_def ascii_def)
  ultimately show ?thesis
    using RawValueTo_undoes_ToRawValue [of "GoRegex (str ''^a'') (str ''mi'')"]
    by (simp add: sort_options_ascii) (simp add: str_def)
qed

text \<open>
  \<open>RawValueTo\<close> panics in exactly one situation, the cast to a Go int of an int32 or int64
  value with too few bytes, where \<open>RawValueToInt\<close>, documented as the same cast, returns an
  error; outside it the two agree.
\<close>

lemma RawValueTo_panics_only_on_short_ints:
  "((\<exists>x. RawValueTo T v = Inl (Panic x)) \<longleftrightarrow>
      T = TInt \<and> (rv_type v = TypeInt32 \<and> length (rv_value v) < 4
                \<or> rv_type v = TypeInt64 \<and> length (rv_value v) < 8))
   \<and> (case RawValueTo TInt v of
        Inr x \<Rightarrow> (\<exists>n. x = GoInt n \<and> RawValueToInt v = Inr n)
      | Inl (Err e) \<Rightarrow> RawValueToInt v = Inl (Err e)
      | Inl _ \<Rightarrow> RawValueToInt v = Inl (Err (CannotCast ''int'' (rv_type v))))"
proof
  show "(\<exists>x. RawValueTo T v = Inl (Panic x)) \<longleftrightarrow>
      T = TInt \<and> (rv_type v = TypeInt32 \<and> length (rv_value v) < 4
                \<or> rv_type v = TypeInt64 \<and> length (rv_value v) < 8)"
    using AsInt64OK_None [of v] by (cases T) (auto split: option.splits)
  show "case RawValueTo TInt v of
        Inr x \<Rightarrow> (\<exists>n. x = GoInt n \<and> RawValueToInt v = Inr n)
      | Inl (Err e) \<Rightarrow> RawValueToInt v = Inl (Err e)
      | Inl _ \<Rightarrow> RawValueToInt v = Inl (Err (CannotCast ''int'' (rv_type v)))"
    by (auto simp: RawValueToInt_def split: option.splits)
qed

text \<open>
  On a string value that is complete (as every validated one is), \<open>RawValueToStringBytes\<close> and
  \<open>RawValueToString\<close> return the same bytes, and one fails exactly when the other does.
\<close>

lemma string_readers_agree:
  assumes "rv_type v = TypeString" and "valueLength (rv_value v) TypeString = Some (of_nat (length (rv_value v)))"
    and "length (rv_value v) < 2147483648"
  shows "RawValueToStringBytes v = Inr s \<longleftrightarrow> RawValueToString v = Inr s"
proof -
  let ?p = "rv_value v"
  obtain rem where p: "?p = le_bytes 4 (length rem) @ rem" and rl: "ReadLength ?p = Some (of_nat (length rem), rem)"
    and len: "length rem < 2147483648"
    using whole_string [OF assms(2)] assms(3) by (auto simp: fits_def)
  have si: "sint (of_nat (length rem) :: i32) = int (length rem)" by (rule sint_of_nat_32 [OF len])
  have z: "(of_nat (length rem) :: i32) = 0 \<longleftrightarrow> rem = []"
  proof
    assume "(of_nat (length rem) :: i32) = 0"
    then have "sint (of_nat (length rem) :: i32) = 0" by (simp only: signed_0)
    then show "rem = []" using si by simp
  qed simp
  have d: "drop 4 ?p = rem" "take 4 ?p = le_bytes 4 (length rem)" "length ?p = length rem + 4"
    by (subst p, simp)+
  have "le_nat (le_bytes 4 (length rem)) = length rem" using len by (simp add: le_nat_le_bytes)
  then have "RawValueToStringBytes v = (if rem = [] then Inl (Err (Errorf ''too few bytes in BSON string''))
      else Inr (take (length rem - 1) rem))"
    using assms(1) by (cases rem) (simp_all add: RawValueToStringBytes_def d)
  moreover have "RawValueToString v = (if rem = [] then Inl (Err (CannotCast ''string'' TypeString))
      else Inr (take (length rem - 1) rem))"
    using assms(1) si z by (cases rem)
       (simp_all add: RawValueToString_def valueOK_def readstring_def rl d nat_diff_distrib)
  ultimately show ?thesis by simp
qed

lemma string_readers_agree_witness:
  "RawValueToStringBytes \<lparr>rv_type = TypeString, rv_value = [2, 0, 0, 0, 97, 0]\<rparr> = Inr [97]
     \<longleftrightarrow> RawValueToString \<lparr>rv_type = TypeString, rv_value = [2, 0, 0, 0, 97, 0]\<rparr> = Inr [97]"
  by (rule string_readers_agree) (simp_all add: valueLength_def ReadLength_def Read32_def)

end
