(* ===== verification/Bson_Marshal.thy ===== *)
theory Bson_Marshal
  imports Bson_Value
begin

text \<open>
  \<open>bsontools/marshal.go\<close> and \<open>bsontools/unmarshal.go\<close>: \<open>MarshalD\<close>/\<open>MarshalA\<close> from a \<open>bson.D\<close> or
  \<open>bson.A\<close> to bytes, \<open>UnmarshalToD\<close>/\<open>UnmarshalArray\<close> back. The driver's reflective \<open>bson.Marshal\<close>
  and \<open>bson.MarshalValue\<close>, used for code scopes and for types outside the switch, are parameters.
\<close>

section \<open>Marshaling\<close>

definition Convert_int_uint32 :: "int \<Rightarrow> nat res" where
  "Convert_int_uint32 n = (if 0 \<le> n \<and> n < 4294967296 then Inr (nat n) else Inl (Err RangeError))"

text \<open>The end of \<open>MarshalD\<close> and \<open>MarshalA\<close>: the terminator and the length at \<open>sizeAt\<close>.\<close>

definition closeDoc :: "nat \<Rightarrow> bytes \<Rightarrow> bytes res" where
  "closeDoc sizeAt b =
     (let buf = b @ [0] in
      go_bind (Convert_int_uint32 (int (length buf) - int sizeAt)) (\<lambda>l.
      Inr (take sizeAt buf @ le_bytes 4 l @ drop (sizeAt + 4) buf)))"

text \<open>\<open>AppendXElement(dst, key, ...)\<close>: the header, then the appender of the value.\<close>

definition append_element :: "bytes \<Rightarrow> byte \<Rightarrow> bytes \<Rightarrow> (bytes \<Rightarrow> bytes res) \<Rightarrow> bytes res" where
  "append_element dst t key f = go_bind (AppendHeader dst t key) f"

definition millis_of_time :: "int \<Rightarrow> int \<Rightarrow> i64" where
  "millis_of_time sec nsec = word_of_int (sec * 1000 + nsec div 1000000)"

text \<open>
  \<open>marshal_fields\<close> and \<open>marshal_items\<close> are the loops of \<open>MarshalD\<close> and \<open>MarshalA\<close>; \<open>M\<close> is
  \<open>bson.Marshal\<close>, \<open>MV\<close> is \<open>bson.MarshalValue\<close>.
\<close>

function MarshalD ::
    "(goval \<Rightarrow> bytes res) \<Rightarrow> (goval \<Rightarrow> (byte \<times> bytes) res) \<Rightarrow> bytes \<Rightarrow> (bytes \<times> goval) list \<Rightarrow> bytes res"
  and marshal_fields ::
    "(goval \<Rightarrow> bytes res) \<Rightarrow> (goval \<Rightarrow> (byte \<times> bytes) res) \<Rightarrow> bytes \<Rightarrow> (bytes \<times> goval) list \<Rightarrow> bytes res"
  and MarshalA ::
    "(goval \<Rightarrow> bytes res) \<Rightarrow> (goval \<Rightarrow> (byte \<times> bytes) res) \<Rightarrow> bytes \<Rightarrow> goval list \<Rightarrow> bytes res"
  and marshal_items ::
    "(goval \<Rightarrow> bytes res) \<Rightarrow> (goval \<Rightarrow> (byte \<times> bytes) res) \<Rightarrow> bytes \<Rightarrow> nat \<Rightarrow> goval list \<Rightarrow> bytes res"
  and marshalEl ::
    "(goval \<Rightarrow> bytes res) \<Rightarrow> (goval \<Rightarrow> (byte \<times> bytes) res) \<Rightarrow> bytes \<Rightarrow> bytes \<Rightarrow> goval \<Rightarrow> bytes res" where
  "MarshalD M MV buf d = go_bind (marshal_fields M MV (buf @ [0, 0, 0, 0]) d) (closeDoc (length buf))"
| "marshal_fields M MV buf [] = Inr buf"
| "marshal_fields M MV buf ((key, v) # d) =
     go_bind (wrap_err (Wrapped ''marshaling'') (marshalEl M MV buf key v)) (\<lambda>buf.
     marshal_fields M MV buf d)"
| "MarshalA M MV buf a = go_bind (marshal_items M MV (buf @ [0, 0, 0, 0]) 0 a) (closeDoc (length buf))"
| "marshal_items M MV buf e [] = Inr buf"
| "marshal_items M MV buf e (v # a) =
     go_bind (wrap_err (Wrapped ''marshaling element'') (marshalEl M MV buf (Itoa e) v)) (\<lambda>buf.
     marshal_items M MV buf (e + 1) a)"
| "marshalEl M MV buf key v =
     (case v of
        GoFloat64 x \<Rightarrow> append_element buf TypeDouble key (\<lambda>b. Inr (Append64 b x))
      | GoString s \<Rightarrow> append_element buf TypeString key (\<lambda>b. Inr (appendstring b s))
      | GoD d \<Rightarrow> wrap_err (Wrapped ''subdocument'')
          (MarshalD M MV (buf @ [TypeEmbeddedDocument] @ key @ [0]) d)
      | GoA a \<Rightarrow> wrap_err (Wrapped ''subdocument'') (MarshalA M MV (buf @ [TypeArray] @ key @ [0]) a)
      | GoBinary t d \<Rightarrow> append_element buf TypeBinary key (\<lambda>b. Inr (AppendBinary b t d))
      | GoUndefined \<Rightarrow> AppendHeader buf TypeUndefined key
      | GoObjectID oid \<Rightarrow> append_element buf TypeObjectID key (\<lambda>b. Inr (b @ oid))
      | GoBool x \<Rightarrow> append_element buf TypeBoolean key (\<lambda>b. Inr (AppendBoolean b x))
      | GoTime sec nsec \<Rightarrow>
          append_element buf TypeDateTime key (\<lambda>b. Inr (Append64 b (millis_of_time sec nsec)))
      | GoDateTime x \<Rightarrow> append_element buf TypeDateTime key (\<lambda>b. Inr (Append64 b x))
      | GoNull \<Rightarrow> AppendHeader buf TypeNull key
      | GoNil \<Rightarrow> AppendHeader buf TypeNull key
      | GoRegex p q \<Rightarrow> append_element buf TypeRegex key (\<lambda>b. AppendRegex b p (sort_options q))
      | GoDBPointer ns oid \<Rightarrow> append_element buf TypeDBPointer key (\<lambda>b. Inr (AppendDBPointer b ns oid))
      | GoJavaScript s \<Rightarrow> append_element buf TypeJavaScript key (\<lambda>b. Inr (appendstring b s))
      | GoSymbol s \<Rightarrow> append_element buf TypeSymbol key (\<lambda>b. Inr (appendstring b s))
      | GoCodeWithScope code scope \<Rightarrow>
          go_bind (wrap_err (Wrapped ''code with scope, marshaling scope'') (M scope)) (\<lambda>s.
          append_element buf TypeCodeWithScope key (\<lambda>b. Inr (AppendCodeWithScope b code s)))
      | GoInt32 x \<Rightarrow> append_element buf TypeInt32 key (\<lambda>b. Inr (Append32 b x))
      | GoTimestamp t i \<Rightarrow> append_element buf TypeTimestamp key (\<lambda>b. Inr (AppendTimestamp b t i))
      | GoInt64 x \<Rightarrow> append_element buf TypeInt64 key (\<lambda>b. Inr (Append64 b x))
      | GoDecimal128 h l \<Rightarrow> append_element buf TypeDecimal128 key (\<lambda>b. Inr (AppendDecimal128 b h l))
      | GoMaxKey \<Rightarrow> AppendHeader buf TypeMaxKey key
      | GoMinKey \<Rightarrow> AppendHeader buf TypeMinKey key
      | _ \<Rightarrow>
          go_bind (wrap_err (Wrapped ''marshaling'') (MV v)) (\<lambda>(bType, raw).
          append_element buf bType key (\<lambda>b. Inr (b @ raw))))"
  by pat_completeness auto
termination
  by (relation "measure (\<lambda>x. case x of
        Inl (Inl (_, _, _, d)) \<Rightarrow> 2 * size_list (size_prod (\<lambda>_. 0) size) d + 1
      | Inl (Inr (_, _, _, d)) \<Rightarrow> 2 * size_list (size_prod (\<lambda>_. 0) size) d
      | Inr (Inl (_, _, _, a)) \<Rightarrow> 2 * size_list size a + 1
      | Inr (Inr (Inl (_, _, _, _, a))) \<Rightarrow> 2 * size_list size a
      | Inr (Inr (Inr (_, _, _, _, v))) \<Rightarrow> 2 * size v)") auto

declare MarshalD.simps [simp del] MarshalA.simps [simp del] marshalEl.simps [simp del]

section \<open>Unmarshaling\<close>

lemma range_elements_cong [fundef_cong]:
  assumes "s = s'" and "els = els'" and "\<And>s el. el \<in> set els' \<Longrightarrow> f s el = g s el"
  shows "range_elements f s els = range_elements g s' els'"
  unfolding assms(1,2) using assms(3)
proof (induction els' arbitrary: s')
  case Nil
  then show ?case by simp
next
  case (Cons el els')
  then show ?case by (cases "g s' el") auto
qed

lemma RawElements_shorter:
  assumes "el \<in> set (fst (RawElements doc))"
  shows "length el < length doc"
proof -
  let ?b = "take (length doc - 1 - 4) (drop 4 doc)"
  from assms have doc: "doc \<noteq> []" and "fst (RawElements doc) = fst (rawElementsLoop ?b)"
    by (auto simp: RawElements_def split: option.splits if_splits)
  moreover obtain r where "?b = concat (fst (rawElementsLoop ?b)) @ r"
    using rawElementsLoop_prefix by blast
  ultimately have "length (concat (fst (RawElements doc))) \<le> length ?b" by (metis length_append le_add1)
  moreover have "length el \<le> length (concat (fst (RawElements doc)))"
    using length_concat_ge [OF assms, of "\<lambda>x. x"] by simp
  moreover have "length ?b < length doc" using doc by (cases doc) auto
  ultimately show ?thesis by simp
qed

lemma ValueErr_shorter: "ValueErr el = Inr v \<Longrightarrow> length (rv_value v) < length el"
  by (auto simp: ValueErr_def go_bind_eq_Inr readValue_def slice_at_Inr
      split: sum.splits fault.splits list.splits option.splits if_splits dest!: IndexByte_Some)

function UnmarshalToD :: "bytes \<Rightarrow> (bytes \<times> goval) list res"
  and UnmarshalArray :: "bytes \<Rightarrow> goval list res"
  and unmarshalValue :: "RawValue \<Rightarrow> goval res" where
  "UnmarshalToD raw =
     go_bind (wrap_err (Wrapped ''counting elements'') (CountRawElements raw)) (\<lambda>elsCount.
     go_bind (range_elements (\<lambda>d el.
         go_bind (wrap_err (Wrapped ''extracting field name'') (KeyBytesErr el)) (\<lambda>key.
         go_bind (wrap_err (Wrapped ''extracting value'') (ValueErr el)) (\<lambda>val.
         go_bind (wrap_err (Wrapped ''unmarshaling value'') (unmarshalValue val)) (\<lambda>v.
         Inr (d @ [(key, v)]))))) [] (fst (RawElements raw))) (\<lambda>d.
     case snd (RawElements raw) of
       None \<Rightarrow> Inr d
     | Some (Err e) \<Rightarrow> Inl (Panic (Panicked ''parsing BSON (no error earlier?!?)''))
     | Some x \<Rightarrow> Inl x))"
| "UnmarshalArray raw =
     go_bind (wrap_err (Wrapped ''counting array elements'') (CountRawElements raw)) (\<lambda>elsCount.
     go_bind (range_elements (\<lambda>a el.
         go_bind (wrap_err (Wrapped ''extracting element'') (ValueErr el)) (\<lambda>val.
         go_bind (wrap_err (Wrapped ''unmarshaling element'') (unmarshalValue val)) (\<lambda>v.
         Inr (a @ [v])))) [] (fst (RawElements raw))) (\<lambda>a.
     case snd (RawElements raw) of
       None \<Rightarrow> Inr a
     | Some (Err e) \<Rightarrow> Inl (Panic (Panicked ''parsing BSON (no error earlier?!?)''))
     | Some x \<Rightarrow> Inl x))"
| "unmarshalValue v =
     (let t = rv_type v in
      if t = TypeDouble then RawValueTo TFloat64 v
      else if t = TypeString then RawValueTo TString v
      else if t = TypeEmbeddedDocument then
        go_bind (wrap_err (Wrapped ''unmarshaling subdoc'') (UnmarshalToD (rv_value v))) (\<lambda>d. Inr (GoD d))
      else if t = TypeArray then
        go_bind (wrap_err (Wrapped ''unmarshaling array'') (UnmarshalArray (rv_value v))) (\<lambda>a. Inr (GoA a))
      else if t = TypeBinary then RawValueTo TBinary v
      else if t = TypeUndefined then Inr GoUndefined
      else if t = TypeObjectID then RawValueTo TObjectID v
      else if t = TypeBoolean then RawValueTo TBool v
      else if t = TypeDateTime then RawValueTo TDateTime v
      else if t = TypeNull then Inr GoNil
      else if t = TypeRegex then RawValueTo TRegex v
      else if t = TypeDBPointer then RawValueTo TDBPointer v
      else if t = TypeJavaScript then RawValueTo TJavaScript v
      else if t = TypeSymbol then RawValueTo TSymbol v
      else if t = TypeCodeWithScope then RawValueTo TCodeWithScope v
      else if t = TypeInt32 then RawValueTo TInt32 v
      else if t = TypeTimestamp then RawValueTo TTimestamp v
      else if t = TypeInt64 then RawValueTo TInt64 v
      else if t = TypeDecimal128 then RawValueTo TDecimal128 v
      else if t = TypeMaxKey then Inr GoMaxKey
      else if t = TypeMinKey then Inr GoMinKey
      else Inl (Panic (Panicked ''unknown BSON type'')))"
  by pat_completeness auto
termination
  by (relation "measure (\<lambda>x. case x of Inl raw \<Rightarrow> 2 * length raw | Inr (Inl raw) \<Rightarrow> 2 * length raw
        | Inr (Inr v) \<Rightarrow> 2 * length (rv_value v) + 1)")
     (auto dest!: RawElements_shorter ValueErr_shorter)

declare UnmarshalToD.simps [simp del] UnmarshalArray.simps [simp del] unmarshalValue.simps [simp del]

section \<open>The tree of a Go document\<close>

fun scalar_raw :: "goval \<Rightarrow> RawValue" where
  "scalar_raw (GoCodeWithScope c (GoRaw s)) =
     \<lparr>rv_type = TypeCodeWithScope, rv_value = AppendCodeWithScope [] c s\<rparr>"
| "scalar_raw (GoTime sec nsec) =
     \<lparr>rv_type = TypeDateTime, rv_value = Append64 [] (millis_of_time sec nsec)\<rparr>"
| "scalar_raw GoNil = \<lparr>rv_type = TypeNull, rv_value = []\<rparr>"
| "scalar_raw v = (case ToRawValue v of Inr r \<Rightarrow> r | Inl _ \<Rightarrow> \<lparr>rv_type = 0, rv_value = []\<rparr>)"

fun go_tree :: "goval \<Rightarrow> bson" where
  "go_tree (GoD d) = Sub TypeEmbeddedDocument (map (\<lambda>(k, v). (k, go_tree v)) d)"
| "go_tree (GoA a) = Sub TypeArray (zip (map Itoa [0..<length a]) (map go_tree a))"
| "go_tree v = (let r = scalar_raw v in Scalar (rv_type r) (rv_value r))"

definition go_fields :: "(bytes \<times> goval) list \<Rightarrow> (bytes \<times> bson) list" where
  "go_fields d = map (apsnd go_tree) d"

definition go_items :: "nat \<Rightarrow> goval list \<Rightarrow> (bytes \<times> bson) list" where
  "go_items e a = zip (map Itoa [e..<e + length a]) (map go_tree a)"

lemma go_tree_simps [simp]:
  "go_tree (GoD d) = Sub TypeEmbeddedDocument (go_fields d)"
  "go_tree (GoA a) = Sub TypeArray (go_items 0 a)"
proof -
  have eq: "(\<lambda>(k, v). (k, go_tree v)) = apsnd go_tree" by auto
  show "go_tree (GoD d) = Sub TypeEmbeddedDocument (go_fields d)"
    unfolding go_tree.simps eq go_fields_def ..
qed (simp add: go_items_def)

declare go_tree.simps(1,2) [simp del]

text \<open>The values \<open>MarshalD\<close> encodes by itself, and what they unmarshal to.\<close>

fun storable :: "goval \<Rightarrow> bool" where
  "storable (GoD d) = list_all (\<lambda>(k, v). 0 \<notin> set k \<and> storable v) d"
| "storable (GoA a) = list_all storable a"
| "storable (GoCodeWithScope c s) = (case s of GoRaw d \<Rightarrow> cws_ok (c, d) | _ \<Rightarrow> False)"
| "storable (GoTime sec nsec) = True"
| "storable GoNil = True"
| "storable (GoRaw d) = False" | "storable (GoRawArray d) = False" | "storable (GoInt x) = False"
| "storable v = marshalable v"

fun unmarshaled :: "goval \<Rightarrow> goval" where
  "unmarshaled (GoD d) = GoD (map (\<lambda>(k, v). (k, unmarshaled v)) d)"
| "unmarshaled (GoA a) = GoA (map unmarshaled a)"
| "unmarshaled (GoTime sec nsec) = GoDateTime (millis_of_time sec nsec)"
| "unmarshaled GoNull = GoNil"
| "unmarshaled v = canonical_go v"

definition container :: "goval \<Rightarrow> bool" where
  "container v \<longleftrightarrow> (\<exists>d. v = GoD d) \<or> (\<exists>a. v = GoA a)"

text \<open>An appender leaves the bytes before its own alone.\<close>

lemma append_push:
  "Append32 (p @ b) x = p @ Append32 b x" "Append32 (c # b) x = c # Append32 b x"
  "Append64 (p @ b) y = p @ Append64 b y" "Append64 (c # b) y = c # Append64 b y"
  "appendstring (p @ b) s = p @ appendstring b s" "appendstring (c # b) s = c # appendstring b s"
  "AppendBinary (p @ b) t d = p @ AppendBinary b t d" "AppendBinary (c # b) t d = c # AppendBinary b t d"
  "AppendBoolean (p @ b) z = p @ AppendBoolean b z" "AppendBoolean (c # b) z = c # AppendBoolean b z"
  "AppendDBPointer (p @ b) ns oid = p @ AppendDBPointer b ns oid" "AppendDBPointer (c # b) ns oid = c # AppendDBPointer b ns oid"
  "AppendCodeWithScope (p @ b) code sc = p @ AppendCodeWithScope b code sc" "AppendCodeWithScope (c # b) code sc = c # AppendCodeWithScope b code sc"
  "AppendTimestamp (p @ b) ts i = p @ AppendTimestamp b ts i" "AppendTimestamp (c # b) ts i = c # AppendTimestamp b ts i"
  "AppendDecimal128 (p @ b) h l = p @ AppendDecimal128 b h l" "AppendDecimal128 (c # b) h l = c # AppendDecimal128 b h l"
  by (simp_all add: Append32_def Append64_def appendstring_def appendLength_def AppendBinary_def
      AppendBoolean_def AppendDBPointer_def AppendCodeWithScope_def AppendTimestamp_def AppendDecimal128_def)

lemma AppendRegex_nil: "regex_ok (p, q) \<Longrightarrow> AppendRegex b p q = Inr (b @ regex_bytes (p, q))"
  by (simp add: AppendRegex_def regex_ok_def regex_bytes_def)

lemma AppendHeader_ok: "0 \<notin> set key \<Longrightarrow> AppendHeader buf t key = Inr (buf @ t # key @ [0])"
  by (simp add: AppendHeader_def isValidCString_def IndexByte_None)

definition raw_marshal :: "(goval \<Rightarrow> bytes res) \<Rightarrow> bool" where
  "raw_marshal M \<longleftrightarrow> (\<forall>d. M (GoRaw d) = Inr d)"

lemma storable_scalar_marshals:
  assumes "storable v" and "\<not> container v" and "0 \<notin> set key" and "raw_marshal M"
  shows "marshalEl M MV buf key v = Inr (buf @ enc_elem (key, go_tree v))"
proof (cases v)
  case (GoRegex p q)
  then have r: "regex_ok (p, sort_options q)" using assms(1) by (simp add: regex_ok_sorted)
  then show ?thesis
    using GoRegex by (simp add: marshalEl.simps append_element_def AppendHeader_ok [OF assms(3)]
        AppendRegex_nil AppendRegex_ok enc_elem_def)
next
  case (GoCodeWithScope c s)
  then show ?thesis
    using assms by (cases s) (auto simp: marshalEl.simps append_element_def AppendHeader_ok
        append_push enc_elem_def raw_marshal_def)
qed (use assms in \<open>auto simp: container_def marshalEl.simps append_element_def enc_elem_def AppendHeader_ok
      i32ToRawValue_def i64ToRawValue_def append_push\<close>)

lemma wf_empty:
  "wf_scalar TypeUndefined []" "wf_scalar TypeNull []" "wf_scalar TypeMaxKey []" "wf_scalar TypeMinKey []"
  by (simp_all add: wf_scalar_def valueLength_def is_sub_def)

lemma storable_scalar_wf:
  assumes "storable v" and "\<not> container v"
  shows "wf_val (go_tree v)"
proof (cases v)
  case (GoRegex p q)
  then have r: "regex_ok (p, sort_options q)" using assms(1) by (simp add: regex_ok_sorted)
  then show ?thesis using GoRegex regex_codec.wf [OF r] by (simp add: AppendRegex_ok)
next
  case (GoCodeWithScope c s)
  then show ?thesis using assms cws_codec.wf [of "(c, _)"] by (cases s) auto
qed (use assms in \<open>auto simp: container_def i32ToRawValue_def i64ToRawValue_def double_codec.wf datetime_codec.wf
      int64_codec.wf int32_codec.wf string_codec.wf javascript_codec.wf symbol_codec.wf objectid_codec.wf
      boolean_codec.wf timestamp_codec.wf [of "(_, _)", simplified] decimal_codec.wf [of "(_, _)", simplified]
      binary_codec.wf [of "(_, _)", simplified] dbpointer_codec.wf [of "(_, _)", simplified]
      wf_empty\<close>)

lemma storable_scalar_unmarshals:
  assumes "storable v" and "\<not> container v"
  shows "unmarshalValue (raw_of (go_tree v)) = Inr (unmarshaled v)"
proof (cases v)
  case (GoRegex p q)
  then have r: "regex_ok (p, sort_options q)" using assms(1) by (simp add: regex_ok_sorted)
  then show ?thesis using GoRegex regex_codec.reads [OF r]
    by (simp add: AppendRegex_ok raw_of_def unmarshalValue.simps RegexOK_def cast_def)
next
  case (GoCodeWithScope c s)
  then show ?thesis using assms cws_codec.reads [of "(c, _)"]
    by (cases s) (auto simp: raw_of_def unmarshalValue.simps CodeWithScopeOK_def cast_def)
qed (use assms in \<open>auto simp: container_def raw_of_def unmarshalValue.simps cast_def cast_reads BinaryOK_def
      DBPointerOK_def TimestampOK_def Decimal128OK_def i32ToRawValue_def i64ToRawValue_def\<close>)

section \<open>Containers\<close>

lemma go_items_Cons: "go_items e (v # a) = (Itoa e, go_tree v) # go_items (Suc e) a"
  by (simp add: go_items_def upt_rec)

lemma Itoa_no_zero: "0 \<notin> set (Itoa n)"
proof (induction n rule: Itoa.induct)
  case (1 n)
  have digit: "(of_nat (48 + d) :: byte) \<noteq> 0" if "d < 10" for d
  proof
    assume "(of_nat (48 + d) :: byte) = 0"
    then have "unat (of_nat (48 + d) :: byte) = 0" by (simp only: unsigned_0)
    moreover have "unat (of_nat (48 + d) :: byte) = 48 + d" using that by (simp only: unat_of_nat) simp
    ultimately show False by simp
  qed
  show ?case
  proof (cases "n < 10")
    case True
    then show ?thesis using digit [of n] by (subst Itoa.simps) auto
  next
    case False
    then show ?thesis using 1 digit [of "n mod 10"] by (subst Itoa.simps) auto
  qed
qed

lemma closeDoc_ok:
  assumes "length b + 5 < 4294967296"
  shows "closeDoc (length buf) (buf @ 0 # 0 # 0 # 0 # b) = Inr (buf @ frame b)"
proof -
  have "nat (int (length buf + 4 + length b + 1) - int (length buf)) = length b + 5" by simp
  then show ?thesis
    using assms by (simp add: closeDoc_def Convert_int_uint32_def frame_def add.commute)
qed

lemma marshal_fields_ok:
  assumes "\<And>buf k v. (k, v) \<in> set d \<Longrightarrow> marshalEl M MV buf k v = Inr (buf @ enc_elem (k, go_tree v))"
  shows "marshal_fields M MV buf d = Inr (buf @ body (go_fields d))"
  using assms by (induction d arbitrary: buf) (auto simp: go_fields_def)

lemma marshal_items_ok:
  assumes "\<And>buf e v. v \<in> set a \<Longrightarrow> marshalEl M MV buf (Itoa e) v = Inr (buf @ enc_elem (Itoa e, go_tree v))"
  shows "marshal_items M MV buf e a = Inr (buf @ body (go_items e a))"
  using assms
proof (induction a arbitrary: buf e)
  case Nil
  then show ?case by (simp add: go_items_def)
next
  case (Cons v a)
  then show ?case by (simp add: go_items_Cons)
qed

lemma set_go_items: "(k, t) \<in> set (go_items e a) \<Longrightarrow> (\<exists>n. k = Itoa n) \<and> (\<exists>v \<in> set a. t = go_tree v)"
proof -
  assume "(k, t) \<in> set (go_items e a)"
  then have "k \<in> set (map Itoa [e..<e + length a])" "t \<in> set (map go_tree a)"
    unfolding go_items_def by (rule set_zip_leftD, rule set_zip_rightD)
  then show ?thesis by auto
qed

lemma mem_go_items: "v \<in> set a \<Longrightarrow> \<exists>k. (k, go_tree v) \<in> set (go_items e a)"
  by (induction a arbitrary: e) (auto simp: go_items_Cons)

lemma storable_wf: "storable v \<Longrightarrow> wf_val (go_tree v)"
proof (induction v)
  case (GoD d)
  then have "wf_field (k, go_tree v)" if "(k, v) \<in> set d" for k v
    using that by (fastforce simp: wf_field_def list_all_iff)
  then show ?case by (auto simp: go_fields_def is_sub_def list_all_iff)
next
  case (GoA a)
  then have "wf_field (k, t)" if "(k, t) \<in> set (go_items 0 a)" for k t
    using set_go_items [OF that] Itoa_no_zero by (auto simp: wf_field_def list_all_iff)
  then show ?case by (auto simp: is_sub_def list_all_iff)
qed (auto intro!: storable_scalar_wf simp: container_def simp del: go_tree.simps)

lemma length_field: "(k, t) \<in> set fs \<Longrightarrow> length (enc_val t) < length (enc_doc fs)"
  using length_concat_ge [of "(k, t)" fs enc_elem] by (simp add: enc_doc_def)

lemma marshalEl_ok:
  "storable v \<Longrightarrow> 0 \<notin> set key \<Longrightarrow> raw_marshal M \<Longrightarrow> length (enc_val (go_tree v)) < 4294967296 \<Longrightarrow>
   marshalEl M MV buf key v = Inr (buf @ enc_elem (key, go_tree v))"
proof (induction v arbitrary: buf key)
  case (GoD d)
  have el: "marshalEl M MV b k v = Inr (b @ enc_elem (k, go_tree v))" if "(k, v) \<in> set d" for b k v
  proof (rule GoD.IH [OF that])
    show "storable v" "0 \<notin> set k" using GoD.prems(1) that by (auto simp: list_all_iff)
    have "(k, go_tree v) \<in> set (go_fields d)" using that by (force simp: go_fields_def)
    from length_field [OF this] show "length (enc_val (go_tree v)) < 4294967296" using GoD.prems(4) by simp
  qed (use GoD.prems in simp_all)
  have "length (body (go_fields d)) + 5 < 4294967296" using GoD.prems(4) by (simp add: enc_doc_def)
  from closeDoc_ok [OF this, of "buf @ TypeEmbeddedDocument # key @ [0]"] show ?case
    by (simp add: marshalEl.simps MarshalD.simps marshal_fields_ok [OF el] enc_elem_def enc_doc_def)
next
  case (GoA a)
  have el: "marshalEl M MV b (Itoa e) v = Inr (b @ enc_elem (Itoa e, go_tree v))" if "v \<in> set a" for b e v
  proof (rule GoA.IH [OF that])
    show "storable v" using GoA.prems(1) that by (auto simp: list_all_iff)
    show "0 \<notin> set (Itoa e)" by (rule Itoa_no_zero)
    obtain k where "(k, go_tree v) \<in> set (go_items 0 a)" using mem_go_items [OF \<open>v \<in> set a\<close>] by blast
    from length_field [OF this] show "length (enc_val (go_tree v)) < 4294967296" using GoA.prems(4) by simp
  qed (use GoA.prems in simp_all)
  have "length (body (go_items 0 a)) + 5 < 4294967296" using GoA.prems(4) by (simp add: enc_doc_def)
  from closeDoc_ok [OF this, of "buf @ TypeArray # key @ [0]"] show ?case
    by (simp add: marshalEl.simps MarshalA.simps marshal_items_ok [OF el] enc_elem_def enc_doc_def)
qed (auto intro!: storable_scalar_marshals simp: container_def simp del: go_tree.simps)

lemma MarshalD_ok:
  assumes "storable (GoD d)" and "raw_marshal M" and "length (enc_doc (go_fields d)) < 4294967296"
  shows "MarshalD M MV buf d = Inr (buf @ enc_doc (go_fields d))"
proof -
  have el: "marshalEl M MV b k v = Inr (b @ enc_elem (k, go_tree v))" if "(k, v) \<in> set d" for b k v
  proof (rule marshalEl_ok)
    show "storable v" "0 \<notin> set k" using assms(1) that by (auto simp: list_all_iff)
    have "(k, go_tree v) \<in> set (go_fields d)" using that by (force simp: go_fields_def)
    from length_field [OF this] show "length (enc_val (go_tree v)) < 4294967296" using assms(3) by simp
  qed (rule assms(2))
  have "length (body (go_fields d)) + 5 < 4294967296" using assms(3) by (simp add: enc_doc_def)
  from closeDoc_ok [OF this, of buf] show ?thesis
    by (simp add: MarshalD.simps marshal_fields_ok [OF el] enc_doc_def)
qed

section \<open>Unmarshaling an encoded tree\<close>

lemma UnmarshalToD_enc:
  assumes "wf_doc fs"
    and "\<And>k t. (k, t) \<in> set fs \<Longrightarrow> unmarshalValue (raw_of t) = Inr (f t)"
  shows "UnmarshalToD (enc_doc fs) = Inr (map (apsnd f) fs)"
proof -
  have loop: "range_elements (\<lambda>d el.
         go_bind (wrap_err (Wrapped ''extracting field name'') (KeyBytesErr el)) (\<lambda>key.
         go_bind (wrap_err (Wrapped ''extracting value'') (ValueErr el)) (\<lambda>val.
         go_bind (wrap_err (Wrapped ''unmarshaling value'') (unmarshalValue val)) (\<lambda>v.
         Inr (d @ [(key, v)]))))) acc (map enc_elem gs) = Inr (acc @ map (apsnd f) gs)"
    if "set gs \<subseteq> set fs" for acc gs
    using that
  proof (induction gs arbitrary: acc)
    case Nil
    then show ?case by simp
  next
    case (Cons g gs)
    obtain k t where g: "g = (k, t)" by (cases g)
    have "wf_field g \<and> fits (enc_elem g)" using wf_doc_field [OF assms(1), of g] Cons.prems by simp
    moreover have "unmarshalValue (raw_of t) = Inr (f t)" using assms(2) [of k t] Cons.prems g by simp
    ultimately show ?case
      using Cons g KeyBytes_enc(1) [of g] ValueErr_enc [of g] by (simp add: raw_of_def)
  qed
  have "CountRawElements (enc_doc fs) = Inr (length fs)"
    by (simp add: CountRawElements_iff RawElements_enc [OF assms(1)])
  then show ?thesis
    using loop [of fs "[]"] by (simp add: UnmarshalToD.simps RawElements_enc [OF assms(1)])
qed

lemma UnmarshalArray_enc:
  assumes "wf_doc fs"
    and "\<And>k t. (k, t) \<in> set fs \<Longrightarrow> unmarshalValue (raw_of t) = Inr (f t)"
  shows "UnmarshalArray (enc_doc fs) = Inr (map (f \<circ> snd) fs)"
proof -
  have loop: "range_elements (\<lambda>a el.
         go_bind (wrap_err (Wrapped ''extracting element'') (ValueErr el)) (\<lambda>val.
         go_bind (wrap_err (Wrapped ''unmarshaling element'') (unmarshalValue val)) (\<lambda>v.
         Inr (a @ [v])))) acc (map enc_elem gs) = Inr (acc @ map (f \<circ> snd) gs)"
    if "set gs \<subseteq> set fs" for acc gs
    using that
  proof (induction gs arbitrary: acc)
    case Nil
    then show ?case by simp
  next
    case (Cons g gs)
    obtain k t where g: "g = (k, t)" by (cases g)
    have "wf_field g \<and> fits (enc_elem g)" using wf_doc_field [OF assms(1), of g] Cons.prems by simp
    moreover have "unmarshalValue (raw_of t) = Inr (f t)" using assms(2) [of k t] Cons.prems g by simp
    ultimately show ?case
      using Cons g ValueErr_enc [of g] by (simp add: raw_of_def)
  qed
  have "CountRawElements (enc_doc fs) = Inr (length fs)"
    by (simp add: CountRawElements_iff RawElements_enc [OF assms(1)])
  then show ?thesis
    using loop [of fs "[]"] by (simp add: UnmarshalArray.simps RawElements_enc [OF assms(1)])
qed

text \<open>The value a tree unmarshals to, whatever Go value the tree came from.\<close>

definition tree_value :: "bson \<Rightarrow> goval" where
  "tree_value t = (case unmarshalValue (raw_of t) of Inr v \<Rightarrow> v | Inl _ \<Rightarrow> GoNil)"

lemma map_snd_go_items: "map snd (go_items e a) = map go_tree a"
  by (simp add: go_items_def)

lemma storable_unmarshals:
  "storable v \<Longrightarrow> fits (enc_val (go_tree v)) \<Longrightarrow> unmarshalValue (raw_of (go_tree v)) = Inr (unmarshaled v)"
proof (induction v)
  case (GoD d)
  have wf: "wf_doc (go_fields d)"
    using storable_wf [OF GoD.prems(1)] GoD.prems(2) by (simp add: wf_doc_def)
  have el: "unmarshalValue (raw_of (go_tree v)) = Inr (unmarshaled v)" if "(k, v) \<in> set d" for k v
  proof (rule GoD.IH [OF that])
    show "storable v" using GoD.prems(1) that by (auto simp: list_all_iff)
    have "(k, go_tree v) \<in> set (go_fields d)" using that by (force simp: go_fields_def)
    from length_field [OF this] show "fits (enc_val (go_tree v))" using GoD.prems(2) by (simp add: fits_def)
  qed simp
  have "UnmarshalToD (enc_doc (go_fields d)) = Inr (map (apsnd tree_value) (go_fields d))"
    by (rule UnmarshalToD_enc [OF wf]) (auto simp: go_fields_def tree_value_def el)
  moreover have "map (apsnd tree_value) (go_fields d) = map (\<lambda>(k, v). (k, unmarshaled v)) d"
    using el by (auto simp: go_fields_def tree_value_def)
  ultimately show ?case by (simp add: unmarshalValue.simps raw_of_def)
next
  case (GoA a)
  have wf: "wf_doc (go_items 0 a)"
    using storable_wf [OF GoA.prems(1)] GoA.prems(2) by (simp add: wf_doc_def)
  have el: "unmarshalValue (raw_of (go_tree v)) = Inr (unmarshaled v)" if "v \<in> set a" for v
  proof (rule GoA.IH [OF that])
    show "storable v" using GoA.prems(1) that by (auto simp: list_all_iff)
    obtain k where "(k, go_tree v) \<in> set (go_items 0 a)" using mem_go_items [OF \<open>v \<in> set a\<close>] by blast
    from length_field [OF this] show "fits (enc_val (go_tree v))" using GoA.prems(2) by (simp add: fits_def)
  qed
  have "UnmarshalArray (enc_doc (go_items 0 a)) = Inr (map (tree_value \<circ> snd) (go_items 0 a))"
    by (rule UnmarshalArray_enc [OF wf]) (auto dest!: set_go_items simp: tree_value_def el)
  moreover have "map (tree_value \<circ> snd) (go_items 0 a) = map unmarshaled a"
    unfolding map_map [symmetric] map_snd_go_items using el by (simp add: tree_value_def)
  ultimately show ?case by (simp add: unmarshalValue.simps raw_of_def)
qed (auto intro!: storable_scalar_unmarshals simp: container_def simp del: go_tree.simps unmarshaled.simps)

section \<open>Explicit panics of the unmarshaler\<close>

definition no_explicit_panic :: "'a res \<Rightarrow> bool" where
  "no_explicit_panic m \<longleftrightarrow> (\<forall>s. m \<noteq> Inl (Panic (Panicked s)))"

lemma no_explicit_panic_simps [simp]:
  "no_explicit_panic (Inr x)" "no_explicit_panic (Inl (Err e))"
  "no_explicit_panic (wrap_err w m) \<longleftrightarrow> no_explicit_panic m"
  by (simp_all add: no_explicit_panic_def wrap_err_no_panic)

lemma no_explicit_panic_bind:
  "no_explicit_panic m \<Longrightarrow> (\<And>x. m = Inr x \<Longrightarrow> no_explicit_panic (f x)) \<Longrightarrow> no_explicit_panic (go_bind m f)"
  by (cases m) (auto simp: no_explicit_panic_def)

lemma range_elements_no_panic:
  "(\<And>s el. el \<in> set els \<Longrightarrow> no_explicit_panic (f s el)) \<Longrightarrow> no_explicit_panic (range_elements f s els)"
  by (induction els arbitrary: s) (auto intro!: no_explicit_panic_bind)

lemma readers_no_panic:
  "no_explicit_panic (ReadElement b)" "no_explicit_panic (Element_Validate b)"
  "no_explicit_panic (ValueErr b)" "no_explicit_panic (KeyBytesErr b)"
  by (auto simp: no_explicit_panic_def ReadElement_def Element_Validate_def Value_Validate_def ValueErr_def
      KeyBytesErr_def readValue_def slice_at_def Let_def go_bind_eq_Inl
      split: list.splits option.splits if_splits)

lemma rawElementsLoop_no_panic: "snd (rawElementsLoop b) \<noteq> Some (Panic (Panicked s))"
proof (induction b rule: rawElementsLoop.induct)
  case (1 b)
  show ?case
  proof (cases "\<exists>el rest. ReadElement b = Inr (Some (el, rest)) \<and> Element_Validate el = Inr () \<and> b \<noteq> []")
    case True
    then obtain el rest where el: "ReadElement b = Inr (Some (el, rest))"
      "Element_Validate el = Inr ()" "b \<noteq> []" by blast
    have "snd (rawElementsLoop rest) \<noteq> Some (Panic (Panicked s))"
      by (rule "1.IH" [OF el(3,1) refl refl el(2)])
    moreover have "snd (rawElementsLoop b) = snd (rawElementsLoop rest)"
      by (subst rawElementsLoop.simps) (use el in \<open>simp split: prod.split\<close>)
    ultimately show ?thesis by simp
  next
    case False
    then show ?thesis
      using readers_no_panic(1) [of b] readers_no_panic(2)
      by (subst rawElementsLoop.simps)
         (auto simp: no_explicit_panic_def split: sum.split option.split)
  qed
qed

lemma RawElements_no_panic: "snd (RawElements b) \<noteq> Some (Panic (Panicked s))"
  using rawElementsLoop_no_panic by (auto simp: RawElements_def split: option.splits)

lemma CountRawElements_fail:
  "CountRawElements b = Inl x \<Longrightarrow> snd (RawElements b) = Some x"
  by (cases "RawElements b")
     (auto simp: CountRawElements_def range_over_def CountRawElements_body split: option.splits fault.splits)

lemma CountRawElements_no_panic: "no_explicit_panic (CountRawElements b)"
  using CountRawElements_fail RawElements_no_panic by (auto simp: no_explicit_panic_def)

text \<open>A value that was read has a known type, so the switch of \<open>unmarshalValue\<close> covers it.\<close>

lemma ValueErr_known: "ValueErr el = Inr v \<Longrightarrow> \<exists>b l. valueLength b (rv_type v) = Some l"
  by (auto simp: ValueErr_def go_bind_eq_Inr readValue_def split: list.splits option.splits if_splits) blast

lemma RawValueTo_no_panic: "T \<noteq> TInt \<Longrightarrow> no_explicit_panic (RawValueTo T v)"
  by (cases T) (simp_all add: no_explicit_panic_def)

lemma unmarshal_no_panic:
  "no_explicit_panic (UnmarshalToD raw)"
  "no_explicit_panic (UnmarshalArray raw)"
  "(\<exists>b l. valueLength b (rv_type v) = Some l) \<Longrightarrow> no_explicit_panic (unmarshalValue v)"
proof (induction raw and raw and v rule: UnmarshalToD_UnmarshalArray_unmarshalValue.induct)
  case (1 raw)
  show ?case
  proof (cases "CountRawElements raw")
    case (Inl x)
    then show ?thesis using CountRawElements_no_panic [of raw]
      by (subst UnmarshalToD.simps) (auto intro!: no_explicit_panic_bind)
  next
    case (Inr n)
    then have end_ok: "snd (RawElements raw) = None" by (auto simp: CountRawElements_iff)
    have "no_explicit_panic (unmarshalValue x)" if "el \<in> set (fst (RawElements raw))"
      "KeyBytesErr el = Inr k" "ValueErr el = Inr x" for el k x
      using 1 [of n el k x] that Inr ValueErr_known [OF that(3)] by simp
    then show ?thesis unfolding UnmarshalToD.simps end_ok
      using readers_no_panic by (auto intro!: no_explicit_panic_bind range_elements_no_panic simp: Inr)
  qed
next
  case (2 raw)
  show ?case
  proof (cases "CountRawElements raw")
    case (Inl x)
    then show ?thesis using CountRawElements_no_panic [of raw]
      by (subst UnmarshalArray.simps) (auto intro!: no_explicit_panic_bind)
  next
    case (Inr n)
    then have end_ok: "snd (RawElements raw) = None" by (auto simp: CountRawElements_iff)
    have "no_explicit_panic (unmarshalValue x)" if "el \<in> set (fst (RawElements raw))"
      "ValueErr el = Inr x" for el x
      using 2 [of n el x] that Inr ValueErr_known [OF that(2)] by simp
    then show ?thesis unfolding UnmarshalArray.simps end_ok
      using readers_no_panic by (auto intro!: no_explicit_panic_bind range_elements_no_panic simp: Inr)
  qed
next
  case (3 v)
  consider "rv_type v = TypeEmbeddedDocument" | "rv_type v = TypeArray"
    | "rv_type v \<noteq> TypeEmbeddedDocument" "rv_type v \<noteq> TypeArray" by blast
  then show ?case
  proof cases
    case 1
    then show ?thesis using "3.IH"(1) [OF refl]
      by (subst unmarshalValue.simps) (auto simp: Let_def intro!: no_explicit_panic_bind)
  next
    case 2
    then show ?thesis using "3.IH"(2) [OF refl]
      by (subst unmarshalValue.simps) (auto simp: Let_def intro!: no_explicit_panic_bind)
  next
    case 3
    obtain b l where "valueLength b (rv_type v) = Some l" using "3.prems" by blast
    with 3 show ?thesis
      by (subst unmarshalValue.simps)
         (auto simp: Let_def RawValueTo_no_panic valueLength_def simp del: RawValueTo.simps split: if_splits)
  qed
qed

lemma le_bytes_4:
  "le_bytes 4 n = [of_nat n, of_nat (n div 256), of_nat (n div 256 div 256), of_nat (n div 256 div 256 div 256)]"
proof -
  have "4 = Suc (Suc (Suc (Suc 0)))" by simp
  then show ?thesis by (simp only: le_bytes.simps)
qed

section \<open>Properties\<close>

text \<open>
  C5: \<open>MarshalD\<close> followed by \<open>UnmarshalToD\<close> gives the document back: for every document built
  from the values \<open>MarshalD\<close> encodes itself, nested to any depth, with keys without zero bytes
  and a total below 2 GiB, marshaling succeeds and unmarshaling returns the same keys and
  values in order, a time as a \<open>bson.DateTime\<close>, null as nil, regex options sorted. The driver's
  \<open>bson.Marshal\<close> is only assumed to return the bytes of a \<open>bson.Raw\<close> scope as they are.
\<close>

theorem unmarshal_undoes_marshal:
  assumes "\<And>d. bson_Marshal (GoRaw d) = Inr d" and "storable (GoD d)"
    and "length (enc_doc (go_fields d)) < 2147483648"
  shows "\<exists>raw. MarshalD bson_Marshal bson_MarshalValue [] d = Inr raw
    \<and> UnmarshalToD raw = Inr (map (\<lambda>(k, v). (k, unmarshaled v)) d)"
proof -
  have "MarshalD bson_Marshal bson_MarshalValue [] d = Inr (enc_doc (go_fields d))"
    using MarshalD_ok [OF assms(2), of bson_Marshal bson_MarshalValue "[]"] assms(1,3)
    by (simp add: raw_marshal_def)
  moreover have "unmarshalValue (raw_of (go_tree (GoD d))) = Inr (unmarshaled (GoD d))"
    by (rule storable_unmarshals [OF assms(2)]) (use assms(3) in \<open>simp add: fits_def\<close>)
  then have "UnmarshalToD (enc_doc (go_fields d)) = Inr (map (\<lambda>(k, v). (k, unmarshaled v)) d)"
    by (auto simp: unmarshalValue.simps raw_of_def go_bind_eq_Inr)
  ultimately show ?thesis by blast
qed

theorem unmarshal_undoes_marshal_witness:
  "\<exists>raw. MarshalD (\<lambda>v. case v of GoRaw d \<Rightarrow> Inr d | _ \<Rightarrow> Inl (Err RangeError)) (\<lambda>_. Inl (Err RangeError)) []
       [(str ''a'', GoA [GoBool True, GoNull])] = Inr raw
     \<and> UnmarshalToD raw = Inr [(str ''a'', GoA [GoBool True, GoNil])]"
  using unmarshal_undoes_marshal [of "\<lambda>v. case v of GoRaw d \<Rightarrow> Inr d | _ \<Rightarrow> Inl (Err RangeError)"
      "[(str ''a'', GoA [GoBool True, GoNull])]" "\<lambda>_. Inl (Err RangeError)"]
  by (simp add: str_def go_fields_def go_items_def enc_doc_def AppendBoolean_def Itoa.simps upt_rec)

text \<open>
  \<open>MarshalD\<close> produces well-formed BSON and respects the caller's buffer: it appends exactly the
  encoding of the document's field tree (a frame whose length header is right at every level)
  to the bytes already there, and each value of the tree is a well-formed BSON value.
\<close>

lemma MarshalD_appends_encoding:
  assumes "\<And>d. bson_Marshal (GoRaw d) = Inr d" and "storable (GoD d)"
    and "length (enc_doc (go_fields d)) < 4294967296"
  shows "MarshalD bson_Marshal bson_MarshalValue buf d = Inr (buf @ enc_doc (go_fields d))
    \<and> list_all wf_field (go_fields d)"
  using MarshalD_ok [OF assms(2), of bson_Marshal bson_MarshalValue buf] storable_wf [OF assms(2)] assms(1,3)
  by (simp add: raw_marshal_def)

lemma MarshalD_appends_encoding_witness:
  "MarshalD (\<lambda>v. case v of GoRaw d \<Rightarrow> Inr d | _ \<Rightarrow> Inl (Err RangeError)) (\<lambda>_. Inl (Err RangeError)) [7]
     [(str ''a'', GoBool True)] = Inr (7 # [9, 0, 0, 0, 8, 97, 0, 1, 0])"
proof -
  let ?M = "\<lambda>v. case v of GoRaw d \<Rightarrow> Inr d | _ \<Rightarrow> Inl (Err RangeError)"
  let ?d = "[(str ''a'', GoBool True)]"
  have "enc_doc (go_fields ?d) = [9, 0, 0, 0, 8, 97, 0, 1, 0]"
    by (simp add: str_def go_fields_def enc_doc_def enc_elem_def frame_def AppendBoolean_def le_bytes_4)
  moreover have "storable (GoD ?d)" by (simp add: str_def)
  ultimately show ?thesis
    using MarshalD_appends_encoding [of ?M ?d "\<lambda>_. Inl (Err RangeError)" "[7]"] by simp
qed

text \<open>
  C31: no explicit \<open>panic\<close> of \<open>UnmarshalToD\<close> and \<open>UnmarshalArray\<close> can be reached, on any bytes: every
  element the iterator yields has a type the switch knows, and an iteration that was counted
  without error does not fail the second time.
\<close>

theorem unmarshal_never_panics_explicitly:
  "UnmarshalToD raw \<noteq> Inl (Panic (Panicked m)) \<and> UnmarshalArray raw \<noteq> Inl (Panic (Panicked m))"
  using unmarshal_no_panic(1,2) [of raw] by (simp add: no_explicit_panic_def)

text \<open>
  A key with a zero byte is caught by a panic when its value is a scalar, but not when its value
  is a document: then \<open>MarshalD\<close> returns bytes that \<open>UnmarshalToD\<close> rejects.
\<close>

lemma MarshalD_zero_byte_in_key:
  "MarshalD M MV [] [([97, 0, 98], GoBool True)] = Inl (Panic (Panicked ''BSON element keys cannot contain null bytes''))
   \<and> MarshalD M MV [] [([97, 0, 98], GoD [])] = Inr [15, 0, 0, 0, 3, 97, 0, 98, 0, 5, 0, 0, 0, 0, 0]
   \<and> UnmarshalToD [15, 0, 0, 0, 3, 97, 0, 98, 0, 5, 0, 0, 0, 0, 0]
       = Inl (Err (Wrapped ''counting elements'' InsufficientBytes))"
proof (intro conjI)
  show "MarshalD M MV [] [([97, 0, 98], GoBool True)]
      = Inl (Panic (Panicked ''BSON element keys cannot contain null bytes''))"
    by (simp add: MarshalD.simps marshalEl.simps append_element_def AppendHeader_def isValidCString_def)
  show "MarshalD M MV [] [([97, 0, 98], GoD [])] = Inr [15, 0, 0, 0, 3, 97, 0, 98, 0, 5, 0, 0, 0, 0, 0]"
    by (simp add: MarshalD.simps marshalEl.simps closeDoc_def Convert_int_uint32_def le_bytes_4)
  show "UnmarshalToD [15, 0, 0, 0, 3, 97, 0, 98, 0, 5, 0, 0, 0, 0, 0]
       = Inl (Err (Wrapped ''counting elements'' InsufficientBytes))"
    by (simp add: UnmarshalToD.simps CountRawElements_def range_over_def RawElements_def
        rawElementsLoop.simps reader_eval)
qed

end
