(* ===== verification/Bson_Compose.thy ===== *)
theory Bson_Compose
  imports Bson_Edit Bson_Canonical Bson_Marshal
begin

text \<open>
  What the operations of \<open>bsontools\<close> do to the Go document behind the bytes: the lemmas by which
  the root theory composes marshaling, sorting, editing, lookup and unmarshaling.
\<close>

section \<open>Sorting a Go document\<close>

fun go_sort :: "goval \<Rightarrow> goval" where
  "go_sort (GoD d) = GoD (SortStableFunc by_key (map (\<lambda>(k, v). (k, go_sort v)) d))"
| "go_sort (GoA a) = GoA (map go_sort a)"
| "go_sort v = v"

definition go_sort_fields :: "(bytes \<times> goval) list \<Rightarrow> (bytes \<times> goval) list" where
  "go_sort_fields d = SortStableFunc by_key (map (\<lambda>(k, v). (k, go_sort v)) d)"

lemma go_sort_D [simp]: "go_sort (GoD d) = GoD (go_sort_fields d)"
  by (simp add: go_sort_fields_def)

declare go_sort.simps(1) [simp del]

lemma go_sort_scalar: "\<not> container v \<Longrightarrow> go_sort v = v"
  by (cases v) (auto simp: container_def)

lemma tree_sort_scalar: "\<not> container v \<Longrightarrow> tree_sort (go_tree v) = go_tree v"
  by (cases v) (auto simp: container_def Let_def simp del: go_tree_simps)

lemma set_go_sort_fields: "set (go_sort_fields d) = (\<lambda>(k, v). (k, go_sort v)) ` set d"
  by (simp add: go_sort_fields_def)

lemma sort_go_fields:
  assumes "\<And>k v. (k, v) \<in> set d \<Longrightarrow> tree_sort (go_tree v) = go_tree (go_sort v)"
  shows "sort_fields (go_fields d) = go_fields (go_sort_fields d)"
proof -
  have "map (apsnd tree_sort) (go_fields d) = map (apsnd go_tree) (map (\<lambda>(k, v). (k, go_sort v)) d)"
    using assms by (auto simp: go_fields_def)
  then show ?thesis
    by (simp add: sort_fields_def go_sort_fields_def go_fields_def SortStableFunc_map del: map_map)
qed

lemma tree_sort_go: "tree_sort (go_tree v) = go_tree (go_sort v)"
proof (induction v)
  case (GoD d)
  then have "sort_fields (go_fields d) = go_fields (go_sort_fields d)"
    by (intro sort_go_fields) auto
  then show ?case by (simp add: tree_sort_Sub)
next
  case (GoA a)
  have "map (apsnd tree_sort) (go_items e a) = go_items e (map go_sort a)" for e
    using GoA by (induction a arbitrary: e) (simp_all add: go_items_Cons, simp add: go_items_def)
  then show ?case by (simp add: tree_sort_Sub)
qed (simp_all add: tree_sort_scalar container_def Let_def del: go_tree_simps)

lemma storable_go_sort: "storable v \<Longrightarrow> storable (go_sort v)"
proof (induction v)
  case (GoD d)
  then show ?case by (fastforce simp: list_all_iff set_go_sort_fields)
next
  case (GoA a)
  then show ?case by (auto simp: list_all_iff)
qed simp_all

section \<open>Sizes\<close>

lemma length_enc_go_sort:
  "length (enc_doc (go_fields (go_sort_fields d))) = length (enc_doc (go_fields d))"
  using length_enc_tree_sort [of "go_tree (GoD d)"] tree_sort_go [of "GoD d"] by simp

lemma wf_go_fields:
  assumes "storable (GoD d)" and "length (enc_doc (go_fields d)) < 2147483648"
  shows "wf_doc (go_fields d)"
  using storable_wf [OF assms(1)] assms(2) by (simp add: wf_doc_def fits_def)

lemma UnmarshalToD_go:
  assumes "storable (GoD d)" and "length (enc_doc (go_fields d)) < 2147483648"
  shows "UnmarshalToD (enc_doc (go_fields d)) = Inr (map (\<lambda>(k, v). (k, unmarshaled v)) d)"
proof -
  have "unmarshalValue (raw_of (go_tree (GoD d))) = Inr (unmarshaled (GoD d))"
    by (rule storable_unmarshals [OF assms(1)]) (use assms(2) in \<open>simp add: fits_def\<close>)
  then show ?thesis by (auto simp: unmarshalValue.simps raw_of_def go_bind_eq_Inr)
qed

section \<open>A Go value as a BSON value\<close>

text \<open>The values of \<open>ToRawValue\<close> whose bytes are not a document or an array of their own.\<close>

fun scalar_go :: "goval \<Rightarrow> bool" where
  "scalar_go (GoRaw d) = False"
| "scalar_go (GoRawArray d) = False"
| "scalar_go v = marshalable v"

lemma ToRawValue_wf:
  assumes "scalar_go x"
  shows "\<exists>t p. ToRawValue x = Inr \<lparr>rv_type = t, rv_value = p\<rparr> \<and> wf_val (Scalar t p)
    \<and> RawValueTo (go_type x) \<lparr>rv_type = t, rv_value = p\<rparr> = Inr (canonical_go x)"
proof -
  have m: "marshalable x" using assms by (cases x) auto
  obtain rv where rv: "ToRawValue x = Inr rv" "RawValueTo (go_type x) rv = Inr (canonical_go x)"
    using cast_round_trip [OF m] by blast
  have "wf_val (Scalar (rv_type rv) (rv_value rv))"
  proof (cases "\<exists>n. x = GoInt n")
    case True
    then have "(\<exists>n. rv = i64ToRawValue n) \<or> (\<exists>w. rv = i32ToRawValue w)"
      using rv(1) by (auto split: if_splits)
    then show ?thesis
      by (auto simp: i64ToRawValue_def i32ToRawValue_def int64_codec.wf int32_codec.wf)
  next
    case False
    then have s: "storable x" "\<not> container x" "go_tree x = Scalar (rv_type rv) (rv_value rv)"
      using assms rv(1) by (cases x; simp add: container_def)+
    show ?thesis using storable_scalar_wf [OF s(1,2)] s(3) by simp
  qed
  then show ?thesis using rv by (cases rv) auto
qed

section \<open>Lookups that an edit does not touch\<close>

lemma tree_edit_shape:
  assumes "tree_edit r fs (k # ks) = Inr (Some fs')"
  shows "\<exists>pre v post mid. fs = pre @ (k, v) # post \<and> map_of pre k = None \<and> fs' = pre @ mid @ post
    \<and> (ks = [] \<and> fst ` set mid \<subseteq> {k}
       \<or> (\<exists>t sub sub'. v = Sub t sub \<and> tree_edit r sub ks = Inr (Some sub') \<and> mid = [(k, Sub t sub')]))"
proof -
  obtain pre v post where s: "split_field k fs = Some (pre, v, post)"
    using assms by (auto split: option.splits)
  then have fs: "fs = pre @ (k, v) # post" and pre: "map_of pre k = None"
    by (auto dest: split_field_Some split_field_pre)
  show ?thesis
  proof (cases "ks = []")
    case True
    then have "fs' = pre @ (case r of None \<Rightarrow> [] | Some nv \<Rightarrow> [(k, nv)]) @ post" using assms s by simp
    then show ?thesis using fs pre True
      by (intro exI [of _ pre] exI [of _ v] exI [of _ post]
          exI [of _ "case r of None \<Rightarrow> [] | Some nv \<Rightarrow> [(k, nv)]"]) (auto split: option.split)
  next
    case False
    then obtain t sub sub' where "v = Sub t sub" "tree_edit r sub ks = Inr (Some sub')"
      "fs' = pre @ (k, Sub t sub') # post"
      using assms s by (auto simp: go_bind_eq_Inr split: bson.splits)
    then show ?thesis using fs pre
      by (intro exI [of _ pre] exI [of _ v] exI [of _ post] exI [of _ "[(k, Sub t sub')]"]) auto
  qed
qed

text \<open>Two pointers part when they go to different fields of one document.\<close>

lemma tree_edit_other:
  assumes "tree_edit r fs (p @ k # ks) = Inr (Some fs')" and "k' \<noteq> k"
  shows "tree_lookup fs' (p @ k' # ks') = tree_lookup fs (p @ k' # ks')"
  using assms(1)
proof (induction p arbitrary: fs fs')
  case Nil
  then obtain pre v post mid where e: "fs = pre @ (k, v) # post" "fs' = pre @ mid @ post" "fst ` set mid \<subseteq> {k}"
    using tree_edit_shape [of r fs k ks fs'] by auto
  have "map_of mid k' = None" using e(3) assms(2) by (auto simp: map_of_eq_None_iff)
  then have "map_of fs' k' = map_of fs k'" using e(1,2) assms(2) by (auto simp: map_add_def split: option.split)
  then show ?case by simp
next
  case (Cons q p)
  then obtain pre t sub sub' post where e: "fs = pre @ (q, Sub t sub) # post" "map_of pre q = None"
    "fs' = pre @ (q, Sub t sub') # post" "tree_edit r sub (p @ k # ks) = Inr (Some sub')"
    using tree_edit_shape [of r fs q "p @ k # ks" fs'] by auto
  then show ?case using Cons.IH [OF e(4)] by (simp add: map_add_def)
qed

end
