(* ===== verification/Bson_Compare.thy ===== *)
theory Bson_Compare
  imports Bson_Value Go_Sort
begin

text \<open>
  \<open>bsontools/compare.go\<close> (comparison of BSON int64s, strings and binaries in BSON sort order) and
  \<open>mongotools/recordid.go\<close> (comparison of record IDs, where binaries go byte by byte).
\<close>

section \<open>The code\<close>

text \<open>\<open>cmp.Compare\<close> on a linearly ordered type without NaN.\<close>

definition cmp_Compare :: "'a :: linorder \<Rightarrow> 'a \<Rightarrow> int" where
  "cmp_Compare x y = (if x < y then -1 else if y < x then 1 else 0)"

definition CompareInt64s :: "RawValue \<Rightarrow> RawValue \<Rightarrow> int res" where
  "CompareInt64s a b =
     go_bind (RawValueToInt64 a) (\<lambda>aGo.
     go_bind (RawValueToInt64 b) (\<lambda>bGo.
     Inr (cmp_Compare (sint aGo) (sint bGo))))"

definition CompareStrings :: "RawValue \<Rightarrow> RawValue \<Rightarrow> int res" where
  "CompareStrings a b =
     go_bind (RawValueToStringBytes a) (\<lambda>aGo.
     go_bind (RawValueToStringBytes b) (\<lambda>bGo.
     Inr (compare_bytes aGo bGo)))"

text \<open>The comparison of \<open>CompareBinaries\<close> on the decoded subtype and data.\<close>

definition compare_binary :: "byte \<times> bytes \<Rightarrow> byte \<times> bytes \<Rightarrow> int" where
  "compare_binary a b =
     (let ret = cmp_Compare (length (snd a)) (length (snd b)) in
      if ret \<noteq> 0 then ret
      else let ret = cmp_Compare (fst a) (fst b) in
        if ret \<noteq> 0 then ret else compare_bytes (snd a) (snd b))"

definition CompareBinaries :: "RawValue \<Rightarrow> RawValue \<Rightarrow> int res" where
  "CompareBinaries a b =
     go_bind (RawValueToBinary a) (\<lambda>aGo.
     go_bind (RawValueToBinary b) (\<lambda>bGo.
     Inr (compare_binary aGo bGo)))"

definition comparatorByType :: "byte \<Rightarrow> (RawValue \<Rightarrow> RawValue \<Rightarrow> int res) option" where
  "comparatorByType = [TypeInt64 \<mapsto> CompareInt64s, TypeString \<mapsto> CompareStrings,
     TypeBinary \<mapsto> CompareBinaries]"

definition GetComparableTypes :: "byte set" where
  "GetComparableTypes = dom comparatorByType"

definition compareBinaryRecordID :: "RawValue \<Rightarrow> RawValue \<Rightarrow> int res" where
  "compareBinaryRecordID a b =
     go_bind (RawValueToBinary a) (\<lambda>aBin.
     go_bind (RawValueToBinary b) (\<lambda>bBin.
     if fst aBin \<noteq> 0 \<or> fst bBin \<noteq> 0 then Inl (Err (Errorf ''cannot compare BSON binary subtypes''))
     else Inr (compare_bytes (snd aBin) (snd bBin))))"

definition typeComparator :: "byte \<Rightarrow> (RawValue \<Rightarrow> RawValue \<Rightarrow> int res) option" where
  "typeComparator = [TypeInt64 \<mapsto> CompareInt64s, TypeString \<mapsto> CompareStrings,
     TypeBinary \<mapsto> compareBinaryRecordID]"

definition GetKnownRecordIDTypes :: "byte set" where
  "GetKnownRecordIDTypes = dom typeComparator"

definition createCannotCompareTypesErr :: "RawValue \<Rightarrow> RawValue \<Rightarrow> bson_error" where
  "createCannotCompareTypesErr a b = Errorf ''cannot compare BSON record IDs of this type''"

definition CompareRecordIDs :: "RawValue \<Rightarrow> RawValue \<Rightarrow> int res" where
  "CompareRecordIDs a b =
     (if rv_type a \<noteq> rv_type b then Inl (Err (Errorf ''cannot compare mismatched BSON types''))
      else case typeComparator (rv_type a) of
        None \<Rightarrow> Inl (Err (createCannotCompareTypesErr a b))
      | Some compare \<Rightarrow> compare a b)"

section \<open>The comparisons meet the contract of a comparer\<close>

lemma cmp_Compare_simps [simp]:
  "cmp_Compare x x = 0"
  "cmp_Compare x y = 0 \<longleftrightarrow> x = y"
  "cmp_Compare x y \<le> 0 \<longleftrightarrow> x \<le> y"
  by (auto simp: cmp_Compare_def)

lemma cmp_Compare_swap: "cmp_Compare y x = - cmp_Compare x y"
  by (auto simp: cmp_Compare_def)

interpretation int_cmp: comparator "cmp_Compare :: int \<Rightarrow> int \<Rightarrow> int"
  by unfold_locales (auto simp: cmp_Compare_def split: if_splits)

lemma compare_binary_swap: "compare_binary b a = - compare_binary a b"
  using compare_bytes_swap [of "snd b" "snd a"]
  by (auto simp: compare_binary_def Let_def cmp_Compare_def)

text \<open>The order of \<open>CompareBinaries\<close>: by length, then subtype, then data.\<close>

lemma compare_binary_le:
  "compare_binary a b \<le> 0 \<longleftrightarrow>
     length (snd a) < length (snd b) \<or>
     length (snd a) = length (snd b) \<and>
       (fst a < fst b \<or> fst a = fst b \<and> compare_bytes (snd a) (snd b) \<le> 0)"
  by (auto simp: compare_binary_def Let_def cmp_Compare_def)

lemma compare_binary_eq: "compare_binary a b = 0 \<longleftrightarrow> a = b"
  by (auto simp: compare_binary_def Let_def cmp_Compare_def compare_bytes_eq_0 prod_eq_iff)

interpretation binary_cmp: comparator compare_binary
proof
  fix a b c
  show "sgn (compare_binary b a) = - sgn (compare_binary a b)"
    by (simp add: compare_binary_swap [of b a])
  show "compare_binary a b \<le> 0 \<Longrightarrow> compare_binary b c \<le> 0 \<Longrightarrow> compare_binary a c \<le> 0"
    using compare_bytes_trans [of "snd a" "snd b" "snd c"] unfolding compare_binary_le by auto
qed

text \<open>A record ID as the value it is ordered by.\<close>

datatype record_key = KInt int | KString bytes | KBinary bytes

fun key_compare :: "record_key \<Rightarrow> record_key \<Rightarrow> int" where
  "key_compare (KInt i) (KInt j) = cmp_Compare i j"
| "key_compare (KString s) (KString t) = compare_bytes s t"
| "key_compare (KBinary s) (KBinary t) = compare_bytes s t"
| "key_compare (KInt _) _ = -1"
| "key_compare (KString _) (KBinary _) = -1"
| "key_compare _ _ = 1"

definition record_key :: "RawValue \<Rightarrow> record_key option" where
  "record_key v =
     (if rv_type v = TypeInt64 then
        (case RawValueToInt64 v of Inr x \<Rightarrow> Some (KInt (sint x)) | Inl _ \<Rightarrow> None)
      else if rv_type v = TypeString then
        (case RawValueToStringBytes v of Inr s \<Rightarrow> Some (KString s) | Inl _ \<Rightarrow> None)
      else if rv_type v = TypeBinary then
        (case RawValueToBinary v of Inr (t, d) \<Rightarrow> if t = 0 then Some (KBinary d) else None | Inl _ \<Rightarrow> None)
      else None)"

lemma key_compare_swap: "key_compare b a = - key_compare a b"
  by (cases a; cases b) (auto simp: cmp_Compare_def intro: compare_bytes_swap)

interpretation record_cmp: comparator key_compare
proof
  fix a b c
  show "sgn (key_compare b a) = - sgn (key_compare a b)"
    by (simp add: key_compare_swap [of b a])
  show "key_compare a b \<le> 0 \<Longrightarrow> key_compare b c \<le> 0 \<Longrightarrow> key_compare a c \<le> 0"
    by (cases a; cases b; cases c) (auto intro: compare_bytes_trans)
qed

lemma key_compare_eq: "key_compare a b = 0 \<longleftrightarrow> a = b"
  by (cases a; cases b) (simp_all add: compare_bytes_eq_0)

lemma CompareRecordIDs_iff:
  "CompareRecordIDs a b = Inr n \<longleftrightarrow>
     rv_type a = rv_type b \<and> (\<exists>x y. record_key a = Some x \<and> record_key b = Some y \<and> n = key_compare x y)"
  by (auto simp: CompareRecordIDs_def typeComparator_def record_key_def CompareInt64s_def
      CompareStrings_def compareBinaryRecordID_def go_bind_eq_Inr split: sum.splits if_splits)

section \<open>Properties\<close>

lemma CompareBinaries_eq:
  "CompareBinaries a b = Inr n \<longleftrightarrow>
     (\<exists>x y. RawValueToBinary a = Inr x \<and> RawValueToBinary b = Inr y \<and> n = compare_binary x y)"
  by (auto simp: CompareBinaries_def go_bind_eq_Inr)

text \<open>
  C17: \<open>CompareBinaries\<close> is the BSON sort order of binaries: on two binary values it returns a
  number whose sign orders them by length first, then by subtype, then by the bytes, and 0 only
  for equal subtype and data.
\<close>

theorem CompareBinaries_sort_order:
  assumes "RawValueToBinary a = Inr (s, d)" and "RawValueToBinary b = Inr (s', d')"
  shows "\<exists>n. CompareBinaries a b = Inr n
    \<and> (n \<le> 0 \<longleftrightarrow> length d < length d'
         \<or> length d = length d' \<and> (s < s' \<or> s = s' \<and> compare_bytes d d' \<le> 0))
    \<and> (n = 0 \<longleftrightarrow> s = s' \<and> d = d')"
  using assms compare_binary_le [of "(s, d)" "(s', d')"] compare_binary_eq [of "(s, d)" "(s', d')"]
  by (auto simp: CompareBinaries_eq)

theorem CompareBinaries_sort_order_witness:
  "\<exists>n. CompareBinaries \<lparr>rv_type = TypeBinary, rv_value = AppendBinary [] 0 [9]\<rparr>
        \<lparr>rv_type = TypeBinary, rv_value = AppendBinary [] 0 [1, 1]\<rparr> = Inr n \<and> n \<le> 0"
proof -
  have "RawValueToBinary \<lparr>rv_type = TypeBinary, rv_value = AppendBinary [] 0 d\<rparr> = Inr (0, d)"
    if "length d < 100" for d
    using binary_codec.reads [of "(0, d)"] that by (simp add: RawValueToBinary_def BinaryOK_def short_def)
  from CompareBinaries_sort_order [OF this [of "[9]"] this [of "[1, 1]"]] show ?thesis by auto
qed

text \<open>
  C30: \<open>CompareRecordIDs\<close> succeeds exactly on two record IDs of one known type that decode (int64,
  string, or binary of subtype 0) and then compares what they hold: integers as signed numbers,
  strings and binaries byte by byte, never by length first; every other pair is an error. Where
  it succeeds it is a total order: swapping the arguments negates the result, it is transitive,
  and it is 0 only for record IDs with the same content.
\<close>

theorem CompareRecordIDs_total_order:
  "(CompareRecordIDs a b = Inr i \<longleftrightarrow>
      rv_type a = rv_type b \<and> (\<exists>x y. record_key a = Some x \<and> record_key b = Some y \<and> i = key_compare x y))
   \<and> (\<forall>m n. CompareRecordIDs a b = Inr m \<and> CompareRecordIDs b c = Inr n \<longrightarrow>
        CompareRecordIDs b a = Inr (- m)
        \<and> (\<exists>k. CompareRecordIDs a c = Inr k \<and> (m \<le> 0 \<longrightarrow> n \<le> 0 \<longrightarrow> k \<le> 0))
        \<and> (m = 0 \<longleftrightarrow> record_key a = record_key b))"
proof (intro conjI CompareRecordIDs_iff allI impI; elim conjE)
  fix m n assume "CompareRecordIDs a b = Inr m" and "CompareRecordIDs b c = Inr n"
  then obtain x y z where k: "record_key a = Some x" "record_key b = Some y" "record_key c = Some z"
    "rv_type a = rv_type b" "rv_type b = rv_type c" "m = key_compare x y" "n = key_compare y z"
    by (auto simp: CompareRecordIDs_iff)
  show "CompareRecordIDs b a = Inr (- m)"
    using k key_compare_swap [of y x] by (simp add: CompareRecordIDs_iff)
  have "CompareRecordIDs a c = Inr (key_compare x z)"
    using k by (simp add: CompareRecordIDs_iff)
  moreover have "m \<le> 0 \<Longrightarrow> n \<le> 0 \<Longrightarrow> key_compare x z \<le> 0"
    using k record_cmp.trans by simp
  ultimately show "\<exists>k. CompareRecordIDs a c = Inr k \<and> (m \<le> 0 \<longrightarrow> n \<le> 0 \<longrightarrow> k \<le> 0)" by blast
  show "m = 0 \<longleftrightarrow> record_key a = record_key b"
    using k by (simp add: key_compare_eq)
qed

theorem CompareRecordIDs_total_order_witness:
  "CompareRecordIDs (i64ToRawValue 3) (i64ToRawValue 2) = Inr 1
   \<and> CompareRecordIDs (i64ToRawValue 2) (i64ToRawValue 3) = Inr (-1)"
proof -
  have key: "record_key (i64ToRawValue x) = Some (KInt (sint x))" for x
    using double_codec.dec_all [of x]
    by (simp add: record_key_def RawValueToInt64_def valueOK_def i64ToRawValue_def)
  have t: "rv_type (i64ToRawValue x) = TypeInt64" for x by (simp add: i64ToRawValue_def)
  have "CompareRecordIDs (i64ToRawValue 3) (i64ToRawValue 2) = Inr 1"
    and "CompareRecordIDs (i64ToRawValue 2) (i64ToRawValue 2) = Inr 0"
    by (simp_all add: CompareRecordIDs_iff key t cmp_Compare_def)
  with CompareRecordIDs_total_order [of "i64ToRawValue 3" "i64ToRawValue 2" 1 "i64ToRawValue 2"]
  show ?thesis by simp
qed

end
