(* ===== verification/Go_Fmt.thy ===== *)
theory Go_Fmt
  imports Go_Utf8
begin

text \<open>
  The quoting of strings in messages: the verb \<open>%#q\<close> of package \<open>fmt\<close> for a string and for a
  slice of strings, with \<open>strconv.CanBackquote\<close> and \<open>strconv.Quote\<close>. The tables of Unicode that say
  which runes above \<open>U+00FF\<close> are printable are a parameter.
\<close>

section \<open>strconv\<close>

function can_backquote :: "nat list \<Rightarrow> bool" where
  "can_backquote s =
     (if s = [] then True
      else case DecodeRune s of (r, wid) \<Rightarrow>
        if 1 < wid then r \<noteq> 0xFEFF \<and> can_backquote (drop wid s)
        else \<not> (r = 0xFFFD \<or> r < 32 \<and> r \<noteq> 9 \<or> r = 96 \<or> r = 0x7F) \<and> can_backquote (drop wid s))"
  by pat_completeness auto
termination
  by (relation "measure length") (auto dest: DecodeRune_progress)

declare can_backquote.simps [simp del]

definition CanBackquote :: "bytes \<Rightarrow> bool" where
  "CanBackquote s = can_backquote (map unat s)"

definition IsPrint :: "(nat \<Rightarrow> bool) \<Rightarrow> nat \<Rightarrow> bool" where
  "IsPrint table r = (if r \<le> 0xFF then 0x20 \<le> r \<and> r < 0x7F \<or> 0xA1 \<le> r \<and> r \<noteq> 0xAD else table r)"

definition hex_digit :: "nat \<Rightarrow> nat" where
  "hex_digit n = (if n < 10 then 48 + n else 87 + n)"

fun hex_digits :: "nat \<Rightarrow> nat \<Rightarrow> nat list" where
  "hex_digits 0 r = []"
| "hex_digits (Suc k) r = hex_digits k (r div 16) @ [hex_digit (r mod 16)]"

text \<open>\<open>appendEscapedRune\<close> for a double quote; a decoded rune is always valid.\<close>

definition escape_rune :: "(nat \<Rightarrow> bool) \<Rightarrow> nat \<Rightarrow> nat list" where
  "escape_rune table r =
     (if r = 34 \<or> r = 92 then [92, r]
      else if IsPrint table r then encode_rune r
      else if r = 7 then [92, 97] else if r = 8 then [92, 98] else if r = 12 then [92, 102]
      else if r = 10 then [92, 110] else if r = 13 then [92, 114] else if r = 9 then [92, 116]
      else if r = 11 then [92, 118]
      else if r < 32 \<or> r = 0x7F then [92, 120] @ hex_digits 2 r
      else if r < 0x10000 then [92, 117] @ hex_digits 4 r
      else [92, 85] @ hex_digits 8 r)"

function quote_loop :: "(nat \<Rightarrow> bool) \<Rightarrow> nat list \<Rightarrow> nat list" where
  "quote_loop table s =
     (case s of
        [] \<Rightarrow> []
      | b # _ \<Rightarrow>
          case DecodeRune s of (r, width) \<Rightarrow>
            (if width = 1 \<and> r = 0xFFFD then [92, 120] @ hex_digits 2 b else escape_rune table r)
            @ quote_loop table (drop width s))"
  by pat_completeness auto
termination
  by (relation "measure (length \<circ> snd)") (auto dest: DecodeRune_progress)

declare quote_loop.simps [simp del]

definition Quote :: "(nat \<Rightarrow> bool) \<Rightarrow> bytes \<Rightarrow> bytes" where
  "Quote table s = map of_nat ([34] @ quote_loop table (map unat s) @ [34])"

section \<open>fmt\<close>

text \<open>\<open>%#q\<close> of a string, and of a slice of strings.\<close>

definition SharpQ :: "(nat \<Rightarrow> bool) \<Rightarrow> bytes \<Rightarrow> bytes" where
  "SharpQ table s = (if CanBackquote s then [96] @ s @ [96] else Quote table s)"

fun join_space :: "bytes list \<Rightarrow> bytes" where
  "join_space [] = []"
| "join_space (x # xs) = x @ concat (map (\<lambda>y. 32 # y) xs)"

definition SharpQ_slice :: "(nat \<Rightarrow> bool) \<Rightarrow> bytes list \<Rightarrow> bytes" where
  "SharpQ_slice table ss = [91] @ join_space (map (SharpQ table) ss) @ [93]"

section \<open>Facts\<close>

text \<open>A plain ASCII name is put between backquotes.\<close>

definition plain :: "bytes \<Rightarrow> bool" where
  "plain s \<longleftrightarrow> (\<forall>b \<in> set s. 32 \<le> unat b \<and> unat b < 127 \<and> unat b \<noteq> 96)"

lemma can_backquote_plain:
  "\<forall>b \<in> set s. 32 \<le> b \<and> b < 127 \<and> b \<noteq> 96 \<Longrightarrow> can_backquote s"
proof (induction s)
  case Nil
  then show ?case by (simp add: can_backquote.simps)
next
  case (Cons b s)
  then show ?case by (subst can_backquote.simps) (simp add: DecodeRune_def)
qed

lemma SharpQ_plain: "plain s \<Longrightarrow> SharpQ table s = [96] @ s @ [96]"
  by (simp add: SharpQ_def CanBackquote_def can_backquote_plain plain_def)

text \<open>Whatever the string, what is printed stays on one line: no control character but a tab.\<close>

definition one_line :: "nat list \<Rightarrow> bool" where
  "one_line s \<longleftrightarrow> (\<forall>b \<in> set s. 32 \<le> b \<or> b = 9)"

lemma one_line_simps [simp]:
  "one_line []" "one_line (b # s) \<longleftrightarrow> (32 \<le> b \<or> b = 9) \<and> one_line s"
  "one_line (s @ t) \<longleftrightarrow> one_line s \<and> one_line t"
  by (auto simp: one_line_def)

lemma one_line_hex [simp]: "one_line (hex_digits k r)"
  by (induction k arbitrary: r) (auto simp: hex_digit_def)

lemma one_line_encode: "32 \<le> r \<Longrightarrow> one_line (encode_rune r)"
  by (simp add: encode_rune_def)

lemma IsPrint_high: "IsPrint table r \<Longrightarrow> 32 \<le> r"
  by (auto simp: IsPrint_def split: if_splits)

lemma one_line_escape: "one_line (escape_rune table r)"
  by (simp add: escape_rune_def one_line_encode IsPrint_high del: hex_digits.simps)

lemma one_line_quote: "one_line (quote_loop table s)"
proof (induction table s rule: quote_loop.induct)
  case (1 table s)
  show ?case
  proof (cases s)
    case Nil
    then show ?thesis by (simp add: quote_loop.simps)
  next
    case (Cons b q)
    obtain r w where d: "DecodeRune (b # q) = (r, w)" by (cases "DecodeRune (b # q)")
    then have "one_line (quote_loop table (drop w (b # q)))" using "1.IH" [OF Cons d [folded Cons, symmetric]] Cons by simp
    then show ?thesis
      unfolding Cons by (subst quote_loop.simps) (simp add: d one_line_escape del: hex_digits.simps)
  qed
qed

lemma DecodeRune_one:
  assumes "DecodeRune (b # q) = (r, w)" and "\<not> 1 < w" and "r \<noteq> 0xFFFD"
  shows "r = b \<and> w = 1"
  using assms by (auto simp: DecodeRune_def split: if_splits)

lemma DecodeRune_width:
  assumes "DecodeRune (b # q) = (r, w)"
  shows "w = 1 \<or> w = 2 \<and> 32 \<le> b \<and> q \<noteq> [] \<and> cont (q ! 0)
    \<or> w = 3 \<and> 32 \<le> b \<and> 2 \<le> length q \<and> 32 \<le> q ! 0 \<and> cont (q ! 1)
    \<or> w = 4 \<and> 32 \<le> b \<and> 3 \<le> length q \<and> 32 \<le> q ! 0 \<and> cont (q ! 1) \<and> cont (q ! 2)"
proof -
  have "second3 b c \<Longrightarrow> 32 \<le> c" "second4 b c \<Longrightarrow> 32 \<le> c" for c
    by (auto simp: second3_def second4_def split: if_splits)
  with assms show ?thesis unfolding DecodeRune_def list.case by (simp split: if_splits)
qed

lemma DecodeRune_many:
  assumes "DecodeRune (b # q) = (r, w)" and "1 < w"
  shows "one_line (take w (b # q))"
proof -
  have c: "cont x \<Longrightarrow> 32 \<le> x" for x by (simp add: cont_def)
  consider "w = 2" "32 \<le> b" "q \<noteq> []" "32 \<le> q ! 0"
    | "w = 3" "32 \<le> b" "2 \<le> length q" "32 \<le> q ! 0" "32 \<le> q ! 1"
    | "w = 4" "32 \<le> b" "3 \<le> length q" "32 \<le> q ! 0" "32 \<le> q ! 1" "32 \<le> q ! 2"
    using DecodeRune_width [OF assms(1)] assms(2) c by auto
  then have "32 \<le> b \<and> w - 1 \<le> length q \<and> (\<forall>i < w - 1. 32 \<le> q ! i)"
  proof cases
    case 1
    then show ?thesis by (cases q) (auto simp: less_Suc_eq)
  qed (auto simp: less_Suc_eq numeral_2_eq_2 numeral_3_eq_3)
  moreover obtain n where "w = Suc n" using assms(2) by (cases w) auto
  ultimately show ?thesis by (auto simp: one_line_def in_set_conv_nth)
qed

lemma one_line_backquote: "can_backquote s \<Longrightarrow> one_line s"
proof (induction s rule: can_backquote.induct)
  case (1 s)
  show ?case
  proof (cases s)
    case (Cons b q)
    obtain r w where d: "DecodeRune (b # q) = (r, w)" by (cases "DecodeRune (b # q)")
    have bq: "if 1 < w then r \<noteq> 0xFEFF \<and> can_backquote (drop w (b # q))
        else \<not> (r = 0xFFFD \<or> r < 32 \<and> r \<noteq> 9 \<or> r = 96 \<or> r = 0x7F) \<and> can_backquote (drop w (b # q))"
      using "1.prems" d can_backquote.simps [of "b # q"] unfolding Cons by simp
    then have "can_backquote (drop w (b # q))" by (simp split: if_splits)
    then have tail: "one_line (drop w (b # q))"
      using "1.IH" [unfolded Cons, OF _ d [symmetric]] by blast
    have "one_line (take w (b # q))"
    proof (cases "1 < w")
      case True
      then show ?thesis using DecodeRune_many [OF d] by simp
    next
      case False
      then show ?thesis using bq DecodeRune_one [OF d False] by auto
    qed
    then show ?thesis using tail append_take_drop_id [of w "b # q"] unfolding Cons
      by (metis one_line_simps(3))
  qed simp
qed

text \<open>The text of \<open>%#q\<close> is one line, whatever bytes the string has.\<close>

definition single_line :: "bytes \<Rightarrow> bool" where
  "single_line s \<longleftrightarrow> one_line (map unat s)"

lemma single_line_simps [simp]:
  "single_line []" "single_line (b # s) \<longleftrightarrow> (32 \<le> unat b \<or> unat b = 9) \<and> single_line s"
  "single_line (s @ t) \<longleftrightarrow> single_line s \<and> single_line t"
  by (simp_all add: single_line_def)

lemma DecodeRune_bound:
  assumes "DecodeRune s = (r, w)"
  shows "r < 0x200000"
proof -
  have m: "x mod 0x20 < 0x20" "x mod 0x10 < 0x10" "x mod 8 < 8" "x mod 0x40 < 0x40" for x :: nat by simp_all
  have "(x mod 0x20) * 0x40 + y mod 0x40 < 0x200000"
    "(x mod 0x10) * 0x1000 + (y mod 0x40) * 0x40 + z mod 0x40 < 0x200000"
    "(x mod 8) * 0x40000 + (y mod 0x40) * 0x1000 + (z mod 0x40) * 0x40 + u mod 0x40 < 0x200000" for x y z u :: nat
    using m(1,2,3) [of x] m(4) [of y] m(4) [of z] m(4) [of u] by linarith+
  then show ?thesis using assms unfolding DecodeRune_def by (auto split: list.splits if_splits)
qed

lemma hex_digits_byte: "b \<in> set (hex_digits k r) \<Longrightarrow> b < 256"
proof (induction k arbitrary: r)
  case (Suc k)
  have "r mod 16 < 16" by simp
  then have "hex_digit (r mod 16) < 256" unfolding hex_digit_def by (simp only: split: if_splits) linarith
  with Suc show ?case by auto
qed simp

lemma encode_rune_byte: "r < 0x200000 \<Longrightarrow> b \<in> set (encode_rune r) \<Longrightarrow> b < 256"
  by (auto simp: encode_rune_def split: if_splits)

lemma escape_rune_byte: "r < 0x200000 \<Longrightarrow> b \<in> set (escape_rune table r) \<Longrightarrow> b < 256"
  by (auto simp: escape_rune_def encode_rune_byte hex_digits_byte simp del: hex_digits.simps split: if_splits)

lemma quote_loop_byte: "b \<in> set (quote_loop table s) \<Longrightarrow> b < 256"
proof (induction table s rule: quote_loop.induct)
  case (1 table s)
  then show ?case
  proof (cases s)
    case (Cons c q)
    obtain r w where d: "DecodeRune (c # q) = (r, w)" by (cases "DecodeRune (c # q)")
    have "b \<in> set (hex_digits 2 c) \<union> {92, 120} \<or> b \<in> set (escape_rune table r)
        \<or> b \<in> set (quote_loop table (drop w (c # q)))"
      using "1.prems" d unfolding Cons by (subst (asm) quote_loop.simps) (auto simp del: hex_digits.simps split: if_splits)
    then show ?thesis
      using "1.IH" [OF Cons d [folded Cons, symmetric]] hex_digits_byte escape_rune_byte [OF DecodeRune_bound [OF d]]
      unfolding Cons by auto
  qed (simp add: quote_loop.simps)
qed

lemma single_line_SharpQ: "single_line (SharpQ table s)"
proof (cases "CanBackquote s")
  case True
  then show ?thesis
    using one_line_backquote [of "map unat s"] by (simp add: SharpQ_def CanBackquote_def) (simp add: single_line_def)
next
  case False
  have "map unat (map of_nat (quote_loop table t) :: bytes) = quote_loop table t" for t
    unfolding map_map
    by (rule map_idI) (use quote_loop_byte [of _ table t] in \<open>auto simp: unat_of_nat\<close>)
  then show ?thesis
    using False one_line_quote [of table "map unat s"] by (simp add: SharpQ_def Quote_def) (simp add: single_line_def)
qed

lemma single_line_SharpQ_slice: "single_line (SharpQ_slice table ss)"
proof -
  have "single_line (join_space (map (SharpQ table) ss))"
  proof (cases ss)
    case (Cons x xs)
    have "single_line (concat (map (\<lambda>y. 32 # y) (map (SharpQ table) xs)))"
      by (induction xs) (simp_all add: single_line_SharpQ)
    then show ?thesis using Cons by (simp add: single_line_SharpQ)
  qed simp
  then show ?thesis by (simp add: SharpQ_slice_def)
qed

end
