(* ===== verification/Error_Text.thy ===== *)
theory Error_Text
  imports Bson_Core Go_Fmt
begin

text \<open>
  The texts of the error types \<open>bsontools\<close> defines, \<open>PointerTooDeepError\<close> (\<open>edit.go\<close>) and
  \<open>cannotCastError\<close> (\<open>raw_value.go\<close>), with the driver's names of the BSON types.
\<close>

definition Type_String :: "byte \<Rightarrow> bytes" where
  "Type_String t =
    (if t = 1 then str ''double''
     else if t = 2 then str ''string''
     else if t = 3 then str ''embedded document''
     else if t = 4 then str ''array''
     else if t = 5 then str ''binary''
     else if t = 6 then str ''undefined''
     else if t = 7 then str ''objectID''
     else if t = 8 then str ''boolean''
     else if t = 9 then str ''UTC datetime''
     else if t = 10 then str ''null''
     else if t = 11 then str ''regex''
     else if t = 12 then str ''dbPointer''
     else if t = 13 then str ''javascript''
     else if t = 14 then str ''symbol''
     else if t = 15 then str ''code with scope''
     else if t = 16 then str ''32-bit integer''
     else if t = 17 then str ''timestamp''
     else if t = 18 then str ''64-bit integer''
     else if t = 19 then str ''128-bit decimal''
     else if t = 0x7F then str ''max key''
     else if t = 0xFF then str ''min key''
     else str ''invalid'')"

definition PointerTooDeepError_Error :: "(nat \<Rightarrow> bool) \<Rightarrow> bytes list \<Rightarrow> byte \<Rightarrow> bytes list \<Rightarrow> bytes" where
  "PointerTooDeepError_Error table givenPointer elementType elementPointer =
     str ''cannot delete '' @ SharpQ_slice table givenPointer @ str '' from BSON doc because ''
     @ SharpQ_slice table elementPointer @ str '' is of a simple type ('' @ Type_String elementType @ str '')''"

text \<open>The Go type is the name \<open>%T\<close> prints.\<close>

definition cannotCastError_Error :: "string \<Rightarrow> byte \<Rightarrow> bytes" where
  "cannotCastError_Error T gotBSONType =
     str ''cannot cast BSON '' @ Type_String gotBSONType @ str '' to Go '' @ str T"

text \<open>
  A document pointer comes from data that may hold any bytes; the text of the error that names it
  is still one line, so it cannot forge another line of a log.
\<close>

lemma single_line_Type_String: "single_line (Type_String t)"
  unfolding Type_String_def by (simp add: str_def)

lemma PointerTooDeepError_single_line: "single_line (PointerTooDeepError_Error table given t el)"
  unfolding PointerTooDeepError_Error_def
  by (simp add: single_line_SharpQ_slice single_line_Type_String) (simp add: str_def)

end
