(* ===== verification/Go_Float.thy ===== *)
theory Go_Float
  imports Bson_Core
begin

text \<open>
  Go's \<open>float64\<close> as the exact number its 64 bits stand for, with the operations the program
  uses: decoding, comparison, truncation, conversion from int64 (rounded to 53 bits, ties to
  even) and \<open>safecast.Convert[int32]\<close>
  (\<open>vendor/github.com/ccoveille/go-safecast/v2/conversion.go\<close>). \<open>Fin m e\<close> is \<open>m * 2^e\<close>; the
  sign of a zero is dropped, since no comparison and no conversion to an integer sees it.
\<close>

section \<open>Values\<close>

datatype f64 = NaN | Infty bool | Fin int int    \<comment> \<open>\<open>Infty True\<close> is the negative infinity\<close>

definition f64_of_bits :: "i64 \<Rightarrow> f64" where
  "f64_of_bits w =
     (let n = uint w; frac = n mod 2 ^ 52; ex = n div 2 ^ 52 mod 2048; neg = (2 ^ 63 \<le> n);
          s = (if neg then - 1 else 1)
      in if ex = 2047 then (if frac = 0 then Infty neg else NaN)
         else if ex = 0 then Fin (s * frac) (- 1074)
         else Fin (s * (2 ^ 52 + frac)) (ex - 1075))"

text \<open>The number of low bits an integer has beyond the 53 of a significand.\<close>

function extra_bits :: "nat \<Rightarrow> nat" where
  "extra_bits a = (if a < 2 ^ 53 then 0 else Suc (extra_bits (a div 2)))"
  by pat_completeness auto
termination by (relation "measure (\<lambda>a. a)") auto

declare extra_bits.simps [simp del]

definition f64_of_int :: "int \<Rightarrow> f64" where
  "f64_of_int x =
     (let e = extra_bits (nat \<bar>x\<bar>); q = \<bar>x\<bar> div 2 ^ e; r = \<bar>x\<bar> mod 2 ^ e;
          q' = (if 2 ^ e < 2 * r \<or> 2 * r = 2 ^ e \<and> odd q then q + 1 else q)
      in Fin (sgn x * q') (int e))"

section \<open>Comparison and truncation\<close>

text \<open>Both numbers as multiples of the smaller power of two.\<close>

definition align :: "int \<Rightarrow> int \<Rightarrow> int \<Rightarrow> int" where
  "align m e k = m * 2 ^ nat (e - k)"

fun f64_less :: "f64 \<Rightarrow> f64 \<Rightarrow> bool" where
  "f64_less (Fin m e) (Fin n f) \<longleftrightarrow> align m e (min e f) < align n f (min e f)"
| "f64_less (Fin m e) (Infty neg) \<longleftrightarrow> \<not> neg"
| "f64_less (Infty neg) (Fin m e) \<longleftrightarrow> neg"
| "f64_less (Infty neg) (Infty neg') \<longleftrightarrow> neg \<and> \<not> neg'"
| "f64_less _ _ \<longleftrightarrow> False"

fun f64_eq :: "f64 \<Rightarrow> f64 \<Rightarrow> bool" where
  "f64_eq (Fin m e) (Fin n f) \<longleftrightarrow> align m e (min e f) = align n f (min e f)"
| "f64_eq (Infty neg) (Infty neg') \<longleftrightarrow> neg = neg'"
| "f64_eq _ _ \<longleftrightarrow> False"

text \<open>\<open>math.Trunc\<close> as an integer.\<close>

definition trunc_to_int :: "int \<Rightarrow> int \<Rightarrow> int" where
  "trunc_to_int m e = (if 0 \<le> e then m * 2 ^ nat e else sgn m * (\<bar>m\<bar> div 2 ^ nat (- e)))"

fun Trunc :: "f64 \<Rightarrow> f64" where
  "Trunc (Fin m e) = Fin (trunc_to_int m e) 0"
| "Trunc x = x"

section \<open>Conversion to int32\<close>

text \<open>
  Go's \<open>int32(f)\<close> truncates a value that fits; any other result is up to the implementation
  (amd64 returns the smallest int32). \<open>safecast.Convert\<close> calls it first and checks afterwards.
  \<open>conv\<close> is that conversion; \<open>Convert_f64_any\<close> below shows that its choice outside the range
  does not matter.
\<close>

definition fits_i32 :: "int \<Rightarrow> bool" where
  "fits_i32 n \<longleftrightarrow> - 2147483648 \<le> n \<and> n < 2147483648"

fun f64_to_i32 :: "f64 \<Rightarrow> i32" where
  "f64_to_i32 (Fin m e) =
     (if fits_i32 (trunc_to_int m e) then word_of_int (trunc_to_int m e) else 0x80000000)"
| "f64_to_i32 _ = 0x80000000"

definition f64_negative :: "f64 \<Rightarrow> bool" where
  "f64_negative x \<longleftrightarrow> f64_less x (Fin 0 0)"

definition safecast_f64 :: "(f64 \<Rightarrow> i32) \<Rightarrow> f64 \<Rightarrow> i32 res" where
  "safecast_f64 conv orig =
     (let converted = conv orig in
      case orig of
        Infty neg \<Rightarrow> Inl (Err RangeError)
      | NaN \<Rightarrow> Inl (Err (Errorf ''unsupported conversion''))
      | Fin m e \<Rightarrow>
          let base = Trunc orig in
          if f64_negative orig \<noteq> (sint converted < 0) then
            (if f64_eq base (Fin 0 0) then Inr converted else Inl (Err RangeError))
          else if \<not> f64_eq (f64_of_int (sint converted)) base then Inl (Err RangeError)
          else Inr converted)"

definition Convert_f64 :: "f64 \<Rightarrow> i32 res" where
  "Convert_f64 = safecast_f64 f64_to_i32"

section \<open>Facts\<close>

lemma div_less_iff:
  assumes "0 < (u :: int)"
  shows "a div u < c \<longleftrightarrow> a < c * u"
proof
  have split: "a = a div u * u + a mod u" "0 \<le> a mod u" "a mod u < u" using assms by simp_all
  show "a < c * u" if "a div u < c"
  proof -
    have "(a div u + 1) * u \<le> c * u" using that assms by (intro mult_right_mono) auto
    moreover have "a < a div u * u + u" using split by linarith
    ultimately show ?thesis by (simp add: distrib_right)
  qed
  show "a div u < c" if "a < c * u"
  proof -
    have "a div u * u < c * u" using split that by linarith
    then show ?thesis using assms by simp
  qed
qed

lemma extra_bits_0: "a < 9007199254740992 \<Longrightarrow> extra_bits a = 0"
  by (simp add: extra_bits.simps)

lemma f64_of_int_small: "\<bar>x\<bar> < 9007199254740992 \<Longrightarrow> f64_of_int x = Fin x 0"
  by (simp add: f64_of_int_def extra_bits_0 Let_def sgn_mult_abs mult.commute [of "sgn x"]
      abs_mult_sgn)

lemma sint_i32_range: "- 2147483648 \<le> sint (w :: i32)" "sint (w :: i32) < 2147483648"
  using sint_ge [of w] sint_less [of w] by simp_all

lemma f64_of_int_i32: "f64_of_int (sint (w :: i32)) = Fin (sint w) 0"
  using sint_i32_range [of w] by (intro f64_of_int_small) auto

lemma f64_eq_int: "f64_eq (Fin m 0) (Fin n 0) \<longleftrightarrow> m = n"
  by (simp add: align_def)

lemma align_sign: "align m e k < 0 \<longleftrightarrow> m < 0" "align m e k = 0 \<longleftrightarrow> m = 0" "align 0 e k = 0"
  by (simp_all add: align_def mult_less_0_iff)

lemma f64_negative_Fin [simp]: "f64_negative (Fin m e) \<longleftrightarrow> m < 0"
  by (simp add: f64_negative_def align_sign)

lemma f64_eq_0 [simp]: "f64_eq (Fin m e) (Fin 0 f) \<longleftrightarrow> m = 0"
  by (simp add: align_sign)

lemma sint_word_of_int_32: "fits_i32 n \<Longrightarrow> sint (word_of_int n :: i32) = n"
proof -
  assume "fits_i32 n"
  then have "signed_take_bit 31 n = n"
    by (intro signed_take_bit_int_eq_self) (auto simp: fits_i32_def)
  moreover have "sint (word_of_int n :: i32) = signed_take_bit 31 n"
    by (simp only: sint_sbintrunc' len_num1 len_bit0) simp
  ultimately show ?thesis by simp
qed

lemma trunc_neg: "trunc_to_int m e < 0 \<Longrightarrow> m < 0"
  by (cases "0 \<le> e")
     (auto simp: trunc_to_int_def mult_less_0_iff sgn_if pos_imp_zdiv_neg_iff split: if_splits)

lemma trunc_sign: "m < 0 \<Longrightarrow> trunc_to_int m e \<le> 0" "0 \<le> m \<Longrightarrow> 0 \<le> trunc_to_int m e"
  by (auto simp: trunc_to_int_def mult_le_0_iff sgn_if pos_imp_zdiv_nonneg_iff)

text \<open>
  The conversion is truncation, or a range error outside int32, whatever the hardware returns
  for a value that does not fit.
\<close>

lemma safecast_f64_Fin:
  assumes "\<And>m e. fits_i32 (trunc_to_int m e) \<Longrightarrow> conv (Fin m e) = word_of_int (trunc_to_int m e)"
  shows "safecast_f64 conv (Fin m e) =
    (if fits_i32 (trunc_to_int m e) then Inr (word_of_int (trunc_to_int m e)) else Inl (Err RangeError))"
proof (cases "fits_i32 (trunc_to_int m e)")
  case True
  have "f64_of_int (trunc_to_int m e) = Fin (trunc_to_int m e) 0"
    using True by (intro f64_of_int_small) (auto simp: fits_i32_def)
  then show ?thesis
    using True trunc_neg [of m e] trunc_sign(1) [of m e]
    by (auto simp: safecast_f64_def assms Let_def sint_word_of_int_32 f64_eq_int simp del: f64_eq.simps)
next
  case False
  then have "sint (conv (Fin m e)) \<noteq> trunc_to_int m e" "trunc_to_int m e \<noteq> 0"
    using sint_i32_range [of "conv (Fin m e)"] by (auto simp: fits_i32_def)
  then show ?thesis
    using False by (simp add: safecast_f64_def Let_def f64_of_int_i32 f64_eq_int del: f64_eq.simps)
qed

lemma Convert_f64_Fin:
  "Convert_f64 (Fin m e) =
    (if fits_i32 (trunc_to_int m e) then Inr (word_of_int (trunc_to_int m e)) else Inl (Err RangeError))"
  unfolding Convert_f64_def by (rule safecast_f64_Fin) simp

lemma Convert_f64_other:
  "Convert_f64 NaN = Inl (Err (Errorf ''unsupported conversion''))"
  "Convert_f64 (Infty neg) = Inl (Err RangeError)"
  by (simp_all add: Convert_f64_def safecast_f64_def)

lemma Convert_f64_any:
  assumes "\<And>m e. fits_i32 (trunc_to_int m e) \<Longrightarrow> conv (Fin m e) = word_of_int (trunc_to_int m e)"
  shows "safecast_f64 conv x = Convert_f64 x"
  by (cases x) (simp_all add: safecast_f64_Fin [OF assms] Convert_f64_Fin del: Trunc.simps, simp_all add: Convert_f64_other safecast_f64_def)

lemma Convert_f64_no_panic: "Convert_f64 x = Inl f \<Longrightarrow> \<exists>e. f = Err e"
  by (cases x) (auto simp: Convert_f64_Fin Convert_f64_other split: if_splits)

lemma Convert_f64_Inr:
  "Convert_f64 x = Inr i \<longleftrightarrow>
     (\<exists>m e. x = Fin m e \<and> fits_i32 (trunc_to_int m e) \<and> i = word_of_int (trunc_to_int m e))"
  by (cases x) (auto simp: Convert_f64_Fin Convert_f64_other)


section \<open>Multiplication\<close>

text \<open>
  \<open>m * 2^e\<close> rounded to a float64: at most 53 bits, no bit below \<open>2^-1074\<close>, ties to even, an
  infinity from \<open>2^1024\<close> on.
\<close>

definition round_f64 :: "int \<Rightarrow> int \<Rightarrow> f64" where
  "round_f64 m e =
     (let k = max (extra_bits (nat \<bar>m\<bar>)) (nat (- 1074 - e)); q = \<bar>m\<bar> div 2 ^ k; r = \<bar>m\<bar> mod 2 ^ k;
          q' = (if 2 ^ k < 2 * r \<or> 2 * r = 2 ^ k \<and> odd q then q + 1 else q); e' = e + int k
      in if 2 ^ 1024 \<le> q' * 2 ^ nat e' then Infty (m < 0) else Fin (sgn m * q') e')"

fun f64_mul :: "f64 \<Rightarrow> f64 \<Rightarrow> f64" where
  "f64_mul (Fin m e) (Fin n f) = round_f64 (m * n) (e + f)"
| "f64_mul (Fin m e) (Infty neg) = (if m = 0 then NaN else Infty (neg \<noteq> (m < 0)))"
| "f64_mul (Infty neg) (Fin m e) = (if m = 0 then NaN else Infty (neg \<noteq> (m < 0)))"
| "f64_mul (Infty neg) (Infty neg') = Infty (neg \<noteq> neg')"
| "f64_mul _ _ = NaN"

lemma round_f64_not_NaN: "round_f64 m e \<noteq> NaN"
  unfolding round_f64_def Let_def by (simp only: f64.distinct not_False_eq_True split: if_split) simp

section \<open>Conversion to int64\<close>

definition fits_i64 :: "int \<Rightarrow> bool" where
  "fits_i64 n \<longleftrightarrow> - 9223372036854775808 \<le> n \<and> n < 9223372036854775808"

text \<open>Go's \<open>int64(f)\<close>, with what amd64 returns for a value that does not fit.\<close>

fun f64_to_i64 :: "f64 \<Rightarrow> i64" where
  "f64_to_i64 (Fin m e) =
     (if fits_i64 (trunc_to_int m e) then word_of_int (trunc_to_int m e) else 0x8000000000000000)"
| "f64_to_i64 _ = 0x8000000000000000"

definition safecast_f64_i64 :: "(f64 \<Rightarrow> i64) \<Rightarrow> f64 \<Rightarrow> i64 res" where
  "safecast_f64_i64 conv orig =
     (let converted = conv orig in
      case orig of
        Infty neg \<Rightarrow> Inl (Err RangeError)
      | NaN \<Rightarrow> Inl (Err (Errorf ''unsupported conversion''))
      | Fin m e \<Rightarrow>
          let base = Trunc orig in
          if f64_negative orig \<noteq> (sint converted < 0) then
            (if f64_eq base (Fin 0 0) then Inr converted else Inl (Err RangeError))
          else if \<not> f64_eq (f64_of_int (sint converted)) base then Inl (Err RangeError)
          else Inr converted)"

text \<open>\<open>safecast.Convert[int64]\<close> of a value of an integer type.\<close>

definition Convert_int64 :: "int \<Rightarrow> i64 res" where
  "Convert_int64 n = (if fits_i64 n then Inr (word_of_int n) else Inl (Err RangeError))"

lemma sint_i64: "fits_i64 n \<Longrightarrow> sint (word_of_int n :: i64) = n"
  by (simp add: fits_i64_def sint_of_int_64)

lemma fits_sint_i64: "fits_i64 (sint (w :: i64))"
  using sint_ge [of w] sint_less [of w] by (simp add: fits_i64_def)

lemma extra_bits_less: "a < 2 ^ (53 + extra_bits a)"
proof (induction a rule: extra_bits.induct)
  case (1 a)
  show ?case
  proof (cases "a < 2 ^ 53")
    case True
    then show ?thesis by (simp add: extra_bits.simps)
  next
    case False
    then have "a div 2 < 2 ^ (53 + extra_bits (a div 2))" using 1 by blast
    then have "a < 2 * 2 ^ (53 + extra_bits (a div 2))" by linarith
    also have "\<dots> = 2 ^ (53 + Suc (extra_bits (a div 2)))" by (simp only: add_Suc_right power_Suc)
    also have "Suc (extra_bits (a div 2)) = extra_bits a" using False by (simp add: extra_bits.simps [of a])
    finally show ?thesis .
  qed
qed

lemma extra_bits_ge: "0 < extra_bits a \<Longrightarrow> 2 ^ (52 + extra_bits a) \<le> a"
proof (induction a rule: extra_bits.induct)
  case (1 a)
  then have big: "\<not> a < 2 ^ 53" using extra_bits.simps [of a] by (auto split: if_splits)
  then have e: "extra_bits a = Suc (extra_bits (a div 2))" by (simp add: extra_bits.simps [of a])
  show ?case
  proof (cases "extra_bits (a div 2)")
    case 0
    then show ?thesis using big e by simp
  next
    case (Suc n)
    then have "2 ^ (52 + extra_bits (a div 2)) \<le> a div 2" using 1 big by simp
    then have "2 * 2 ^ (52 + extra_bits (a div 2)) \<le> a" by linarith
    then show ?thesis unfolding e by (simp only: add_Suc_right power_Suc)
  qed
qed

text \<open>An integer that is a float64 already is not rounded.\<close>

lemma f64_of_int_exact:
  assumes "\<bar>m\<bar> < 2 ^ 53"
  shows "f64_eq (f64_of_int (m * 2 ^ j)) (Fin (m * 2 ^ j) 0)"
proof -
  let ?x = "m * 2 ^ j"
  define k where "k = extra_bits (nat \<bar>?x\<bar>)"
  have "k \<le> j"
  proof (cases "k = 0")
    case False
    then have "2 ^ (52 + k) \<le> nat \<bar>?x\<bar>" using extra_bits_ge [of "nat \<bar>?x\<bar>"] by (simp add: k_def)
    then have "2 ^ (52 + k) \<le> \<bar>?x\<bar>" by (simp add: le_nat_iff)
    also have "\<dots> = \<bar>m\<bar> * 2 ^ j" by (simp add: abs_mult)
    also have "\<dots> < 2 ^ 53 * 2 ^ j" using assms by simp
    finally have "(2 :: int) ^ (52 + k) < 2 ^ (53 + j)" by (simp add: power_add)
    then have "52 + k < 53 + j" by (rule power_less_imp_less_exp [rotated]) simp
    then show ?thesis by simp
  qed simp
  then have dvd: "2 ^ k dvd \<bar>?x\<bar>" by (simp add: le_imp_power_dvd)
  then have "\<bar>?x\<bar> mod 2 ^ k = 0" "\<bar>?x\<bar> div 2 ^ k * 2 ^ k = \<bar>?x\<bar>" by auto
  moreover have "f64_of_int ?x = Fin (sgn ?x * (\<bar>?x\<bar> div 2 ^ k)) (int k)"
    using calculation(1) by (simp add: f64_of_int_def Let_def flip: k_def)
  moreover have "sgn ?x * (\<bar>?x\<bar> div 2 ^ k) * 2 ^ k = ?x"
    using calculation(2) by (simp only: mult.assoc) (simp add: mult_sgn_abs)
  ultimately show ?thesis by (simp add: align_def)
qed

lemma f64_of_int_trunc:
  assumes "\<bar>m\<bar> < 2 ^ 53"
  shows "f64_eq (f64_of_int (trunc_to_int m e)) (Fin (trunc_to_int m e) 0)"
proof (cases "0 \<le> e")
  case True
  then show ?thesis using f64_of_int_exact [OF assms, of "nat e"] by (simp add: trunc_to_int_def)
next
  case False
  have "\<bar>m\<bar> div 2 ^ nat (- e) \<le> \<bar>m\<bar>" using zdiv_mono2 [of "\<bar>m\<bar>" 1 "2 ^ nat (- e)"] by simp
  moreover have "0 \<le> \<bar>m\<bar> div 2 ^ nat (- e)" by (simp add: pos_imp_zdiv_nonneg_iff)
  ultimately have "\<bar>trunc_to_int m e\<bar> < 2 ^ 53"
    using False assms by (auto simp: trunc_to_int_def abs_mult sgn_if)
  then show ?thesis using f64_of_int_exact [of "trunc_to_int m e" 0] by simp
qed

end
