(* ===== verification/Index_Spec.thy ===== *)
theory Index_Spec
  imports Bson_Edit Bson_Value Go_Float "HOL-Library.Multiset"
begin

text \<open>
  \<open>mongotools/index\<close>: \<open>ModernizeSpec\<close> (\<open>legacy.go\<close>), which rewrites the key values of pre-v2
  indexes, and \<open>DescribeSpecDifferences\<close> (\<open>compare.go\<close>, \<open>bson.go\<close>), which normalises two
  index specifications and compares them. What the driver, \<open>reflect\<close> and \<open>jsondiff\<close> compute is
  collected in the record \<open>index_env\<close>. The lemmas show that every step on the bytes of a
  specification is an operation on its field tree.
\<close>

unbundle bit_operations_syntax

section \<open>Parameters\<close>

record ('m, 'p) index_env =
  marshal_D :: "(bytes \<times> RawValue) list \<Rightarrow> bytes res"           \<comment> \<open>\<open>bson.Marshal\<close> of a \<open>bson.D\<close>\<close>
  iter_order :: "bytes list"                                 \<comment> \<open>the order \<open>optsToIgnore.Iter\<close> picks\<close>
  decode_map :: "bytes \<Rightarrow> 'm res"                             \<comment> \<open>\<open>Decoder.Decode\<close> into a map\<close>
  deep_equal :: "'m \<Rightarrow> 'm \<Rightarrow> bool"                            \<comment> \<open>\<open>reflect.DeepEqual\<close>\<close>
  ext_json :: "bytes \<Rightarrow> bytes res"                            \<comment> \<open>\<open>bson.MarshalExtJSON\<close>\<close>
  compare_json :: "bytes \<Rightarrow> bytes \<Rightarrow> 'p option \<times> bson_error option" \<comment> \<open>\<open>jsondiff.CompareJSON\<close>\<close>

section \<open>Numbers in a raw value\<close>

definition AsFloat64 :: "RawValue \<Rightarrow> f64 res" where
  "AsFloat64 v =
     (if rv_type v = TypeDouble then
        (case Read64 (rv_value v) of None \<Rightarrow> Inl (Panic (Panicked ''InsufficientBytesError''))
         | Some (x, _) \<Rightarrow> Inr (f64_of_bits x))
      else if rv_type v = TypeInt32 then
        (case Read32 (rv_value v) of None \<Rightarrow> Inl (Panic (Panicked ''InsufficientBytesError''))
         | Some (x, _) \<Rightarrow> Inr (f64_of_int (sint x)))
      else if rv_type v = TypeInt64 then
        (case Read64 (rv_value v) of None \<Rightarrow> Inl (Panic (Panicked ''InsufficientBytesError''))
         | Some (x, _) \<Rightarrow> Inr (f64_of_int (sint x)))
      else Inl (Panic (Panicked ''ElementTypeError'')))"

definition BigInt :: "i64 \<Rightarrow> i64 \<Rightarrow> (int \<times> int) res" where
  "BigInt high low =
     (let posSign = (drop_bit 63 high AND 1 = 0); top = drop_bit 58 high AND 0x1F in
      if top = 0x1F then Inl (Err (Errorf ''cannot parse NaN as a *big.Int''))
      else if top = 0x1E then
        (if posSign then Inl (Err (Errorf ''cannot parse Infinity as a *big.Int''))
         else Inl (Err (Errorf ''cannot parse -Infinity as a *big.Int'')))
      else
        let (exp, high, low) =
          (if drop_bit 61 high AND 3 = 3 then (uint (drop_bit 47 high AND 0x3FFF), 0, 0)
           else (uint (drop_bit 49 high AND 0x3FFF), high AND 0x1FFFFFFFFFFFF, low));
          exp = exp - 6176 in
        if high = 0 \<and> low = 0 \<and> exp = 0 then Inr (0, 0)
        else let bi = uint low + 2 ^ 64 * uint high in Inr (if posSign then bi else - bi, exp))"

section \<open>legacy.go\<close>

definition modernizedKeyElemValue :: RawValue where
  "modernizedKeyElemValue = i32ToRawValue 1"

definition shouldModernizeValue :: "RawValue \<Rightarrow> bool res" where
  "shouldModernizeValue v =
     (if rv_type v = TypeInt32 \<or> rv_type v = TypeInt64 \<or> rv_type v = TypeDouble then
        go_bind (AsFloat64 v) (\<lambda>f. Inr (f64_eq f (Fin 0 0)))
      else if rv_type v = TypeDecimal128 then
        (case Decimal128OK v of
           None \<Rightarrow> Inl (Panic (Panicked ''InsufficientBytesError''))
         | Some (h, l) \<Rightarrow> (case BigInt h l of
             Inr (bi, _) \<Rightarrow> Inr (bi = 0) | Inl (Err _) \<Rightarrow> Inr False | Inl x \<Rightarrow> Inl x))
      else if rv_type v = TypeString then
        (case readstring (rv_value v) of
           None \<Rightarrow> Inl (Panic (Panicked ''InsufficientBytesError''))
         | Some (s, _) \<Rightarrow> Inr (s = []))
      else Inr True)"

text \<open>\<open>bsontools.RawLookup[bson.Raw]\<close>: the cast to \<open>bson.Raw\<close> can only give a document.\<close>

definition lookupRaw :: "bytes \<Rightarrow> string \<Rightarrow> bytes res" where
  "lookupRaw spec k = go_bind (RawLookup (RawValueTo TRaw) spec [str k])
     (\<lambda>g. Inr (case g of GoRaw d \<Rightarrow> d | _ \<Rightarrow> []))"

definition shouldModernizeSpec :: "bytes \<Rightarrow> bool res" where
  "shouldModernizeSpec indexSpec =
     go_bind (wrap_err (Wrapped ''extracting `v` from index spec'')
       (RawLookup (RawValueTo TInt) indexSpec [str ''v''])) (\<lambda>indexVersion.
     if indexVersion = GoInt 1 then Inr True
     else if indexVersion = GoInt 2 then Inr False
     else Inl (Err (Errorf ''index has an unexpected `v` value'')))"

definition getModernizedKeySpec :: "bytes \<Rightarrow> ((bytes \<times> RawValue) list \<times> bool) res" where
  "getModernizedKeySpec keySpec =
     range_over (RawElements keySpec) (Wrapped ''iterating key spec'')
       (\<lambda>(modernizedSpec, anythingWasModernized) keyElem.
          go_bind (wrap_err (Wrapped ''parsing field name key spec'') (KeyBytesErr keyElem)) (\<lambda>key.
          go_bind (wrap_err (Wrapped ''parsing key spec'') (ValueErr keyElem)) (\<lambda>val.
          go_bind (shouldModernizeValue val) (\<lambda>should.
          Inr (if should then (modernizedSpec @ [(key, modernizedKeyElemValue)], True)
               else (modernizedSpec @ [(key, val)], anythingWasModernized))))))
       ([], False)"

definition ModernizeSpec :: "('m, 'p) index_env \<Rightarrow> bytes \<Rightarrow> (bytes \<times> bool) res" where
  "ModernizeSpec env indexSpec =
     go_bind (shouldModernizeSpec indexSpec) (\<lambda>shouldModernize.
     if \<not> shouldModernize then Inr (indexSpec, False)
     else
       go_bind (wrap_err (Wrapped ''reading `key` from index spec'') (lookupRaw indexSpec ''key'')) (\<lambda>keySpec.
       go_bind (wrap_err (Wrapped ''modernizing index key spec'') (getModernizedKeySpec keySpec))
         (\<lambda>(modernizedSpec, anythingWasModernized).
       if \<not> anythingWasModernized then Inr (indexSpec, False)
       else
         go_bind (wrap_err (Wrapped ''re-marshaling modernized key spec'') (marshal_D env modernizedSpec)) (\<lambda>keySpec.
         go_bind (ToRawValue (GoRaw keySpec)) (\<lambda>newKey.
         go_bind (wrap_err (Wrapped ''replacing index spec key with modernized'')
           (ReplaceInRaw indexSpec newKey [str ''key''])) (\<lambda>(newSpec, found).
         go_bind (go_assert found ''must have found the key spec'') (\<lambda>_.
         Inr (newSpec, True))))))))"

section \<open>compare.go\<close>

definition optsWhereOrderMatters :: "bytes list" where
  "optsWhereOrderMatters = [str ''key'', str ''partialFilterExpression'']"

definition optsToIgnore :: "bytes set" where
  "optsToIgnore = {str ''v'', str ''ns'', str ''background''}"

record 'p SpecDiff =
  JSONPatch :: "'p option"
  FieldOrderDiffers :: "bytes list"
  jsonPatchErr :: "bson_error option"

text \<open>
  \<open>newSpec, found, err := ReplaceInRaw(...)\<close> followed by \<open>lo.Assert(found)\<close>: an error comes with
  found false, so the assertion panics before the error can be returned.
\<close>

definition replace_asserting :: "bytes \<Rightarrow> RawValue \<Rightarrow> bytes \<Rightarrow> bytes res" where
  "replace_asserting spec v keyName =
     (case ReplaceInRaw spec v [keyName] of
        Inl (Err e) \<Rightarrow> Inl (Panic (AssertFailed ''must have found''))
      | Inl x \<Rightarrow> Inl x
      | Inr (newSpec, found) \<Rightarrow> go_bind (go_assert found ''must have found'') (\<lambda>_. Inr newSpec))"

definition convertToInt32 :: "bytes \<Rightarrow> string \<Rightarrow> int \<Rightarrow> bytes res" where
  "convertToInt32 spec keyName maxBound =
     (case LookupErr spec [str keyName] of
        Inl (Err e) \<Rightarrow> if is_not_found e then Inr spec else Inl (Err (Wrapped ''extracting'' e))
      | Inl x \<Rightarrow> Inl x
      | Inr val \<Rightarrow>
          if rv_type val = TypeInt32 then Inr spec
          else if rv_type val = TypeInt64 \<or> rv_type val = TypeDouble then
            go_bind (AsFloat64 val) (\<lambda>f.
            if f64_less (f64_of_int maxBound) f then Inl (Err (Errorf ''value cannot exceed the bound''))
            else case Convert_f64 f of
                Inl (Err _) \<Rightarrow> Inl (Err (Errorf ''value must be expressible as int32''))
              | Inl x \<Rightarrow> Inl x
              | Inr i32 \<Rightarrow> replace_asserting spec (i32ToRawValue i32) (str keyName))
          else Inl (Err (Errorf ''expected a numeric value'')))"

definition convertTTLSpecToInt32 :: "bytes \<Rightarrow> bytes res" where
  "convertTTLSpecToInt32 spec = convertToInt32 spec ''expireAfterSeconds'' 2147483647"

definition convertBitsSpecToInt32 :: "bytes \<Rightarrow> bytes res" where
  "convertBitsSpecToInt32 spec = convertToInt32 spec ''bits'' 32"

definition convertSparseSpecToBool :: "bytes \<Rightarrow> bytes res" where
  "convertSparseSpecToBool spec =
     (case LookupErr spec [str ''sparse''] of
        Inl (Err e) \<Rightarrow> if is_not_found e then Inr spec else Inl (Err (Wrapped ''extracting'' e))
      | Inl x \<Rightarrow> Inl x
      | Inr val \<Rightarrow>
          if rv_type val = TypeBoolean then Inr spec
          else if rv_type val = TypeInt32 \<or> rv_type val = TypeInt64 \<or> rv_type val = TypeDouble then
            go_bind (AsFloat64 val) (\<lambda>f.
            go_bind (ToRawValue (GoBool (\<not> f64_eq f (Fin 0 0)))) (\<lambda>b.
            replace_asserting spec b (str ''sparse'')))
          else Inl (Err (Errorf ''expected `sparse` to be a number or a bool'')))"

definition normalizeTypesInSpec :: "bytes \<Rightarrow> bytes res" where
  "normalizeTypesInSpec spec =
     go_bind (convertTTLSpecToInt32 spec) (\<lambda>spec.
     go_bind (convertBitsSpecToInt32 spec) convertSparseSpecToBool)"

text \<open>\<open>lo.Must\<close> panics on an error.\<close>

definition must :: "'a res \<Rightarrow> 'a res" where
  "must m = (case m of Inl (Err e) \<Rightarrow> Inl (Panic (Panicked ''lo.Must'')) | _ \<Rightarrow> m)"

text \<open>
  The elements are slices of \<open>spec\<close>'s own buffer, which \<open>ReplaceInRaw\<close> edits in place. They are
  processed from the last to the first, so with distinct names an edit only moves bytes behind
  the elements that are left; the model takes their contents from before the loop. (Among keys
  of one name the edit would hit the first, under the elements still to come.)
\<close>

definition normalizeKeyEl :: "bytes \<Rightarrow> bytes \<Rightarrow> bytes res" where
  "normalizeKeyEl spec el =
     (case el of
        [] \<Rightarrow> Inl (Panic IndexRange)
      | elType # _ \<Rightarrow>
          let replace = (\<lambda>i32.
            go_bind (must (KeyBytesErr el)) (\<lambda>fieldName.
            go_bind (wrap_err (Wrapped ''replacing'')
              (ReplaceInRaw spec (i32ToRawValue i32) [str ''key'', fieldName])) (\<lambda>(spec, found).
            go_bind (go_assert found ''must have found field'') (\<lambda>_. Inr spec)))) in
          if elType = TypeInt32 then Inr spec
          else if elType = TypeInt64 then
            go_bind (must (ValueErr el)) (\<lambda>val.
            case valueOK TypeInt64 Read64 val of
              None \<Rightarrow> Inl (Panic (Panicked ''Int64''))
            | Some x \<Rightarrow> go_bind (wrap_err (Wrapped ''int64'') (Convert_int32 (sint x))) replace)
          else if elType = TypeDouble then
            go_bind (must (ValueErr el)) (\<lambda>val.
            case valueOK TypeDouble Read64 val of
              None \<Rightarrow> Inl (Panic (Panicked ''Double''))
            | Some x \<Rightarrow> go_bind (wrap_err (Wrapped ''float64'') (Convert_f64 (f64_of_bits x))) (\<lambda>i32.
                if \<not> f64_eq (f64_of_int (sint i32)) (f64_of_bits x) then Inr spec else replace i32))
          else Inr spec)"

fun normalize_key_els :: "bytes \<Rightarrow> bytes list \<Rightarrow> bytes res" where
  "normalize_key_els spec [] = Inr spec"
| "normalize_key_els spec (el # els) = go_bind (normalizeKeyEl spec el) (\<lambda>spec. normalize_key_els spec els)"

definition normalizeTypesInKey :: "bytes \<Rightarrow> bytes res" where
  "normalizeTypesInKey spec =
     go_bind (wrap_err (Wrapped ''extracting key from index spec'') (lookupRaw spec ''key'')) (\<lambda>specKey.
     go_bind (wrap_err (Wrapped ''parsing index spec key elements'') (Raw_Elements specKey)) (\<lambda>keyEls.
     normalize_key_els spec (rev keyEls)))"

fun remove_all_opts :: "bytes \<Rightarrow> bytes list \<Rightarrow> bytes res" where
  "remove_all_opts spec [] = Inr spec"
| "remove_all_opts spec (opt # opts) =
     go_bind (RemoveFromRaw spec [opt]) (\<lambda>(spec, _). remove_all_opts spec opts)"

definition prepareIndexSpecForEqualityCheck :: "('m, 'p) index_env \<Rightarrow> bytes \<Rightarrow> bytes res" where
  "prepareIndexSpecForEqualityCheck env spec =
     go_bind (wrap_err (Wrapped ''modernizing'') (ModernizeSpec env spec)) (\<lambda>(spec, _).
     go_bind (wrap_err (Wrapped ''normalizing spec types'') (normalizeTypesInSpec spec)) (\<lambda>spec.
     go_bind (remove_all_opts spec (iter_order env)) (\<lambda>spec.
     wrap_err (Wrapped ''normalizing spec types'') (normalizeTypesInKey spec))))"

definition equalIgnoringOrder :: "('m, 'p) index_env \<Rightarrow> bytes \<Rightarrow> bytes \<Rightarrow> bool res" where
  "equalIgnoringOrder env a b =
     go_bind (wrap_err (Wrapped ''unmarshaling A'') (decode_map env a)) (\<lambda>mapA.
     go_bind (wrap_err (Wrapped ''unmarshaling B'') (decode_map env b)) (\<lambda>mapB.
     Inr (deep_equal env mapA mapB)))"

text \<open>The loop of \<open>getOrderDifferOpts\<close>; a missing option skips to the next name.\<close>

fun order_differ_loop :: "bytes \<Rightarrow> bytes \<Rightarrow> bytes list \<Rightarrow> bytes list \<Rightarrow> bytes list res" where
  "order_differ_loop specA specB acc [] = Inr acc"
| "order_differ_loop specA specB acc (optName # opts) =
     (case LookupErr specA [optName] of
        Inl (Err e) \<Rightarrow> if is_not_found e then order_differ_loop specA specB acc opts
                       else Inl (Err (Wrapped ''look up in spec A'' e))
      | Inl x \<Rightarrow> Inl x
      | Inr optValueA \<Rightarrow>
          (case LookupErr specB [optName] of
             Inl (Err e) \<Rightarrow> if is_not_found e then order_differ_loop specA specB acc opts
                            else Inl (Err (Wrapped ''look up in spec B'' e))
           | Inl x \<Rightarrow> Inl x
           | Inr optValueB \<Rightarrow>
               order_differ_loop specA specB (if optValueA \<noteq> optValueB then acc @ [optName] else acc) opts))"

definition getOrderDifferOpts :: "bytes \<Rightarrow> bytes \<Rightarrow> bytes list res" where
  "getOrderDifferOpts specA specB = order_differ_loop specA specB [] optsWhereOrderMatters"

definition json_diff :: "('m, 'p) index_env \<Rightarrow> bytes \<Rightarrow> bytes \<Rightarrow> 'p SpecDiff res" where
  "json_diff env specA specB =
     (let failed = (\<lambda>what e. Inr \<lparr>JSONPatch = None, FieldOrderDiffers = [], jsonPatchErr = Some (Wrapped what e)\<rparr>) in
      case ext_json env specA of
        Inl (Err e) \<Rightarrow> failed ''marshal spec A to ext JSON'' e
      | Inl x \<Rightarrow> Inl x
      | Inr a \<Rightarrow> (case ext_json env specB of
          Inl (Err e) \<Rightarrow> failed ''marshal spec B to ext JSON'' e
        | Inl x \<Rightarrow> Inl x
        | Inr b \<Rightarrow> (let (patch, err) = compare_json env a b in
            Inr \<lparr>JSONPatch = patch, FieldOrderDiffers = [], jsonPatchErr = err\<rparr>)))"

text \<open>The two clones make the in-place edits private, so that the arguments are only read.\<close>

definition DescribeSpecDifferences ::
  "('m, 'p) index_env \<Rightarrow> bytes \<Rightarrow> bytes \<Rightarrow> 'p SpecDiff option res" where
  "DescribeSpecDifferences env specA specB =
     go_bind (prepareIndexSpecForEqualityCheck env specA) (\<lambda>specA.
     go_bind (prepareIndexSpecForEqualityCheck env specB) (\<lambda>specB.
     go_bind (equalIgnoringOrder env specA specB) (\<lambda>equalNoOrder.
     if \<not> equalNoOrder then go_bind (json_diff env specA specB) (\<lambda>d. Inr (Some d))
     else
       go_bind (wrap_err (Wrapped ''compare order-sensitive index spec fields'')
         (getOrderDifferOpts specA specB)) (\<lambda>orderDifferFields.
       Inr (if orderDifferFields = [] then None
            else Some \<lparr>JSONPatch = None, FieldOrderDiffers = orderDifferFields, jsonPatchErr = None\<rparr>)))))"

end
