(* ===== verification/Index_Refine.thy ===== *)
theory Index_Refine
  imports Index_Spec
begin

text \<open>
  The index specification as a field tree: what modernising and normalising do to the fields,
  and the proof that \<open>mongotools/index\<close> does exactly that to the bytes.
\<close>

declare LookupErr.simps [simp del]

section \<open>Operations on the fields of a specification\<close>

text \<open>\<open>upd_field k g\<close> applies \<open>g\<close> to the first field named \<open>k\<close>, if there is one.\<close>

fun upd_field :: "bytes \<Rightarrow> (bson \<Rightarrow> bson option) \<Rightarrow> (bytes \<times> bson) list \<Rightarrow> (bytes \<times> bson) list option" where
  "upd_field k g [] = Some []"
| "upd_field k g (f # fs) =
     (if fst f = k then map_option (\<lambda>v. (k, v) # fs) (g (snd f))
      else map_option (Cons f) (upd_field k g fs))"

fun del_field :: "bytes \<Rightarrow> (bytes \<times> bson) list \<Rightarrow> (bytes \<times> bson) list" where
  "del_field k [] = []"
| "del_field k (f # fs) = (if fst f = k then fs else f # del_field k fs)"

definition int32_value :: "i32 \<Rightarrow> bson" where
  "int32_value i = Scalar TypeInt32 (Append32 [] i)"

definition modernize_val :: "bson \<Rightarrow> bson" where
  "modernize_val v = (if shouldModernizeValue (raw_of v) = Inr True then int32_value 1 else v)"

text \<open>The embedded document under \<open>key\<close>.\<close>

definition key_fields :: "(bytes \<times> bson) list \<Rightarrow> (bytes \<times> bson) list option" where
  "key_fields fs = (case map_of fs (str ''key'') of
     Some (Sub t kfs) \<Rightarrow> if t = TypeEmbeddedDocument then Some kfs else None | _ \<Rightarrow> None)"

definition set_key :: "(bytes \<times> bson) list \<Rightarrow> (bytes \<times> bson) list \<Rightarrow> (bytes \<times> bson) list option" where
  "set_key kfs fs = upd_field (str ''key'') (\<lambda>_. Some (Sub TypeEmbeddedDocument kfs)) fs"

definition version :: "(bytes \<times> bson) list \<Rightarrow> int option" where
  "version fs = (case map_of fs (str ''v'') of
     None \<Rightarrow> None
   | Some v \<Rightarrow> (case RawValueTo TInt (raw_of v) of Inr (GoInt x) \<Rightarrow> Some (sint x) | _ \<Rightarrow> None))"

definition modernize_tree :: "(bytes \<times> bson) list \<Rightarrow> (bytes \<times> bson) list option" where
  "modernize_tree fs =
     (if version fs = Some 2 then Some fs
      else if version fs = Some 1 then
        Option.bind (key_fields fs) (\<lambda>kfs. set_key (map (apsnd modernize_val) kfs) fs)
      else None)"

text \<open>A number as the int32 that is in effect, and as the boolean that is.\<close>

definition norm_int32 :: "int \<Rightarrow> bson \<Rightarrow> bson option" where
  "norm_int32 maxBound v =
     (if type_of v = TypeInt32 then Some v
      else if type_of v = TypeInt64 \<or> type_of v = TypeDouble then
        (case AsFloat64 (raw_of v) of
           Inl _ \<Rightarrow> None
         | Inr f \<Rightarrow> if f64_less (f64_of_int maxBound) f then None
             else (case Convert_f64 f of Inl _ \<Rightarrow> None | Inr i \<Rightarrow> Some (int32_value i)))
      else None)"

definition norm_bool :: "bson \<Rightarrow> bson option" where
  "norm_bool v =
     (if type_of v = TypeBoolean then Some v
      else if type_of v = TypeInt32 \<or> type_of v = TypeInt64 \<or> type_of v = TypeDouble then
        (case AsFloat64 (raw_of v) of
           Inl _ \<Rightarrow> None
         | Inr f \<Rightarrow> Some (Scalar TypeBoolean (AppendBoolean [] (\<not> f64_eq f (Fin 0 0)))))
      else None)"

text \<open>A key value: integral numbers become int32, fractions and other types stay.\<close>

definition norm_key :: "bson \<Rightarrow> bson option" where
  "norm_key v =
     (if type_of v = TypeInt64 then
        (case Read64 (enc_val v) of
           None \<Rightarrow> None
         | Some (x, _) \<Rightarrow> (case Convert_int32 (sint x) of Inl _ \<Rightarrow> None | Inr i \<Rightarrow> Some (int32_value i)))
      else if type_of v = TypeDouble then
        (case Read64 (enc_val v) of
           None \<Rightarrow> None
         | Some (x, _) \<Rightarrow> (case Convert_f64 (f64_of_bits x) of
             Inl _ \<Rightarrow> None
           | Inr i \<Rightarrow> Some (if f64_eq (f64_of_int (sint i)) (f64_of_bits x) then int32_value i else v)))
      else Some v)"

definition norm_keys :: "(bytes \<times> bson) list \<Rightarrow> (bytes \<times> bson) list option" where
  "norm_keys fs = Option.bind (key_fields fs) (\<lambda>kfs.
     Option.bind (those (map (\<lambda>(k, v). map_option (Pair k) (norm_key v)) kfs)) (\<lambda>kfs'. set_key kfs' fs))"

definition normalize_tree :: "(bytes \<times> bson) list \<Rightarrow> (bytes \<times> bson) list option" where
  "normalize_tree fs =
     Option.bind (upd_field (str ''expireAfterSeconds'') (norm_int32 2147483647) fs) (\<lambda>fs.
     Option.bind (upd_field (str ''bits'') (norm_int32 32) fs) (upd_field (str ''sparse'') norm_bool))"

definition prepare_tree :: "(bytes \<times> bson) list \<Rightarrow> (bytes \<times> bson) list option" where
  "prepare_tree fs =
     Option.bind (modernize_tree fs) (\<lambda>fs.
     Option.bind (normalize_tree fs) (\<lambda>fs.
     norm_keys (fold del_field [str ''v'', str ''ns'', str ''background''] fs)))"

section \<open>Well-formed specifications\<close>

text \<open>
  Field names in \<open>key\<close> are distinct (the server refuses others), and a string key value has the
  zero byte its header must count.
\<close>

definition wf_spec :: "(bytes \<times> bson) list \<Rightarrow> bool" where
  "wf_spec fs \<longleftrightarrow> wf_doc fs \<and> (case key_fields fs of None \<Rightarrow> True | Some kfs \<Rightarrow> distinct (map fst kfs))"

definition str_ok :: "bson \<Rightarrow> bool" where
  "str_ok v \<longleftrightarrow> (type_of v = TypeString \<longrightarrow> readstring (enc_val v) \<noteq> None)"

definition strings_ok :: "(bytes \<times> bson) list \<Rightarrow> bool" where
  "strings_ok fs \<longleftrightarrow> (case key_fields fs of None \<Rightarrow> True | Some kfs \<Rightarrow> list_all (\<lambda>f. str_ok (snd f)) kfs)"

text \<open>What the program relies on: \<open>bson.Marshal\<close> writes the raw values of a \<open>bson.D\<close> one after
  the other, and a Go set yields each of its elements once.\<close>

definition env_ok :: "('m, 'p) index_env \<Rightarrow> bool" where
  "env_ok env \<longleftrightarrow> (\<forall>fs. wf_doc fs \<longrightarrow> marshal_D env (map (\<lambda>(k, v). (k, raw_of v)) fs) = Inr (enc_doc fs))
     \<and> distinct (iter_order env) \<and> set (iter_order env) = optsToIgnore"

text \<open>
  \<open>m\<close> computes \<open>t\<close>: the encoded fields, or an error return (never a panic) where \<open>t\<close> has none.
\<close>

definition computes :: "bytes res \<Rightarrow> (bytes \<times> bson) list option \<Rightarrow> bool" where
  "computes m t = (case t of None \<Rightarrow> \<exists>e. m = Inl (Err e) | Some fs \<Rightarrow> wf_spec fs \<and> m = Inr (enc_doc fs))"

lemma computes_bind:
  assumes "computes m t" and "\<And>fs. t = Some fs \<Longrightarrow> wf_spec fs \<Longrightarrow> computes (f (enc_doc fs)) (g fs)"
  shows "computes (go_bind m f) (Option.bind t g)"
  using assms by (cases t) (auto simp: computes_def)

lemma computes_wrap: "computes m t \<Longrightarrow> computes (wrap_err w m) t"
  by (auto simp: computes_def split: option.splits)

lemma computes_Some: "wf_spec fs \<Longrightarrow> computes (Inr (enc_doc fs)) (Some fs)"
  by (simp add: computes_def)

section \<open>One field\<close>

lemma upd_field_split:
  "upd_field k g fs = (case split_field k fs of
     None \<Rightarrow> Some fs | Some (pre, v, post) \<Rightarrow> map_option (\<lambda>v'. pre @ (k, v') # post) (g v))"
  by (induction fs) (auto split: option.split simp: option.map_comp comp_def)

lemma del_field_split:
  "del_field k fs = (case split_field k fs of None \<Rightarrow> fs | Some (pre, v, post) \<Rightarrow> pre @ post)"
  by (induction fs) (auto split: option.split)

lemma split_field_None: "split_field k fs = None \<longleftrightarrow> map_of fs k = None"
  by (induction fs) auto

lemma map_of_split: "split_field k fs = Some (pre, v, post) \<Longrightarrow> map_of fs k = Some v"
  by (auto simp: split_field_map_of)

lemma upd_field_same: "map_of fs k = Some v \<Longrightarrow> g v = Some v \<Longrightarrow> upd_field k g fs = Some fs"
  by (induction fs) auto

lemma upd_field_none: "map_of fs k = Some v \<Longrightarrow> g v = None \<Longrightarrow> upd_field k g fs = None"
  by (induction fs) auto

lemma upd_field_absent: "map_of fs k = None \<Longrightarrow> upd_field k g fs = Some fs"
  by (induction fs) auto

lemma map_of_upd_field:
  "upd_field k g fs = Some fs' \<Longrightarrow>
     map_of fs' k' = (if k' = k then Option.bind (map_of fs k) g else map_of fs k')"
  by (induction fs arbitrary: fs') (auto split: if_splits)

lemma map_of_del_field: "k' \<noteq> k \<Longrightarrow> map_of (del_field k fs) k' = map_of fs k'"
  by (induction fs) auto

lemma wf_doc_replace:
  assumes "wf_doc (pre @ (k, v) # post)" and "wf_val v'" and "length (enc_val v') \<le> length (enc_val v)"
  shows "wf_doc (pre @ (k, v') # post)"
  using assms by (auto simp: wf_doc_def wf_field_def fits_def length_enc_doc_middle)

lemma wf_doc_remove: "wf_doc (pre @ f # post) \<Longrightarrow> wf_doc (pre @ post)"
  by (cases f) (auto simp: wf_doc_def fits_def length_enc_doc_middle)

lemma ReplaceInRaw_field:
  assumes "wf_doc fs" and "split_field k fs = Some (pre, v, post)" and "wf_doc (pre @ (k, v') # post)"
  shows "ReplaceInRaw (enc_doc fs) (raw_of v') [k] = Inr (enc_doc (pre @ (k, v') # post), True)"
  using replaceOrRemove_enc [of fs "Some v'" "[k]" "[]"] assms
  by (simp add: ReplaceInRaw_def wf_doc_def)

lemma RemoveFromRaw_field:
  assumes "wf_doc fs"
  shows "\<exists>found. RemoveFromRaw (enc_doc fs) [k] = Inr (enc_doc (del_field k fs), found) \<and> wf_doc (del_field k fs)"
proof (cases "split_field k fs")
  case None
  then show ?thesis
    using replaceOrRemove_enc [of fs None "[k]" "[]"] assms
    by (intro exI [of _ False]) (simp add: RemoveFromRaw_def del_field_split)
next
  case (Some p)
  then obtain pre v post where s: "split_field k fs = Some (pre, v, post)" by (cases p) auto
  have wf: "wf_doc (pre @ post)"
    using split_field_Some [OF s] assms wf_doc_remove by blast
  then show ?thesis
    using replaceOrRemove_enc [of fs None "[k]" "[]"] assms s
    by (intro exI [of _ True]) (simp add: RemoveFromRaw_def del_field_split wf_doc_def)
qed

lemma LookupErr_field:
  assumes "wf_doc fs"
  shows "LookupErr (enc_doc fs) [k] = (case map_of fs k of
    None \<Rightarrow> Inl (Err ElementNotFound) | Some v \<Rightarrow> Inr (raw_of v))"
  using LookupErr_enc [OF assms, of "[k]"] by (simp split: option.split)

lemma wf_doc_map_of: "wf_doc fs \<Longrightarrow> map_of fs k = Some v \<Longrightarrow> wf_val v \<and> fits (enc_val v)"
  using wf_doc_field [of fs "(k, v)"] fits_val [of k v] map_of_SomeD [of fs k v] by (auto simp: wf_field_def)


lemma key_fields_cong: "map_of fs' (str ''key'') = map_of fs (str ''key'') \<Longrightarrow> key_fields fs' = key_fields fs"
  by (simp add: key_fields_def)

lemma str_neq [simp]: "str a = str b \<longleftrightarrow> map (of_char :: char \<Rightarrow> byte) a = map of_char b"
  by (simp add: str_def)

text \<open>The shape of every step that rewrites one option other than \<open>key\<close>.\<close>

lemma replace_step:
  assumes "wf_spec fs" and "map_of fs k = Some v" and "g v = Some v'"
    and "wf_val v'" and "length (enc_val v') \<le> length (enc_val v)" and "k \<noteq> str ''key''"
  shows "computes (replace_asserting (enc_doc fs) (raw_of v') k) (upd_field k g fs)"
proof -
  obtain pre post where s: "split_field k fs = Some (pre, v, post)"
    using assms(2) by (auto simp: split_field_map_of)
  have wf: "wf_doc fs" "wf_doc (pre @ (k, v') # post)"
    using assms(1,4,5) split_field_Some [OF s] wf_doc_replace by (auto simp: wf_spec_def)
  have u: "upd_field k g fs = Some (pre @ (k, v') # post)"
    using s assms(3) by (simp add: upd_field_split)
  then have "key_fields (pre @ (k, v') # post) = key_fields fs"
    using map_of_upd_field [OF u, of "str ''key''"] assms(6) by (intro key_fields_cong) metis
  then have "wf_spec (pre @ (k, v') # post)" using assms(1) wf(2) by (simp add: wf_spec_def)
  then show ?thesis
    using ReplaceInRaw_field [OF wf(1) s wf(2)] by (simp add: computes_def u replace_asserting_def)
qed

lemma of_nat_length_eq:
  assumes "fits p" and "n < 2147483648" and "(of_nat (length p) :: i32) = of_nat n"
  shows "length p = n"
  using assms by (metis fits_def nat_int sint_of_nat_32)

lemma length_number:
  assumes "wf_val v" and "fits (enc_val v)"
  shows "type_of v = TypeInt64 \<or> type_of v = TypeDouble \<Longrightarrow> length (enc_val v) = 8"
    and "type_of v = TypeInt32 \<Longrightarrow> length (enc_val v) = 4"
    and "type_of v = TypeDecimal128 \<Longrightarrow> length (enc_val v) = 16"
  using assms of_nat_length_eq [of "enc_val v"]
  by (cases v; auto simp: wf_scalar_def valueLength_def is_sub_def)+

lemma AsFloat64_ok:
  assumes "wf_val v" and "fits (enc_val v)"
    and "type_of v = TypeInt32 \<or> type_of v = TypeInt64 \<or> type_of v = TypeDouble"
  obtains f where "AsFloat64 (raw_of v) = Inr f"
  using length_number [OF assms(1,2)] assms(3)
  by (auto simp: AsFloat64_def raw_of_def Read64_def Read32_def split: option.splits)

lemma wf_int32_value: "wf_val (int32_value i)" "length (enc_val (int32_value i)) = 4" "type_of (int32_value i) = TypeInt32"
  using int32_codec.wf [of i] by (simp_all add: int32_value_def Append32_def)

lemma raw_int32_value: "raw_of (int32_value i) = i32ToRawValue i"
  by (simp add: raw_of_def int32_value_def i32ToRawValue_def)

lemma convertToInt32_computes:
  assumes "wf_spec fs" and "str k \<noteq> str ''key''"
  shows "computes (convertToInt32 (enc_doc fs) k mx) (upd_field (str k) (norm_int32 mx) fs)"
proof (cases "map_of fs (str k)")
  case None
  then show ?thesis
    using assms(1) by (simp add: convertToInt32_def LookupErr_field wf_spec_def upd_field_absent computes_def)
next
  case (Some v)
  have wf: "wf_doc fs" using assms(1) by (simp add: wf_spec_def)
  note v = wf_doc_map_of [OF wf Some]
  note L = LookupErr_field [OF wf, of "str k"]
  note none = upd_field_none [OF Some]
  consider "type_of v = TypeInt32" | (num) "type_of v = TypeInt64 \<or> type_of v = TypeDouble"
    | "type_of v \<notin> {TypeInt32, TypeInt64, TypeDouble}" by auto
  then show ?thesis
  proof cases
    case 1
    then have "upd_field (str k) (norm_int32 mx) fs = Some fs"
      using Some by (intro upd_field_same) (auto simp: norm_int32_def)
    then show ?thesis
      using 1 L Some assms(1) by (simp add: convertToInt32_def raw_of_def computes_def)
  next
    case num
    obtain f where f: "AsFloat64 (raw_of v) = Inr f"
      using AsFloat64_ok v num by blast
    have len: "length (enc_val v) = 8" using length_number v num by blast
    show ?thesis
    proof (cases "f64_less (f64_of_int mx) f")
      case True
      then show ?thesis
        using num L Some f none [of "norm_int32 mx"]
        by (auto simp: convertToInt32_def raw_of_def computes_def norm_int32_def)
    next
      case False
      show ?thesis
      proof (cases "Convert_f64 f")
        case (Inl x)
        then obtain e where "x = Err e" using Convert_f64_no_panic by blast
        then show ?thesis
          using num L Some f none [of "norm_int32 mx"] False Inl
          by (auto simp: convertToInt32_def raw_of_def computes_def norm_int32_def)
      next
        case (Inr i)
        have "norm_int32 mx v = Some (int32_value i)"
          using num f False Inr by (auto simp: norm_int32_def)
        from replace_step [where g = "norm_int32 mx", OF assms(1) Some this wf_int32_value(1) _ assms(2)] len
        have "computes (replace_asserting (enc_doc fs) (i32ToRawValue i) (str k))
            (upd_field (str k) (norm_int32 mx) fs)" by (simp add: wf_int32_value raw_int32_value)
        then show ?thesis
          using num L Some f False Inr by (auto simp: convertToInt32_def raw_of_def)
      qed
    qed
  next
    case 3
    then show ?thesis
      using L Some none [of "norm_int32 mx"]
      by (auto simp: convertToInt32_def raw_of_def computes_def norm_int32_def)
  qed
qed


lemma convertSparseSpecToBool_computes:
  assumes "wf_spec fs"
  shows "computes (convertSparseSpecToBool (enc_doc fs)) (upd_field (str ''sparse'') norm_bool fs)"
proof (cases "map_of fs (str ''sparse'')")
  case None
  then show ?thesis
    using assms by (simp add: convertSparseSpecToBool_def LookupErr_field wf_spec_def upd_field_absent computes_def)
next
  case (Some v)
  have wf: "wf_doc fs" using assms by (simp add: wf_spec_def)
  note v = wf_doc_map_of [OF wf Some]
  note L = LookupErr_field [OF wf, of "str ''sparse''"]
  consider "type_of v = TypeBoolean"
    | (num) "type_of v = TypeInt32 \<or> type_of v = TypeInt64 \<or> type_of v = TypeDouble"
    | "type_of v \<notin> {TypeBoolean, TypeInt32, TypeInt64, TypeDouble}" by auto
  then show ?thesis
  proof cases
    case 1
    then have "upd_field (str ''sparse'') norm_bool fs = Some fs"
      using Some by (intro upd_field_same) (auto simp: norm_bool_def)
    then show ?thesis
      using 1 L Some assms by (simp add: convertSparseSpecToBool_def raw_of_def computes_def)
  next
    case num
    obtain f where f: "AsFloat64 (raw_of v) = Inr f"
      using AsFloat64_ok v num by blast
    let ?b = "Scalar TypeBoolean (AppendBoolean [] (\<not> f64_eq f (Fin 0 0)))"
    have g: "norm_bool v = Some ?b" using num f by (auto simp: norm_bool_def)
    have "wf_val ?b" using boolean_codec.wf by simp
    moreover have "length (enc_val ?b) \<le> length (enc_val v)"
      using length_number v num by (auto simp: AppendBoolean_def)
    ultimately have "computes (replace_asserting (enc_doc fs) (raw_of ?b) (str ''sparse''))
        (upd_field (str ''sparse'') norm_bool fs)"
      by (intro replace_step [where g = norm_bool, OF assms Some g]) simp_all
    then show ?thesis
      using num L Some f by (auto simp: convertSparseSpecToBool_def raw_of_def)
  next
    case 3
    then show ?thesis
      using L Some upd_field_none [OF Some, of norm_bool]
      by (auto simp: convertSparseSpecToBool_def raw_of_def computes_def norm_bool_def)
  qed
qed

lemma normalizeTypesInSpec_computes:
  "wf_spec fs \<Longrightarrow> computes (normalizeTypesInSpec (enc_doc fs)) (normalize_tree fs)"
  unfolding normalizeTypesInSpec_def normalize_tree_def convertTTLSpecToInt32_def convertBitsSpecToInt32_def
  by (intro computes_bind convertToInt32_computes convertSparseSpecToBool_computes) simp_all

section \<open>Dropping the ignored options\<close>

lemma remove_all_opts_computes:
  "wf_spec fs \<Longrightarrow> str ''key'' \<notin> set opts \<Longrightarrow>
     computes (remove_all_opts (enc_doc fs) opts) (Some (fold del_field opts fs))"
proof (induction opts arbitrary: fs)
  case Nil
  then show ?case by (simp add: computes_def)
next
  case (Cons opt opts)
  then have wf: "wf_doc fs" and "str ''key'' \<noteq> opt" by (auto simp: wf_spec_def)
  then have "key_fields (del_field opt fs) = key_fields fs"
    by (intro key_fields_cong map_of_del_field)
  moreover obtain found where found: "RemoveFromRaw (enc_doc fs) [opt] = Inr (enc_doc (del_field opt fs), found)"
    "wf_doc (del_field opt fs)" using RemoveFromRaw_field [OF wf] by blast
  ultimately have "wf_spec (del_field opt fs)" using Cons.prems by (simp add: wf_spec_def)
  then show ?case using Cons.IH Cons.prems found by simp
qed

lemma del_field_commute: "del_field a (del_field b fs) = del_field b (del_field a fs)"
  by (induction fs) auto

text \<open>The order in which the set is iterated does not matter.\<close>

lemma fold_del_field_order:
  assumes "distinct xs" and "distinct ys" and "set xs = set ys"
  shows "fold del_field xs fs = fold del_field ys fs"
proof -
  have "mset xs = mset ys" using assms set_eq_iff_mset_eq_distinct by blast
  then show ?thesis
    by (intro fun_cong [OF fold_multiset_equiv]) (auto simp: fun_eq_iff del_field_commute)
qed

section \<open>The key values\<close>

lemma lookupRaw_key:
  assumes "wf_doc fs"
  shows "lookupRaw (enc_doc fs) ''key'' =
    (case map_of fs (str ''key'') of
       None \<Rightarrow> Inl (Err (Wrapped ''extracting'' ElementNotFound))
     | Some v \<Rightarrow> (case key_fields fs of
          None \<Rightarrow> Inl (Err (Wrapped ''casting'' (CannotCast ''bson.Raw'' (type_of v))))
        | Some kfs \<Rightarrow> Inr (enc_doc kfs)))"
proof (cases "map_of fs (str ''key'')")
  case None
  then show ?thesis by (simp add: lookupRaw_def RawLookup_def LookupErr_field [OF assms])
next
  case (Some v)
  note v = wf_doc_map_of [OF assms Some]
  show ?thesis
  proof (cases v)
    case (Scalar t p)
    then have "t \<noteq> TypeEmbeddedDocument" using v by (simp add: wf_scalar_def is_sub_def)
    then show ?thesis
      using Some Scalar
      by (simp add: lookupRaw_def RawLookup_def LookupErr_field [OF assms] key_fields_def raw_of_def
          cast_def valueOK_def)
  next
    case (Sub t kfs)
    then have "readLengthBytes (enc_doc kfs) = Some (enc_doc kfs, [])"
      using v readLengthBytes_frame [of "body kfs" "[]"] by (simp add: enc_doc_def)
    then show ?thesis
      using Some Sub
      by (simp add: lookupRaw_def RawLookup_def LookupErr_field [OF assms] key_fields_def raw_of_def
          cast_def valueOK_def)
  qed
qed

lemma key_fields_Some:
  assumes "key_fields fs = Some kfs"
  obtains pre post where "fs = pre @ (str ''key'', Sub TypeEmbeddedDocument kfs) # post"
    and "map_of pre (str ''key'') = None"
    and "split_field (str ''key'') fs = Some (pre, Sub TypeEmbeddedDocument kfs, post)"
proof -
  have "map_of fs (str ''key'') = Some (Sub TypeEmbeddedDocument kfs)"
    using assms by (auto simp: key_fields_def split: option.splits bson.splits if_splits)
  then obtain pre post where s: "split_field (str ''key'') fs = Some (pre, Sub TypeEmbeddedDocument kfs, post)"
    by (auto simp: split_field_map_of)
  show ?thesis by (rule that [OF split_field_Some [OF s] split_field_pre [OF s] s])
qed

lemma split_field_append: "map_of pre k = None \<Longrightarrow> split_field k (pre @ (k, v) # post) = Some (pre, v, post)"
  by (induction pre) (auto split: if_splits)

lemma set_key_append:
  "map_of pre (str ''key'') = None \<Longrightarrow>
     set_key kfs' (pre @ (str ''key'', v) # post) = Some (pre @ (str ''key'', Sub TypeEmbeddedDocument kfs') # post)"
  by (simp add: set_key_def upd_field_split split_field_append del: str_neq)

lemma wf_doc_sub_replace:
  assumes "wf_doc (pre @ (key, Sub t (xs @ (k, v) # done)) # post)"
    and "wf_val v'" and "length (enc_val v') \<le> length (enc_val v)"
  shows "wf_doc (pre @ (key, Sub t (xs @ (k, v') # done)) # post)"
  using assms by (auto simp: wf_doc_def wf_field_def fits_def length_enc_doc_middle)

lemma ReplaceInRaw_key:
  assumes wf: "wf_doc (pre @ (key, Sub t (xs @ (k, v) # done)) # post)"
    and "map_of pre key = None" and "map_of xs k = None"
    and v': "wf_val v'" "length (enc_val v') \<le> length (enc_val v)"
  shows "ReplaceInRaw (enc_doc (pre @ (key, Sub t (xs @ (k, v) # done)) # post)) (raw_of v') [key, k]
    = Inr (enc_doc (pre @ (key, Sub t (xs @ (k, v') # done)) # post), True)"
proof -
  let ?fs = "pre @ (key, Sub t (xs @ (k, v) # done)) # post"
  let ?fs' = "pre @ (key, Sub t (xs @ (k, v') # done)) # post"
  have e: "tree_edit (Some v') ?fs [key, k] = Inr (Some ?fs')"
    using assms(2,3) by (simp add: split_field_append)
  have "fits (enc_doc ?fs')"
    using wf_doc_sub_replace [OF wf v'] by (simp add: wf_doc_def)
  then show ?thesis
    using replaceOrRemove_enc [of ?fs "Some v'" "[key, k]" "[]"] e wf
    by (simp add: ReplaceInRaw_def)
qed

lemma must_Inr [simp]: "must (Inr x) = Inr x"
  by (simp add: must_def)

lemma normalizeKeyEl_enc:
  assumes wf: "wf_doc (pre @ (str ''key'', Sub t (xs @ (k, v) # done)) # post)"
    and "map_of pre (str ''key'') = None" and "map_of xs k = None"
  shows "case norm_key v of
      None \<Rightarrow> \<exists>e. normalizeKeyEl (enc_doc (pre @ (str ''key'', Sub t (xs @ (k, v) # done)) # post)) (enc_elem (k, v))
        = Inl (Err e)
    | Some v' \<Rightarrow> wf_doc (pre @ (str ''key'', Sub t (xs @ (k, v') # done)) # post) \<and>
        normalizeKeyEl (enc_doc (pre @ (str ''key'', Sub t (xs @ (k, v) # done)) # post)) (enc_elem (k, v))
        = Inr (enc_doc (pre @ (str ''key'', Sub t (xs @ (k, v') # done)) # post))"
proof -
  let ?fs = "pre @ (str ''key'', Sub t (xs @ (k, v) # done)) # post"
  have sub: "wf_doc (xs @ (k, v) # done)" using wf_doc_sub [OF wf] by auto
  have f: "wf_field (k, v)" "fits (enc_elem (k, v))"
    using wf_doc_field [OF sub, of "(k, v)"] by auto
  have v: "wf_val v" "fits (enc_val v)" using f fits_val [of k v] by (auto simp: wf_field_def)
  note val = ValueErr_enc [OF f] and key = KeyBytes_enc(1) [OF f(1)]
  have el: "enc_elem (k, v) = type_of v # k @ 0 # enc_val v" by (simp add: enc_elem_Cons)
  have repl: "ReplaceInRaw (enc_doc ?fs) (i32ToRawValue i) [str ''key'', k] =
      Inr (enc_doc (pre @ (str ''key'', Sub t (xs @ (k, int32_value i) # done)) # post), True)"
    and wf': "wf_doc (pre @ (str ''key'', Sub t (xs @ (k, int32_value i) # done)) # post)"
    if "length (enc_val v) = 8" for i
    using that ReplaceInRaw_key [OF wf assms(2,3) wf_int32_value(1) [of i]]
      wf_doc_sub_replace [OF wf wf_int32_value(1) [of i]] by (simp_all add: wf_int32_value raw_int32_value)
  consider (num) "type_of v = TypeInt64 \<or> type_of v = TypeDouble"
    | "type_of v \<noteq> TypeInt64" "type_of v \<noteq> TypeDouble" by blast
  then show ?thesis
  proof cases
    case num
    then have len: "length (enc_val v) = 8" using length_number v by blast
    then obtain x where x: "Read64 (enc_val v) = Some (x, [])" by (simp add: Read64_def)
    show ?thesis
      using num val key x repl [OF len] wf' [OF len] wf Convert_f64_no_panic [of "f64_of_bits x"]
      unfolding normalizeKeyEl_def el [symmetric]
      by (auto simp: el norm_key_def valueOK_def Convert_int32_def go_bind_def split: sum.split)
  next
    case 2
    then show ?thesis using wf by (simp add: normalizeKeyEl_def el norm_key_def Let_def)
  qed
qed


abbreviation norm_entries :: "(bytes \<times> bson) list \<Rightarrow> (bytes \<times> bson) list option" where
  "norm_entries kfs \<equiv> those (map (\<lambda>(k, v). map_option (Pair k) (norm_key v)) kfs)"

lemma those_append: "those (xs @ ys) = Option.bind (those xs) (\<lambda>a. map_option ((@) a) (those ys))"
  by (induction xs) (auto split: option.split simp: option.map_comp comp_def bind_map_option map_option_bind
      option.map_ident cong: option.map_cong)

lemma those_keys: "norm_entries kfs = Some kfs' \<Longrightarrow> map fst kfs' = map fst kfs"
  by (induction kfs arbitrary: kfs') (auto split: option.splits)

text \<open>The loop from the last key to the first.\<close>

lemma normalize_key_els_enc:
  assumes "wf_doc (pre @ (str ''key'', Sub t (xs @ done)) # post)"
    and "map_of pre (str ''key'') = None" and "distinct (map fst (xs @ done))"
  shows "case norm_entries xs of
      None \<Rightarrow> \<exists>e. normalize_key_els (enc_doc (pre @ (str ''key'', Sub t (xs @ done)) # post)) (rev (map enc_elem xs))
        = Inl (Err e)
    | Some xs' \<Rightarrow> wf_doc (pre @ (str ''key'', Sub t (xs' @ done)) # post) \<and>
        normalize_key_els (enc_doc (pre @ (str ''key'', Sub t (xs @ done)) # post)) (rev (map enc_elem xs))
        = Inr (enc_doc (pre @ (str ''key'', Sub t (xs' @ done)) # post))"
  using assms(1,3)
proof (induction xs arbitrary: "done" rule: rev_induct)
  case Nil
  then show ?case by simp
next
  case (snoc f xs)
  obtain k v where f: "f = (k, v)" by (cases f)
  have new: "map_of xs k = None" using snoc.prems(2) by (auto simp: f map_of_eq_None_iff)
  have wf: "wf_doc (pre @ (str ''key'', Sub t (xs @ (k, v) # done)) # post)" using snoc.prems(1) f by simp
  note el = normalizeKeyEl_enc [OF wf assms(2) new]
  show ?case
  proof (cases "norm_key v")
    case None
    then show ?thesis using el by (auto simp: f those_append split: option.split)
  next
    case (Some v')
    have "distinct (map fst (xs @ (k, v') # done))" using snoc.prems(2) by (simp add: f)
    from snoc.IH [OF _ this] Some el show ?thesis
      by (cases "norm_entries xs") (auto simp: f those_append)
  qed
qed

lemma normalizeTypesInKey_computes:
  assumes "wf_spec fs"
  shows "computes (normalizeTypesInKey (enc_doc fs)) (norm_keys fs)"
proof (cases "key_fields fs")
  case None
  then show ?thesis
    using assms lookupRaw_key [of fs]
    by (auto simp: normalizeTypesInKey_def norm_keys_def computes_def wf_spec_def split: option.splits)
next
  case (Some kfs)
  then obtain pre post where fs: "fs = pre @ (str ''key'', Sub TypeEmbeddedDocument kfs) # post"
    and pre: "map_of pre (str ''key'') = None" by (rule key_fields_Some)
  have wf: "wf_doc fs" and d: "distinct (map fst (kfs @ []))"
    using assms Some by (auto simp: wf_spec_def)
  have "wf_doc kfs" using wf_doc_sub [OF wf] by (auto simp: fs)
  moreover have "lookupRaw (enc_doc fs) ''key'' = Inr (enc_doc kfs)"
    using lookupRaw_key [OF wf] Some by (auto simp: key_fields_def split: option.splits)
  ultimately have "normalizeTypesInKey (enc_doc fs) = normalize_key_els (enc_doc fs) (rev (map enc_elem kfs))"
    by (simp add: normalizeTypesInKey_def Raw_Elements_enc)
  moreover note loop = normalize_key_els_enc [of pre TypeEmbeddedDocument kfs "[]" post, OF _ pre d]
  moreover have "wf_spec (pre @ (str ''key'', Sub TypeEmbeddedDocument kfs') # post)"
    if "norm_entries kfs = Some kfs'" and "wf_doc (pre @ (str ''key'', Sub TypeEmbeddedDocument kfs') # post)" for kfs'
    using that d pre those_keys [OF that(1)] by (simp add: wf_spec_def key_fields_def map_add_def del: str_neq)
  ultimately show ?thesis
    using wf Some pre
    by (auto simp: fs norm_keys_def computes_def set_key_append split: option.splits)
qed

section \<open>Modernising\<close>

lemma BigInt_no_panic: "BigInt h l = Inl x \<Longrightarrow> \<exists>e. x = Err e"
  by (auto simp: BigInt_def Let_def split: if_splits prod.splits)

lemma shouldModernizeValue_ok:
  assumes "wf_val v" and "fits (enc_val v)" and "str_ok v"
  obtains b where "shouldModernizeValue (raw_of v) = Inr b"
proof (cases "type_of v = TypeInt32 \<or> type_of v = TypeInt64 \<or> type_of v = TypeDouble")
  case True
  then obtain f where "AsFloat64 (raw_of v) = Inr f" using AsFloat64_ok assms by blast
  then show ?thesis using True that by (auto simp: shouldModernizeValue_def raw_of_def)
next
  case False
  then have "\<exists>b. shouldModernizeValue (raw_of v) = Inr b"
    using assms(3) length_number(3) [OF assms(1,2)]
    by (auto simp: shouldModernizeValue_def raw_of_def str_ok_def Decimal128OK_def valueOK_def
        ReadDecimal128_def Read64_def dest: BigInt_no_panic split: sum.split option.split fault.split)
  then show ?thesis using that by blast
qed

definition should :: "bytes \<times> bson \<Rightarrow> bool" where
  "should f \<longleftrightarrow> shouldModernizeValue (raw_of (snd f)) = Inr True"

lemma modernize_val_should: "modernize_val v = (if should (k, v) then int32_value 1 else v)"
  by (simp add: modernize_val_def should_def)

lemma wf_modernize_val: "wf_val v \<Longrightarrow> wf_val (modernize_val v)"
  by (simp add: modernize_val_def wf_int32_value)

lemma getModernizedKeySpec_loop:
  assumes "list_all (\<lambda>f. wf_field f \<and> fits (enc_elem f) \<and> str_ok (snd f)) kfs"
  shows "range_elements (\<lambda>(modernizedSpec, anythingWasModernized) keyElem.
          go_bind (wrap_err (Wrapped ''parsing field name key spec'') (KeyBytesErr keyElem)) (\<lambda>key.
          go_bind (wrap_err (Wrapped ''parsing key spec'') (ValueErr keyElem)) (\<lambda>val.
          go_bind (shouldModernizeValue val) (\<lambda>should.
          Inr (if should then (modernizedSpec @ [(key, modernizedKeyElemValue)], True)
               else (modernizedSpec @ [(key, val)], anythingWasModernized)))))) (acc, any) (map enc_elem kfs)
    = Inr (acc @ map (\<lambda>(k, v). (k, raw_of v)) (map (apsnd modernize_val) kfs), any \<or> list_ex should kfs)"
  using assms
proof (induction kfs arbitrary: acc any)
  case Nil
  then show ?case by simp
next
  case (Cons f kfs)
  obtain k v where f: "f = (k, v)" by (cases f)
  from Cons.prems have wf: "wf_field (k, v)" "fits (enc_elem (k, v))" "str_ok v" by (auto simp: f)
  then obtain b where b: "shouldModernizeValue (raw_of v) = Inr b"
    using shouldModernizeValue_ok [of v] fits_val [of k v] by (auto simp: wf_field_def)
  have v: "ValueErr (enc_elem (k, v)) = Inr (raw_of v)" using ValueErr_enc [OF wf(1,2)] by (simp add: raw_of_def)
  have "modernizedKeyElemValue = raw_of (int32_value 1)"
    by (simp add: modernizedKeyElemValue_def raw_int32_value)
  then show ?case
    using Cons.IH Cons.prems b v KeyBytes_enc(1) [OF wf(1)]
    by (cases b) (simp_all add: f modernize_val_def should_def)
qed

lemma getModernizedKeySpec_enc:
  assumes "wf_doc kfs" and "list_all (\<lambda>f. str_ok (snd f)) kfs"
  shows "getModernizedKeySpec (enc_doc kfs) =
    Inr (map (\<lambda>(k, v). (k, raw_of v)) (map (apsnd modernize_val) kfs), list_ex should kfs)"
proof -
  have "list_all (\<lambda>f. wf_field f \<and> fits (enc_elem f) \<and> str_ok (snd f)) kfs"
    using assms wf_doc_field [OF assms(1)] by (auto simp: list_all_iff)
  from getModernizedKeySpec_loop [OF this, of "[]" False] show ?thesis
    by (simp add: getModernizedKeySpec_def range_over_def RawElements_enc [OF assms(1)])
qed

lemma RawValueTo_int_ok:
  assumes "wf_val v" and "fits (enc_val v)"
  shows "(\<exists>x. RawValueTo TInt (raw_of v) = Inr (GoInt x)) \<or> (\<exists>e. RawValueTo TInt (raw_of v) = Inl (Err e))"
  using length_number [OF assms]
  by (auto simp: raw_of_def AsInt64OK_def Read32_def Read64_def split: option.split)

lemma sint_inj: "sint x = sint y \<longleftrightarrow> x = (y :: 'a :: len word)"
  by (metis scast_eq scast_id)

lemma shouldModernizeSpec_enc:
  assumes "wf_doc fs"
  shows "if version fs = Some 1 then shouldModernizeSpec (enc_doc fs) = Inr True
    else if version fs = Some 2 then shouldModernizeSpec (enc_doc fs) = Inr False
    else \<exists>e. shouldModernizeSpec (enc_doc fs) = Inl (Err e)"
proof (cases "map_of fs (str ''v'')")
  case None
  then show ?thesis by (simp add: version_def shouldModernizeSpec_def RawLookup_def LookupErr_field [OF assms])
next
  case (Some v)
  have sint: "sint x = 1 \<longleftrightarrow> x = 1" "sint x = 2 \<longleftrightarrow> x = 2" for x :: i64
    using sint_inj [of x 1] sint_inj [of x 2] sint_of_int_64 [of 1] sint_of_int_64 [of 2] by auto
  consider x where "RawValueTo TInt (raw_of v) = Inr (GoInt x)"
    | e where "RawValueTo TInt (raw_of v) = Inl (Err e)"
    using RawValueTo_int_ok wf_doc_map_of [OF assms Some] by blast
  then show ?thesis
    by cases (simp_all add: version_def shouldModernizeSpec_def RawLookup_def LookupErr_field [OF assms]
        Some sint del: RawValueTo.simps)
qed

text \<open>\<open>ModernizeSpec\<close> on a specification whose modernised form still fits.\<close>

definition modernizes :: "(bytes \<times> bson) list \<Rightarrow> bool" where
  "modernizes fs \<longleftrightarrow> version fs = Some 1 \<and> (case key_fields fs of None \<Rightarrow> False | Some kfs \<Rightarrow> list_ex should kfs)"

lemma map_modernize_id: "\<not> list_ex should kfs \<Longrightarrow> map (apsnd modernize_val) kfs = kfs"
  by (induction kfs) (auto simp: modernize_val_def should_def)

lemma ModernizeSpec_enc:
  assumes "wf_spec fs" and "strings_ok fs" and "env_ok env"
    and "\<And>fs'. modernize_tree fs = Some fs' \<Longrightarrow> fits (enc_doc fs')"
  shows "case modernize_tree fs of
      None \<Rightarrow> \<exists>e. ModernizeSpec env (enc_doc fs) = Inl (Err e)
    | Some fs' \<Rightarrow> wf_spec fs' \<and> ModernizeSpec env (enc_doc fs) = Inr (enc_doc fs', modernizes fs)"
proof -
  have wf: "wf_doc fs" using assms(1) by (simp add: wf_spec_def)
  note v = shouldModernizeSpec_enc [OF wf]
  consider (old) "version fs = Some 1" | "version fs = Some 2"
    | "version fs \<noteq> Some 1" "version fs \<noteq> Some 2" by blast
  then show ?thesis
  proof cases
    case 2
    then show ?thesis using v assms(1) by (simp add: modernize_tree_def ModernizeSpec_def modernizes_def)
  next
    case 3
    then show ?thesis using v by (auto simp: modernize_tree_def ModernizeSpec_def)
  next
    case old
    then have m: "modernize_tree fs = Option.bind (key_fields fs) (\<lambda>kfs. set_key (map (apsnd modernize_val) kfs) fs)"
      by (simp add: modernize_tree_def)
    show ?thesis
    proof (cases "key_fields fs")
      case None
      then show ?thesis using v old m lookupRaw_key [OF wf]
        by (auto simp: ModernizeSpec_def split: option.splits)
    next
      case (Some kfs)
      let ?kfs' = "map (apsnd modernize_val) kfs"
      obtain pre post where fs: "fs = pre @ (str ''key'', Sub TypeEmbeddedDocument kfs) # post"
        and pre: "map_of pre (str ''key'') = None"
        and s: "split_field (str ''key'') fs = Some (pre, Sub TypeEmbeddedDocument kfs, post)"
        using key_fields_Some [OF Some] by blast
      have look: "lookupRaw (enc_doc fs) ''key'' = Inr (enc_doc kfs)"
        using lookupRaw_key [OF wf] Some by (auto simp: key_fields_def split: option.splits)
      have sub: "wf_doc kfs" using wf_doc_sub [OF wf] by (auto simp: fs)
      have mod: "getModernizedKeySpec (enc_doc kfs)
          = Inr (map (\<lambda>(k, v). (k, raw_of v)) ?kfs', list_ex should kfs)"
        using getModernizedKeySpec_enc [OF sub] assms(2) Some by (simp add: strings_ok_def)
      let ?fs' = "pre @ (str ''key'', Sub TypeEmbeddedDocument ?kfs') # post"
      have m': "modernize_tree fs = Some ?fs'"
        using m Some set_key_append [OF pre] by (simp add: fs)
      have keys: "map fst ?kfs' = map fst kfs" by simp
      have "list_all wf_field ?kfs'"
        using sub by (auto simp: wf_doc_def list_all_iff wf_field_def wf_modernize_val)
      then have wf': "wf_doc ?fs'"
        using wf assms(4) [OF m'] by (auto simp: fs wf_doc_def wf_field_def)
      moreover have "key_fields ?fs' = Some ?kfs'"
        using pre by (simp add: key_fields_def map_add_def del: str_neq)
      ultimately have ws: "wf_spec ?fs'"
        using assms(1) Some keys by (simp add: wf_spec_def)
      have "ModernizeSpec env (enc_doc fs) = Inr (enc_doc ?fs', list_ex should kfs)"
      proof (cases "list_ex should kfs")
        case False
        then show ?thesis using v old look mod map_modernize_id [OF False] by (simp add: ModernizeSpec_def fs)
      next
        case True
        have "wf_doc ?kfs'" using wf_doc_sub [OF wf'] by auto
        then have mar: "marshal_D env (map (\<lambda>(k, v). (k, raw_of v)) ?kfs') = Inr (enc_doc ?kfs')"
          using assms(3) by (simp only: env_ok_def)
        have tr: "ToRawValue (GoRaw (enc_doc ?kfs')) = Inr (raw_of (Sub TypeEmbeddedDocument ?kfs'))"
          by (simp add: raw_of_def)
        show ?thesis
          using v old look mod mar tr True ReplaceInRaw_field [OF wf s wf']
          by (simp add: ModernizeSpec_def del: ToRawValue.simps map_map)
      qed
      then show ?thesis using m' ws old Some by (simp add: modernizes_def)
    qed
  qed
qed


section \<open>Preparing a specification\<close>

lemma prepare_enc:
  assumes "wf_spec fs" and "strings_ok fs" and "env_ok env"
    and "\<And>fs'. modernize_tree fs = Some fs' \<Longrightarrow> fits (enc_doc fs')"
  shows "computes (prepareIndexSpecForEqualityCheck env (enc_doc fs)) (prepare_tree fs)"
proof -
  let ?opts = "[str ''v'', str ''ns'', str ''background'']"
  have order: "fold del_field (iter_order env) gs = fold del_field ?opts gs" for gs
    using assms(3) by (intro fold_del_field_order) (auto simp: env_ok_def optsToIgnore_def)
  have key: "str ''key'' \<notin> set (iter_order env)"
    using assms(3) by (auto simp: env_ok_def optsToIgnore_def)
  have "computes (go_bind (wrap_err (Wrapped ''modernizing'') (ModernizeSpec env (enc_doc fs)))
      (\<lambda>(spec, _). Inr spec)) (modernize_tree fs)"
    using ModernizeSpec_enc [OF assms] by (auto simp: computes_def split: option.splits)
  moreover have "computes (go_bind (wrap_err (Wrapped ''normalizing spec types'') (normalizeTypesInSpec (enc_doc gs)))
      (\<lambda>spec. go_bind (remove_all_opts spec (iter_order env))
      (\<lambda>spec. wrap_err (Wrapped ''normalizing spec types'') (normalizeTypesInKey spec))))
     (Option.bind (normalize_tree gs) (\<lambda>fs. norm_keys (fold del_field ?opts fs)))" if "wf_spec gs" for gs
  proof (rule computes_bind [OF computes_wrap [OF normalizeTypesInSpec_computes [OF that]]])
    fix hs assume "wf_spec hs"
    have "computes (go_bind (remove_all_opts (enc_doc hs) (iter_order env))
        (\<lambda>spec. wrap_err (Wrapped ''normalizing spec types'') (normalizeTypesInKey spec)))
       (Option.bind (Some (fold del_field (iter_order env) hs)) norm_keys)"
      by (intro computes_bind remove_all_opts_computes computes_wrap normalizeTypesInKey_computes
          \<open>wf_spec hs\<close> key)
    then show "computes (go_bind (remove_all_opts (enc_doc hs) (iter_order env))
        (\<lambda>spec. wrap_err (Wrapped ''normalizing spec types'') (normalizeTypesInKey spec)))
       (norm_keys (fold del_field ?opts hs))" by (simp add: order)
  qed
  ultimately have "computes (go_bind (go_bind (wrap_err (Wrapped ''modernizing'') (ModernizeSpec env (enc_doc fs)))
      (\<lambda>(spec, _). Inr spec)) (\<lambda>spec.
      go_bind (wrap_err (Wrapped ''normalizing spec types'') (normalizeTypesInSpec spec))
      (\<lambda>spec. go_bind (remove_all_opts spec (iter_order env))
      (\<lambda>spec. wrap_err (Wrapped ''normalizing spec types'') (normalizeTypesInKey spec)))))
     (prepare_tree fs)"
    unfolding prepare_tree_def by (rule computes_bind)
  then show ?thesis
    by (simp add: prepareIndexSpecForEqualityCheck_def go_bind_assoc split_def)
qed

section \<open>Comparing two prepared specifications\<close>

definition order_differs :: "(bytes \<times> bson) list \<Rightarrow> (bytes \<times> bson) list \<Rightarrow> bytes \<Rightarrow> bool" where
  "order_differs a b k = (case (map_of a k, map_of b k) of
     (Some x, Some y) \<Rightarrow> raw_of x \<noteq> raw_of y | _ \<Rightarrow> False)"

lemma order_differ_loop_enc:
  assumes "wf_doc a" and "wf_doc b"
  shows "order_differ_loop (enc_doc a) (enc_doc b) acc opts = Inr (acc @ filter (order_differs a b) opts)"
  by (induction opts arbitrary: acc)
     (auto simp: LookupErr_field [OF assms(1)] LookupErr_field [OF assms(2)] order_differs_def
       simp del: str_neq split: option.split)

end
