(* ===== verification/Index_Props.thy ===== *)
theory Index_Props
  imports Index_Refine
begin

text \<open>
  The properties of \<open>mongotools/index\<close>: what preparing a specification computes, when two
  specifications are reported equal, that modernising settles, and where it panics. \<open>plain_env\<close>
  is a driver the witnesses run on: raw values written one after the other, documents compared
  byte by byte.
\<close>

section \<open>A concrete driver\<close>

definition plain_env :: "(bytes, unit) index_env" where
  "plain_env = \<lparr>marshal_D = (\<lambda>d. Inr (frame (concat (map (\<lambda>(k, v). rv_type v # k @ 0 # rv_value v) d)))),
     iter_order = [str ''ns'', str ''background'', str ''v''],
     decode_map = Inr, deep_equal = (=), ext_json = Inr, compare_json = (\<lambda>a b. (Some (), None))\<rparr>"

lemma plain_env_ok: "env_ok plain_env"
proof -
  have "(\<lambda>(k, v). type_of v # k @ 0 # enc_val v) = enc_elem"
    by (auto simp: enc_elem_def fun_eq_iff)
  then show ?thesis
    by (auto simp: env_ok_def plain_env_def optsToIgnore_def str_def enc_doc_def raw_of_def comp_def split_def)
qed

text \<open>An index of version 1 with key \<open>{a: 1.0}\<close> (a double) and \<open>expireAfterSeconds: 123.4\<close>,
  the same index as the server reports it elsewhere, and its prepared form.\<close>

definition spec_stored :: "(bytes \<times> bson) list" where
  "spec_stored = [(str ''v'', int32_value 1),
     (str ''key'', Sub TypeEmbeddedDocument [(str ''a'', Scalar TypeDouble [0, 0, 0, 0, 0, 0, 0xF0, 0x3F])]),
     (str ''expireAfterSeconds'', Scalar TypeDouble [0x9A, 0x99, 0x99, 0x99, 0x99, 0xD9, 0x5E, 0x40])]"

definition spec_active :: "(bytes \<times> bson) list" where
  "spec_active = [(str ''v'', int32_value 2),
     (str ''key'', Sub TypeEmbeddedDocument [(str ''a'', int32_value 1)]),
     (str ''expireAfterSeconds'', int32_value 123)]"

definition spec_prepared :: "(bytes \<times> bson) list" where
  "spec_prepared = [(str ''key'', Sub TypeEmbeddedDocument [(str ''a'', int32_value 1)]),
     (str ''expireAfterSeconds'', int32_value 123)]"

lemmas spec_eval = spec_stored_def spec_active_def spec_prepared_def int32_value_def Append32_def str_def

lemma wf_specs: "wf_spec spec_stored" "wf_spec spec_active"
  by (simp_all add: spec_stored_def spec_active_def wf_spec_def key_fields_def tree_eval wf_int32_value)

lemma strings_specs: "strings_ok spec_stored" "strings_ok spec_active"
  by (simp_all add: spec_eval strings_ok_def key_fields_def str_ok_def)

lemma doubles: "f64_of_bits (of_nat (le_nat [0, 0, 0, 0, 0, 0, 0xF0, 0x3F])) = Fin 4503599627370496 (- 52)"
  "f64_of_bits (of_nat (le_nat [0x9A, 0x99, 0x99, 0x99, 0x99, 0xD9, 0x5E, 0x40])) = Fin 8683503031523738 (- 46)"
  by (simp_all add: f64_of_bits_def Let_def)


lemma number_doubles:
  "AsFloat64 \<lparr>rv_type = TypeDouble, rv_value = [0x9A, 0x99, 0x99, 0x99, 0x99, 0xD9, 0x5E, 0x40]\<rparr>
     = Inr (Fin 8683503031523738 (- 46))"
  "AsFloat64 \<lparr>rv_type = TypeDouble, rv_value = [0, 0, 0, 0, 0, 0, 0xF0, 0x3F]\<rparr> = Inr (Fin 4503599627370496 (- 52))"
  using doubles by (simp_all add: AsFloat64_def Read64_def)

lemma should_specs:
  "\<not> should (str ''a'', Scalar TypeDouble [0, 0, 0, 0, 0, 0, 0xF0, 0x3F])" "\<not> should (str ''a'', int32_value 1)"
proof -
  show "\<not> should (str ''a'', Scalar TypeDouble [0, 0, 0, 0, 0, 0, 0xF0, 0x3F])"
    by (simp add: should_def shouldModernizeValue_def raw_of_def number_doubles del: f64_eq.simps)
  have "AsFloat64 (raw_of (int32_value 1)) = Inr (Fin 1 0)"
    using f64_of_int_small [of 1]
    by (simp add: AsFloat64_def raw_int32_value i32ToRawValue_def int32_codec.dec_all)
  then show "\<not> should (str ''a'', int32_value 1)"
    by (simp add: should_def shouldModernizeValue_def raw_int32_value i32ToRawValue_def del: f64_eq.simps)
qed

lemma version_specs: "version spec_stored = Some 1" "version spec_active = Some 2"
proof -
  have "RawValueTo TInt (raw_of (int32_value i)) = Inr (GoInt (word_of_int (sint i)))" for i
    by (simp add: raw_int32_value i32ToRawValue_def AsInt64OK_def int32_codec.dec_all)
  then show "version spec_stored = Some 1" "version spec_active = Some 2"
    using sint_word_of_int_32 [of 1] sint_word_of_int_32 [of 2] sint_of_int_64 [of 1] sint_of_int_64 [of 2]
    by (simp_all add: version_def spec_stored_def spec_active_def fits_i32_def)
qed

lemma modernize_specs: "modernize_tree spec_stored = Some spec_stored" "modernize_tree spec_active = Some spec_active"
  using version_specs should_specs
  by (simp_all add: modernize_tree_def) (simp add: spec_stored_def key_fields_def set_key_def modernize_val_def should_def)

lemma norm_specs:
  "norm_int32 2147483647 (Scalar TypeDouble [0x9A, 0x99, 0x99, 0x99, 0x99, 0xD9, 0x5E, 0x40]) = Some (int32_value 123)"
  "norm_int32 m (int32_value i) = Some (int32_value i)"
  "norm_key (Scalar TypeDouble [0, 0, 0, 0, 0, 0, 0xF0, 0x3F]) = Some (int32_value 1)"
  "norm_key (int32_value i) = Some (int32_value i)"
  using f64_of_int_small [of 2147483647] sint_word_of_int_32 [of 1] f64_of_int_small [of 1] doubles
  by (simp_all add: norm_int32_def norm_key_def raw_of_def number_doubles Convert_f64_Fin trunc_to_int_def
      fits_i32_def align_def Read64_def wf_int32_value)

lemma prepare_specs: "prepare_tree spec_stored = Some spec_prepared" "prepare_tree spec_active = Some spec_prepared"
  using norm_specs modernize_specs
  by (simp_all add: prepare_tree_def normalize_tree_def norm_keys_def set_key_def spec_stored_def
      spec_active_def spec_prepared_def key_fields_def)

lemma fits_specs: "fits (enc_doc spec_stored)" "fits (enc_doc spec_active)"
  using wf_specs by (simp_all add: wf_spec_def wf_doc_def)


section \<open>A second run\<close>

lemma should_modernized: "\<not> should (k, modernize_val v)"
proof -
  have "AsFloat64 (raw_of (int32_value 1)) = Inr (Fin 1 0)"
    using f64_of_int_small [of 1]
    by (simp add: AsFloat64_def raw_int32_value i32ToRawValue_def int32_codec.dec_all)
  then have "\<not> should (k, int32_value 1)"
    by (simp add: should_def shouldModernizeValue_def raw_int32_value i32ToRawValue_def del: f64_eq.simps)
  then show ?thesis by (auto simp: modernize_val_def should_def)
qed

lemma modernize_modernized: "modernize_val (modernize_val v) = modernize_val v"
  using should_modernized [of "[]" v] by (simp add: modernize_val_def [of "modernize_val v"] should_def)

lemma str_ok_modernized: "str_ok v \<Longrightarrow> str_ok (modernize_val v)"
  by (simp add: modernize_val_def str_ok_def wf_int32_value)

lemma modernize_again:
  assumes "strings_ok fs" and "modernize_tree fs = Some fs'"
  shows "strings_ok fs'" and "modernize_tree fs' = Some fs'" and "\<not> modernizes fs'"
    and "\<not> modernizes fs \<Longrightarrow> fs' = fs"
proof -
  consider "version fs = Some 2" "fs' = fs"
    | (old) kfs where "version fs = Some 1" "key_fields fs = Some kfs"
      "set_key (map (apsnd modernize_val) kfs) fs = Some fs'"
    using assms(2) by (auto simp: modernize_tree_def bind_eq_Some_conv split: if_splits)
  then have "strings_ok fs' \<and> modernize_tree fs' = Some fs' \<and> \<not> modernizes fs'
    \<and> (\<not> modernizes fs \<longrightarrow> fs' = fs)"
  proof cases
    case 1
    then show ?thesis using assms by (simp add: modernizes_def)
  next
    case old
    obtain pre post where fs: "fs = pre @ (str ''key'', Sub TypeEmbeddedDocument kfs) # post"
      and pre: "map_of pre (str ''key'') = None" using key_fields_Some [OF old(2)] by blast
    let ?kfs' = "map (apsnd modernize_val) kfs"
    have fs': "fs' = pre @ (str ''key'', Sub TypeEmbeddedDocument ?kfs') # post"
      using old(3) set_key_append [OF pre] by (simp add: fs)
    have key: "key_fields fs' = Some ?kfs'"
      using pre by (simp add: fs' key_fields_def map_add_def del: str_neq)
    have "map_of fs' (str ''v'') = map_of fs (str ''v'')" by (simp add: fs fs' map_add_def split: option.split)
    then have v: "version fs' = Some 1" using old(1) by (simp add: version_def)
    have same: "map (apsnd modernize_val) ?kfs' = ?kfs'" by (auto simp: modernize_modernized)
    have "\<not> list_ex should ?kfs'" by (auto simp: list_ex_iff should_modernized)
    moreover have "strings_ok fs'"
      using assms(1) old(2) by (auto simp: strings_ok_def key list_all_iff str_ok_modernized)
    moreover have "modernize_tree fs' = Some fs'"
      using v key same set_key_append [OF pre] by (simp add: modernize_tree_def fs')
    moreover have "fs' = fs" if "\<not> modernizes fs"
      using that old(1,2) map_modernize_id by (simp add: modernizes_def fs fs')
    ultimately show ?thesis using v key by (simp add: modernizes_def)
  qed
  then show "strings_ok fs'" and "modernize_tree fs' = Some fs'" and "\<not> modernizes fs'"
    and "\<not> modernizes fs \<Longrightarrow> fs' = fs" by blast+
qed

section \<open>Properties\<close>

text \<open>
  C6: \<open>prepareIndexSpecForEqualityCheck\<close> on the bytes of a well-formed specification is
  \<open>prepare_tree\<close> on its fields: the key values of a version 1 index that are zero, empty or not
  numbers become 1, \<open>expireAfterSeconds\<close> and \<open>bits\<close> the int32 in effect, \<open>sparse\<close> a boolean,
  integral key values int32, and \<open>v\<close>, \<open>ns\<close> and \<open>background\<close> are gone, in whatever order the
  set of ignored names is iterated. Where a value is refused the code returns an error; it never
  panics.
\<close>

theorem prepare_refines_tree:
  assumes "wf_spec fs" and "strings_ok fs" and "env_ok env"
    and "\<And>fs'. modernize_tree fs = Some fs' \<Longrightarrow> fits (enc_doc fs')"
  shows "case prepare_tree fs of
      None \<Rightarrow> \<exists>e. prepareIndexSpecForEqualityCheck env (enc_doc fs) = Inl (Err e)
    | Some fs' \<Rightarrow> prepareIndexSpecForEqualityCheck env (enc_doc fs) = Inr (enc_doc fs') \<and> wf_doc fs'"
  using prepare_enc [OF assms] by (auto simp: computes_def wf_spec_def split: option.split)

theorem prepare_refines_tree_witness:
  "prepareIndexSpecForEqualityCheck plain_env (enc_doc spec_stored) = Inr (enc_doc spec_prepared)"
  using prepare_refines_tree [OF wf_specs(1) strings_specs(1) plain_env_ok] modernize_specs fits_specs
  by (simp add: prepare_specs)

text \<open>
  C18: \<open>DescribeSpecDifferences\<close> compares the prepared fields, and nothing else: an error of the
  order-agnostic comparison is returned; specifications that differ there give the JSON patch;
  otherwise the result names the options among \<open>key\<close> and \<open>partialFilterExpression\<close> whose bytes
  differ, and there is no difference when there is none.
\<close>

theorem describe_compares_prepared:
  assumes "wf_spec a" and "strings_ok a" and "wf_spec b" and "strings_ok b" and "env_ok env"
    and "\<And>fs'. modernize_tree a = Some fs' \<or> modernize_tree b = Some fs' \<Longrightarrow> fits (enc_doc fs')"
    and "prepare_tree a = Some a'" and "prepare_tree b = Some b'"
  shows "DescribeSpecDifferences env (enc_doc a) (enc_doc b) =
    go_bind (equalIgnoringOrder env (enc_doc a') (enc_doc b')) (\<lambda>same.
      if \<not> same then go_bind (json_diff env (enc_doc a') (enc_doc b')) (\<lambda>d. Inr (Some d))
      else let diffs = filter (order_differs a' b') [str ''key'', str ''partialFilterExpression''] in
        Inr (if diffs = [] then None
             else Some \<lparr>JSONPatch = None, FieldOrderDiffers = diffs, jsonPatchErr = None\<rparr>))"
proof -
  have a: "wf_doc a'" "prepareIndexSpecForEqualityCheck env (enc_doc a) = Inr (enc_doc a')"
    using prepare_enc [OF assms(1,2,5)] assms(6,7) by (auto simp: computes_def wf_spec_def)
  have b: "wf_doc b'" "prepareIndexSpecForEqualityCheck env (enc_doc b) = Inr (enc_doc b')"
    using prepare_enc [OF assms(3,4,5)] assms(6,8) by (auto simp: computes_def wf_spec_def)
  have "getOrderDifferOpts (enc_doc a') (enc_doc b')
      = Inr (filter (order_differs a' b') [str ''key'', str ''partialFilterExpression''])"
    using order_differ_loop_enc [OF a(1) b(1), of "[]"]
    by (simp add: getOrderDifferOpts_def optsWhereOrderMatters_def del: filter.simps order_differ_loop.simps)
  then show ?thesis
    by (simp add: DescribeSpecDifferences_def a b Let_def del: filter.simps cong: if_cong)
qed

theorem describe_compares_prepared_witness:
  "DescribeSpecDifferences plain_env (enc_doc spec_stored) (enc_doc spec_active) = Inr None"
proof -
  have "fits (enc_doc fs)" if "modernize_tree spec_stored = Some fs \<or> modernize_tree spec_active = Some fs" for fs
    using that modernize_specs fits_specs by auto
  from describe_compares_prepared [OF wf_specs(1) strings_specs(1) wf_specs(2) strings_specs(2) plain_env_ok
      this prepare_specs]
  show ?thesis
    by (simp add: equalIgnoringOrder_def plain_env_def order_differs_def split: option.split)
qed

text \<open>
  C32: modernising settles: the specification \<open>ModernizeSpec\<close> returns is well-formed and is
  returned unchanged, with false, by a second call; its boolean says whether a key value was
  replaced, and if none was the bytes are those given.
\<close>

theorem ModernizeSpec_settles:
  assumes "wf_spec fs" and "strings_ok fs" and "env_ok env"
    and "\<And>fs'. modernize_tree fs = Some fs' \<Longrightarrow> fits (enc_doc fs')"
    and "ModernizeSpec env (enc_doc fs) = Inr (spec, changed)"
  shows "\<exists>fs'. spec = enc_doc fs' \<and> wf_spec fs' \<and> ModernizeSpec env spec = Inr (spec, False)
    \<and> (\<not> changed \<longrightarrow> spec = enc_doc fs)"
proof -
  obtain fs' where m: "modernize_tree fs = Some fs'" and ws: "wf_spec fs'"
    and spec: "spec = enc_doc fs'" and changed: "changed = modernizes fs"
    using ModernizeSpec_enc [OF assms(1-4)] assms(5) by (auto split: option.splits)
  note again = modernize_again [OF assms(2) m]
  have "ModernizeSpec env (enc_doc fs') = Inr (enc_doc fs', False)"
    using ModernizeSpec_enc [OF ws again(1) assms(3)] ws again by (simp add: wf_spec_def wf_doc_def)
  then show ?thesis using ws spec changed again(4) by blast
qed

text \<open>A specification of version 1 with the legacy key \<open>{a: true}\<close>.\<close>

definition spec_legacy :: "(bytes \<times> bson) list" where
  "spec_legacy = [(str ''v'', int32_value 1),
     (str ''key'', Sub TypeEmbeddedDocument [(str ''a'', Scalar TypeBoolean [1])])]"

definition spec_modern :: "(bytes \<times> bson) list" where
  "spec_modern = [(str ''v'', int32_value 1), (str ''key'', Sub TypeEmbeddedDocument [(str ''a'', int32_value 1)])]"

lemma wf_legacy: "wf_spec spec_legacy" "wf_spec spec_modern" "strings_ok spec_legacy"
  by (simp_all add: spec_legacy_def spec_modern_def wf_spec_def key_fields_def tree_eval wf_int32_value
      strings_ok_def str_ok_def)

lemma modernize_legacy: "modernize_tree spec_legacy = Some spec_modern" "modernizes spec_legacy"
proof -
  have v: "version spec_legacy = Some 1"
    using version_specs(1) by (simp add: version_def spec_stored_def spec_legacy_def)
  have k: "key_fields spec_legacy = Some [(str ''a'', Scalar TypeBoolean [1])]"
    by (simp add: spec_legacy_def key_fields_def)
  have m: "shouldModernizeValue (raw_of (Scalar TypeBoolean [1])) = Inr True"
    by (simp add: shouldModernizeValue_def raw_of_def)
  then show "modernizes spec_legacy" using v k by (simp add: modernizes_def should_def)
  show "modernize_tree spec_legacy = Some spec_modern"
    using v k m by (simp add: modernize_tree_def modernize_val_def spec_legacy_def spec_modern_def set_key_def)
qed

theorem ModernizeSpec_settles_witness:
  "ModernizeSpec plain_env (enc_doc spec_legacy) = Inr (enc_doc spec_modern, True)
   \<and> ModernizeSpec plain_env (enc_doc spec_modern) = Inr (enc_doc spec_modern, False)"
proof -
  have f: "fits (enc_doc fs')" if "modernize_tree spec_legacy = Some fs'" for fs'
    using that modernize_legacy(1) wf_legacy(2) by (simp add: wf_spec_def wf_doc_def)
  have e: "ModernizeSpec plain_env (enc_doc spec_legacy) = Inr (enc_doc spec_modern, True)"
    using ModernizeSpec_enc [OF wf_legacy(1,3) plain_env_ok f] modernize_legacy by simp
  from ModernizeSpec_settles [OF wf_legacy(1,3) plain_env_ok f e] e show ?thesis by blast
qed

text \<open>
  A key value that is a string with a zero length header passes every check of the element
  reader, and \<open>ModernizeSpec\<close> panics on it instead of returning an error; the same value under
  version 2 is accepted.
\<close>

lemma ModernizeSpec_panics_on_empty_header:
  "wf_spec [(str ''v'', int32_value 1),
      (str ''key'', Sub TypeEmbeddedDocument [(str ''a'', Scalar TypeString [0, 0, 0, 0])])]
   \<and> ModernizeSpec env (enc_doc [(str ''v'', int32_value 1),
      (str ''key'', Sub TypeEmbeddedDocument [(str ''a'', Scalar TypeString [0, 0, 0, 0])])])
     = Inl (Panic (Panicked ''InsufficientBytesError''))"
proof -
  let ?k = "[(str ''a'', Scalar TypeString [0, 0, 0, 0])]"
  let ?fs = "[(str ''v'', int32_value 1), (str ''key'', Sub TypeEmbeddedDocument ?k)]"
  have ws: "wf_spec ?fs"
    by (simp add: wf_spec_def key_fields_def tree_eval wf_int32_value ReadLength_def Read32_def)
  then have wf: "wf_doc ?fs" by (simp add: wf_spec_def)
  have sub: "wf_doc ?k" using wf_doc_sub [OF wf] by auto
  have f: "wf_field (str ''a'', Scalar TypeString [0, 0, 0, 0])" "fits (enc_elem (str ''a'', Scalar TypeString [0, 0, 0, 0]))"
    using wf_doc_field [OF sub] by auto
  have "version ?fs = Some 1"
    using version_specs(1) by (simp add: version_def spec_stored_def)
  then have "shouldModernizeSpec (enc_doc ?fs) = Inr True"
    using shouldModernizeSpec_enc [OF wf] by simp
  moreover have "lookupRaw (enc_doc ?fs) ''key'' = Inr (enc_doc ?k)"
    using lookupRaw_key [OF wf] by (simp add: key_fields_def)
  moreover have "getModernizedKeySpec (enc_doc ?k) = Inl (Panic (Panicked ''InsufficientBytesError''))"
    by (simp add: getModernizedKeySpec_def RawElements_enc [OF sub] range_over_def KeyBytes_enc [OF f(1)]
        ValueErr_enc [OF f] shouldModernizeValue_def readstring_def ReadLength_def Read32_def)
  ultimately show ?thesis using ws by (simp add: ModernizeSpec_def)
qed


text \<open>
  A double that fits no int32 (here \<open>{a: 1e10}\<close>) is refused by \<open>safecast\<close> before the comparison
  that lets a fraction be, so two equal specifications with such a key give an error.
\<close>

lemma large_key_value_refused:
  assumes "env_ok env"
  shows "\<exists>e. DescribeSpecDifferences env
    (enc_doc [(str ''v'', int32_value 2),
      (str ''key'', Sub TypeEmbeddedDocument [(str ''a'', Scalar TypeDouble [0, 0, 0, 0x20, 0x5F, 0xA0, 2, 0x42])])]) spec
    = Inl (Err e)"
proof -
  let ?v = "Scalar TypeDouble [0, 0, 0, 0x20, 0x5F, 0xA0, 2, 0x42]"
  let ?fs = "[(str ''v'', int32_value 2), (str ''key'', Sub TypeEmbeddedDocument [(str ''a'', ?v)])]"
  have ws: "wf_spec ?fs" "strings_ok ?fs"
    by (simp_all add: wf_spec_def key_fields_def tree_eval wf_int32_value strings_ok_def str_ok_def)
  have "version ?fs = Some 2" using version_specs(2) by (simp add: version_def spec_active_def)
  then have m: "modernize_tree ?fs = Some ?fs" by (simp add: modernize_tree_def)
  have "f64_of_bits (of_nat (le_nat [0, 0, 0, 0x20, 0x5F, 0xA0, 2, 0x42])) = Fin 5242880000000000 (- 19)"
    by (simp add: f64_of_bits_def Let_def)
  then have "norm_key ?v = None"
    by (simp add: norm_key_def Read64_def Convert_f64_Fin trunc_to_int_def fits_i32_def)
  then have "prepare_tree ?fs = None"
    by (simp add: prepare_tree_def m normalize_tree_def norm_keys_def key_fields_def)
  then have "\<exists>e. prepareIndexSpecForEqualityCheck env (enc_doc ?fs) = Inl (Err e)"
    using prepare_enc [OF ws assms] ws m by (auto simp: computes_def wf_spec_def wf_doc_def)
  then show ?thesis by (auto simp: DescribeSpecDifferences_def)
qed

end
