(* ===== verification/Index_Diff.thy ===== *)
theory Index_Diff
  imports Index_Spec Go_Fmt
begin

text \<open>
  How a difference between two index specifications is printed: \<open>SpecDiff.String\<close>
  (\<open>mongotools/index/compare.go\<close>) and \<open>fixJSONPatchFieldOrder\<close> (\<open>mongotools/index/jsondiff.go\<close>).
  A JSON object is the list of its members. The text of JSON is left to \<open>encoding/json\<close>, whose
  two directions are parameters: \<open>scan\<close> is what a \<open>json.Decoder\<close> reads from a buffer (the objects,
  and \<open>None\<close> at the end of the input or a syntax error), \<open>render\<close> is the text of an object.
\<close>

section \<open>Objects and the Go struct\<close>

datatype 'j json = JNull | JString bytes | JOther 'j    \<comment> \<open>numbers, booleans, arrays and objects\<close>

type_synonym 'j members = "(bytes \<times> 'j json) list"

record 'j patchOrder =
  Op :: bytes
  From :: "bytes option"
  Path :: bytes
  Value :: "'j json option"

definition toZero :: "'j patchOrder \<Rightarrow> 'j patchOrder" where
  "toZero v = \<lparr>Op = [], From = None, Path = [], Value = None\<rparr>"

text \<open>
  \<open>decoder.Decode(&patchOrderStruct)\<close> of an object: it writes the fields named in their tags,
  JSON null leaves a string alone and sets a pointer to nil. Names are compared exactly: the
  patches come from \<open>jsondiff\<close>, which writes the tags' own lower-case names, so the case folding of
  \<open>encoding/json\<close> does not come into play.
\<close>

fun decode_member :: "bytes \<times> 'j json \<Rightarrow> 'j patchOrder \<Rightarrow> 'j patchOrder res" where
  "decode_member (name, val) v =
     (if name = str ''op'' then
        (case val of JString s \<Rightarrow> Inr (v\<lparr>Op := s\<rparr>) | JNull \<Rightarrow> Inr v | _ \<Rightarrow> Inl (Err (Errorf ''json: cannot unmarshal'')))
      else if name = str ''from'' then
        (case val of JString s \<Rightarrow> Inr (v\<lparr>From := Some s\<rparr>) | JNull \<Rightarrow> Inr (v\<lparr>From := None\<rparr>)
         | _ \<Rightarrow> Inl (Err (Errorf ''json: cannot unmarshal'')))
      else if name = str ''path'' then
        (case val of JString s \<Rightarrow> Inr (v\<lparr>Path := s\<rparr>) | JNull \<Rightarrow> Inr v | _ \<Rightarrow> Inl (Err (Errorf ''json: cannot unmarshal'')))
      else if name = str ''value'' then
        Inr (v\<lparr>Value := (if val = JNull then None else Some val)\<rparr>)
      else Inr v)"

fun Decode :: "'j members \<Rightarrow> 'j patchOrder \<Rightarrow> 'j patchOrder res" where
  "Decode [] v = Inr v"
| "Decode (m # ms) v = go_bind (decode_member m v) (Decode ms)"

text \<open>\<open>json.Marshal(patchOrderStruct)\<close>: the fields in their order, the omitempty ones if not nil.\<close>

definition marshal_members :: "'j patchOrder \<Rightarrow> 'j members" where
  "marshal_members v =
     [(str ''op'', JString (Op v))]
     @ (case From v of None \<Rightarrow> [] | Some s \<Rightarrow> [(str ''from'', JString s)])
     @ [(str ''path'', JString (Path v))]
     @ (case Value v of None \<Rightarrow> [] | Some x \<Rightarrow> [(str ''value'', x)])"

section \<open>jsondiff.go\<close>

fun fix_loop :: "('j members \<Rightarrow> bytes res) \<Rightarrow> 'j members list \<Rightarrow> bson_error option \<Rightarrow> 'j patchOrder \<Rightarrow> bytes
    \<Rightarrow> bytes res" where
  "fix_loop render [] ending v out =
     (case ending of None \<Rightarrow> Inr out | Some e \<Rightarrow> Inl (Err (Wrapped ''unmarshaling JSON patch operation'' e)))"
| "fix_loop render (op # ops) ending v out =
     (let v = toZero v in
      go_bind (wrap_err (Wrapped ''unmarshaling JSON patch operation'') (Decode op v)) (\<lambda>v.
      let out = (if 0 < length out then out @ [10] else out) in
      go_bind (wrap_err (Wrapped ''marshaling operation'') (render (marshal_members v))) (\<lambda>cur.
      fix_loop render ops ending v (out @ cur))))"

definition fixJSONPatchFieldOrder ::
  "(bytes \<Rightarrow> 'j members list \<times> bson_error option) \<Rightarrow> ('j members \<Rightarrow> bytes res) \<Rightarrow> bytes \<Rightarrow> bytes res" where
  "fixJSONPatchFieldOrder scan render s =
     (let (ops, ending) = scan s; patchOrderStruct = \<lparr>Op = [], From = None, Path = [], Value = None\<rparr>
      in fix_loop render ops ending patchOrderStruct [])"

section \<open>compare.go\<close>

definition SpecDiff_String ::
  "(nat \<Rightarrow> bool) \<Rightarrow> ('p \<Rightarrow> bytes) \<Rightarrow> (bson_error \<Rightarrow> bytes) \<Rightarrow> (bytes \<Rightarrow> 'j members list \<times> bson_error option)
   \<Rightarrow> ('j members \<Rightarrow> bytes res) \<Rightarrow> 'p SpecDiff \<Rightarrow> bytes res" where
  "SpecDiff_String table patch_string err_string scan render sd =
     (case jsonPatchErr sd of
        Some e \<Rightarrow> Inr (str ''specs differ; failed to create ext JSON patch ('' @ err_string e @ str '')'')
      | None \<Rightarrow> (case JSONPatch sd of
          Some patch \<Rightarrow> (case fixJSONPatchFieldOrder scan render (patch_string patch) of
              Inr patchStr \<Rightarrow> Inr patchStr
            | Inl (Err e) \<Rightarrow> Inr (patch_string patch @ str '' (failed to normalize order: '' @ err_string e @ str '')'')
            | Inl x \<Rightarrow> Inl x)
        | None \<Rightarrow> Inr (str ''field order differs: '' @ SharpQ_slice table (FieldOrderDiffers sd))))"

section \<open>Facts\<close>

text \<open>
  A JSON Patch operation (RFC 6902): members \<open>op\<close> and \<open>path\<close>, perhaps \<open>from\<close>, perhaps a \<open>value\<close>,
  each once, in any order.
\<close>

definition patch_operation :: "'j members \<Rightarrow> bool" where
  "patch_operation m \<longleftrightarrow> distinct (map fst m)
     \<and> set (map fst m) \<subseteq> {str ''op'', str ''from'', str ''path'', str ''value''}
     \<and> (\<exists>s. map_of m (str ''op'') = Some (JString s)) \<and> (\<exists>s. map_of m (str ''path'') = Some (JString s))
     \<and> (\<forall>x. map_of m (str ''from'') = Some x \<longrightarrow> (\<exists>s. x = JString s))"

definition reordered :: "'j members \<Rightarrow> 'j members" where
  "reordered m = concat (map (\<lambda>n. case map_of m n of Some x \<Rightarrow> if x = JNull then [] else [(n, x)] | None \<Rightarrow> [])
     [str ''op'', str ''from'', str ''path'', str ''value''])"

lemma names:
  "str ''op'' \<noteq> str ''from''" "str ''op'' \<noteq> str ''path''" "str ''op'' \<noteq> str ''value''"
  "str ''from'' \<noteq> str ''path''" "str ''from'' \<noteq> str ''value''" "str ''path'' \<noteq> str ''value''"
  by (simp_all add: str_def of_char_def)

lemmas member_names [simp] = names names [symmetric]

text \<open>What decoding the members writes, field by field.\<close>

definition decoded :: "'j members \<Rightarrow> 'j patchOrder \<Rightarrow> 'j patchOrder" where
  "decoded m v = \<lparr>
      Op = (case map_of m (str ''op'') of Some (JString s) \<Rightarrow> s | _ \<Rightarrow> Op v),
      From = (case map_of m (str ''from'') of Some (JString s) \<Rightarrow> Some s | _ \<Rightarrow> From v),
      Path = (case map_of m (str ''path'') of Some (JString s) \<Rightarrow> s | _ \<Rightarrow> Path v),
      Value = (case map_of m (str ''value'') of Some x \<Rightarrow> (if x = JNull then None else Some x) | None \<Rightarrow> Value v)\<rparr>"

lemma Decode_fields:
  assumes "distinct (map fst m)"
    and "\<And>n x. (n, x) \<in> set m \<Longrightarrow> n \<in> {str ''op'', str ''from'', str ''path''} \<Longrightarrow> \<exists>s. x = JString s"
  shows "Decode m v = Inr (decoded m v)"
  using assms
proof (induction m arbitrary: v)
  case Nil
  then show ?case by (simp add: decoded_def)
next
  case (Cons e m)
  obtain n x where e: "e = (n, x)" by (cases e)
  have m: "distinct (map fst m)" "map_of m n = None" using Cons.prems(1) e by (auto simp: map_of_eq_None_iff)
  have IH: "Decode m v = Inr (decoded m v)" for v
  proof (rule Cons.IH [OF m(1)])
    show "\<exists>s. y = JString s" if "(k, y) \<in> set m" "k \<in> {str ''op'', str ''from'', str ''path''}" for k y
      using Cons.prems(2) [of k y] that by simp
  qed
  have x: "\<exists>s. x = JString s" if "n \<in> {str ''op'', str ''from'', str ''path''}"
    using Cons.prems(2) [of n x] that e by simp
  have member: "\<exists>v'. decode_member (n, x) v = Inr v' \<and> decoded m v' = decoded ((n, x) # m) v"
  proof (cases "n \<in> {str ''op'', str ''from'', str ''path''}")
    case True
    then obtain s where "x = JString s" using x by blast
    then show ?thesis using True m(2) by (auto simp: decoded_def cong: option.case_cong json.case_cong)
  next
    case False
    then show ?thesis using m(2) by (auto simp: decoded_def cong: option.case_cong json.case_cong)
  qed
  then show ?case using IH by (auto simp: e)
qed

text \<open>One operation: what is decoded into the zeroed struct and marshaled again.\<close>

lemma operation_reordered:
  assumes "patch_operation m"
  shows "\<exists>v'. Decode m (toZero v) = Inr v' \<and> marshal_members v' = reordered m"
proof -
  obtain a b where ab: "map_of m (str ''op'') = Some (JString a)" "map_of m (str ''path'') = Some (JString b)"
    using assms by (auto simp: patch_operation_def)
  have d: "distinct (map fst m)" using assms by (simp add: patch_operation_def)
  have fr: "\<exists>s. x = JString s" if "map_of m (str ''from'') = Some x" for x
    using assms that by (auto simp: patch_operation_def)
  have strings: "\<exists>s. x = JString s" if "(n, x) \<in> set m" "n \<in> {str ''op'', str ''from'', str ''path''}" for n x
    using map_of_is_SomeI [OF d that(1)] that(2) ab fr by auto
  have "marshal_members (decoded m (toZero v)) = reordered m"
    using ab fr by (auto simp: decoded_def marshal_members_def reordered_def toZero_def split: option.split json.split)
  moreover have "Decode m (toZero v) = Inr (decoded m (toZero v))" by (rule Decode_fields [OF d]) (rule strings)
  ultimately show ?thesis by blast
qed

section \<open>Properties\<close>

text \<open>
  C38: \<open>fixJSONPatchFieldOrder\<close> prints a JSON patch with one operation on each line and the members
  of each in the order \<open>op\<close>, \<open>from\<close>, \<open>path\<close>, \<open>value\<close>; no member leaks from one operation into the
  next. (A member that is JSON null is lost, see below.)
\<close>

theorem fixJSONPatch_reorders:
  assumes "scan s = (ops, None)" and "list_all patch_operation ops"
    and "\<And>m. render m = Inr (text m)" and "\<And>m. text m \<noteq> []"
  shows "fixJSONPatchFieldOrder scan render s
    = Inr (concat (map (\<lambda>(i, m). (if 0 < i then [10] else []) @ text (reordered m)) (enumerate 0 ops)))"
proof -
  have render: "render = (\<lambda>m. Inr (text m))" using assms(3) by blast
  have loop: "fix_loop render ops None v out = Inr (out @ concat (map (\<lambda>(i, m). (if 0 < i then [10] else []) @ text (reordered m))
      (enumerate k ops)))" if "out = [] \<longleftrightarrow> k = 0" "list_all patch_operation ops" for v out k
    using that
  proof (induction ops arbitrary: v out k)
    case Nil
    then show ?case by simp
  next
    case (Cons m ops)
    obtain v' where v': "Decode m (toZero v) = Inr v'" "marshal_members v' = reordered m"
      using operation_reordered Cons.prems(2) by (metis list.pred_inject(2))
    let ?out = "(if 0 < length out then out @ [10] else out) @ text (reordered m)"
    have "fix_loop render ops None v' ?out
        = Inr (?out @ concat (map (\<lambda>(i, m). (if 0 < i then [10] else []) @ text (reordered m)) (enumerate (Suc k) ops)))"
      by (rule Cons.IH) (use Cons.prems assms(4) in simp_all)
    then show ?case using v' Cons.prems(1) by (cases "k = 0") (simp_all add: Let_def render)
  qed
  show ?thesis
    unfolding fixJSONPatchFieldOrder_def assms(1) using loop [of "[]" 0] assms(2) by (simp add: Let_def)
qed

definition example_patch :: "bool members list" where
  "example_patch =
     [[(str ''value'', JOther True), (str ''op'', JString (str ''add'')), (str ''path'', JString (str ''/sparse''))],
      [(str ''op'', JString (str ''remove'')), (str ''path'', JString (str ''/v''))]]"

theorem fixJSONPatch_reorders_witness:
  "fixJSONPatchFieldOrder (\<lambda>s. (example_patch, None)) (\<lambda>m. Inr (str ''-'' @ concat (map fst m))) (str ''...'')
    = Inr (str ''-oppathvalue'' @ [10] @ str ''-oppath'')"
proof -
  have "list_all patch_operation example_patch" by (simp add: example_patch_def patch_operation_def)
  moreover have "str ''-'' @ x \<noteq> []" for x by (simp add: str_def)
  ultimately have "fixJSONPatchFieldOrder (\<lambda>s. (example_patch, None)) (\<lambda>m. Inr (str ''-'' @ concat (map fst m))) (str ''...'')
    = Inr (concat (map (\<lambda>(i, m). (if 0 < i then [10] else []) @ str ''-'' @ concat (map fst (reordered m))) (enumerate 0 example_patch)))"
    by (intro fixJSONPatch_reorders) auto
  then show ?thesis by (simp add: example_patch_def reordered_def) (simp add: str_def)
qed

text \<open>
  A member whose value is JSON null disappears: the decoder sets a pointer to nil for it, which
  \<open>omitempty\<close> drops. A patch that sets an option to null prints as one without a value.
\<close>

lemma fixJSONPatch_drops_null:
  assumes "scan s = ([[(str ''value'', JNull), (str ''op'', JString (str ''add'')), (str ''path'', JString p)]], None)"
    and "render [(str ''op'', JString (str ''add'')), (str ''path'', JString p)] = Inr t"
  shows "fixJSONPatchFieldOrder scan render s = Inr t"
  using assms by (simp add: fixJSONPatchFieldOrder_def Let_def toZero_def marshal_members_def)

end
