(* ===== verification/Atomic_Max.thy ===== *)
theory Atomic_Max
  imports Go_Sort
begin

text \<open>
  \<open>synctools/max.go\<close>: a maximum that goroutines update concurrently with a compare-and-swap
  loop. Memory is a growing list of cells, so that a new allocation never has the address of an
  older one (the loop holds the old pointer, which keeps its cell alive); a pointer is an index
  into it, \<open>None\<close> is nil. The atomic accesses of \<open>Update\<close> are its two steps, and a schedule says
  which goroutine takes the next one.
\<close>

section \<open>The code\<close>

record 'a AtomicMax =
  am_cells :: "'a list"
  am_ptr :: "nat option"
  am_comparer :: "'a \<Rightarrow> 'a \<Rightarrow> int"

definition NewAtomicMax :: "'a \<Rightarrow> ('a \<Rightarrow> 'a \<Rightarrow> int) option \<Rightarrow> (unit, 'a AtomicMax) go" where
  "NewAtomicMax initial comparer = (case comparer of
     None \<Rightarrow> Inl (Panic (Panicked ''synctools: nil comparer passed to NewAtomicMax''))
   | Some c \<Rightarrow> Inr \<lparr>am_cells = [initial], am_ptr = Some 0, am_comparer = c\<rparr>)"

definition AtomicMax_Get :: "'a \<Rightarrow> 'a AtomicMax \<Rightarrow> 'a" where
  "AtomicMax_Get zero a = (case am_ptr a of None \<Rightarrow> zero | Some p \<Rightarrow> am_cells a ! p)"

text \<open>Where a goroutine is in \<open>Update\<close>: before the load, with the loaded pointer, or returned.\<close>

datatype 'a update_pc = Loading | Loaded "nat option" | Returned 'a

text \<open>The comparison with the loaded cell (which never changes) and the compare-and-swap.\<close>

definition update_cas :: "'a \<Rightarrow> 'a \<Rightarrow> nat option \<Rightarrow> 'a AtomicMax \<Rightarrow> 'a AtomicMax \<times> 'a update_pc" where
  "update_cas zero val currPtr a =
     (if (case currPtr of None \<Rightarrow> False | Some p \<Rightarrow> 0 \<le> am_comparer a (am_cells a ! p) val)
      then (a, Returned (am_cells a ! the currPtr))
      else let a' = a\<lparr>am_cells := am_cells a @ [val]\<rparr> in
        if am_ptr a = currPtr
        then (a'\<lparr>am_ptr := Some (length (am_cells a))\<rparr>,
              Returned (case currPtr of None \<Rightarrow> zero | Some p \<Rightarrow> am_cells a ! p))
        else (a', Loading))"

definition AtomicMax_Update ::
  "'a \<Rightarrow> 'a \<Rightarrow> 'a AtomicMax \<times> 'a update_pc \<Rightarrow> 'a AtomicMax \<times> 'a update_pc" where
  "AtomicMax_Update zero val s = (case s of
     (a, Loading) \<Rightarrow> (a, Loaded (am_ptr a))
   | (a, Loaded currPtr) \<Rightarrow> update_cas zero val currPtr a
   | (a, Returned r) \<Rightarrow> (a, Returned r))"

text \<open>Goroutines that each call \<open>Update\<close> with a value of their own, interleaved by a schedule.\<close>

type_synonym 'a updates = "'a AtomicMax \<times> ('a \<times> 'a update_pc) list"

definition update_step :: "'a \<Rightarrow> nat \<Rightarrow> 'a updates \<Rightarrow> 'a updates" where
  "update_step zero t s =
     (if length (snd s) \<le> t then s
      else let (val, pc) = snd s ! t; (a, pc') = AtomicMax_Update zero val (fst s, pc)
        in (a, (snd s)[t := (val, pc')]))"

definition run_updates :: "'a \<Rightarrow> nat list \<Rightarrow> 'a updates \<Rightarrow> 'a updates" where
  "run_updates zero sched s = fold (update_step zero) sched s"

definition start_updates :: "'a list \<Rightarrow> ('a \<times> 'a update_pc) list" where
  "start_updates vs = map (\<lambda>v. (v, Loading)) vs"

fun returned :: "'a \<times> 'a update_pc \<Rightarrow> bool" where
  "returned (v, Returned r) = True"
| "returned _ = False"

section \<open>The atomic cell the loop implements\<close>

text \<open>
  The abstract operation replaces the maximum in one step and returns the previous one.
  \<open>max_after vs order m\<close> is the maximum after the updates of the goroutines in \<open>order\<close>;
  \<open>before t order\<close> are those that come before \<open>t\<close>.
\<close>

definition max_after :: "('a \<Rightarrow> 'a \<Rightarrow> int) \<Rightarrow> 'a list \<Rightarrow> nat list \<Rightarrow> 'a \<Rightarrow> 'a" where
  "max_after cmp vs order m = fold (\<lambda>t m. keep_max cmp m (vs ! t)) order m"

definition before :: "nat \<Rightarrow> nat list \<Rightarrow> nat list" where
  "before t order = takeWhile (\<lambda>u. u \<noteq> t) order"

lemma max_after_simps [simp]:
  "max_after cmp vs [] m = m"
  "max_after cmp vs (order @ [t]) m = keep_max cmp (max_after cmp vs order m) (vs ! t)"
  by (simp_all add: max_after_def)

lemma before_append: "t \<in> set order \<Longrightarrow> before t (order @ xs) = before t order"
  by (auto simp: before_def takeWhile_append)

lemma before_new: "t \<notin> set order \<Longrightarrow> before t (order @ [t]) = order"
  by (auto simp: before_def takeWhile_append)

text \<open>
  What holds after every step: the goroutines in \<open>order\<close> have taken effect. One whose loaded
  value is not below its own took effect when it loaded, the others when their swap succeeds.
\<close>

definition effect :: "('a \<Rightarrow> 'a \<Rightarrow> int) \<Rightarrow> 'a list \<Rightarrow> 'a \<Rightarrow> nat list \<Rightarrow> nat \<Rightarrow> 'a \<Rightarrow> bool" where
  "effect cmp vs m order t r \<longleftrightarrow> t \<in> set order \<and> max_after cmp vs (before t order) m = r"

fun pc_inv :: "('a \<Rightarrow> 'a \<Rightarrow> int) \<Rightarrow> 'a list \<Rightarrow> 'a \<Rightarrow> nat list \<Rightarrow> 'a list \<Rightarrow> nat \<Rightarrow> 'a update_pc \<Rightarrow> bool" where
  "pc_inv cmp vs m order cs t Loading \<longleftrightarrow> t \<notin> set order"
| "pc_inv cmp vs m order cs t (Loaded c) \<longleftrightarrow> (\<exists>p. c = Some p \<and> p < length cs \<and>
     (if 0 \<le> cmp (cs ! p) (vs ! t) then effect cmp vs m order t (cs ! p) else t \<notin> set order))"
| "pc_inv cmp vs m order cs t (Returned r) \<longleftrightarrow> effect cmp vs m order t r"

definition max_inv :: "('a \<Rightarrow> 'a \<Rightarrow> int) \<Rightarrow> 'a list \<Rightarrow> 'a \<Rightarrow> nat list \<Rightarrow> 'a updates \<Rightarrow> bool" where
  "max_inv cmp vs m order s \<longleftrightarrow>
     am_comparer (fst s) = cmp \<and> map fst (snd s) = vs \<and> distinct order \<and> set order \<subseteq> {..<length vs}
     \<and> (\<exists>p. am_ptr (fst s) = Some p \<and> p < length (am_cells (fst s))
          \<and> am_cells (fst s) ! p = max_after cmp vs order m)
     \<and> (\<forall>t < length vs. pc_inv cmp vs m order (am_cells (fst s)) t (snd (snd s ! t)))"

lemma pc_inv_cells: "pc_inv cmp vs m order cs t pc \<Longrightarrow> pc_inv cmp vs m order (cs @ xs) t pc"
proof (cases pc)
  case (Loaded c)
  assume "pc_inv cmp vs m order cs t pc"
  then obtain p where "c = Some p" "p < length cs" and
    "if 0 \<le> cmp (cs ! p) (vs ! t) then effect cmp vs m order t (cs ! p) else t \<notin> set order"
    using Loaded by auto
  moreover from this have "(cs @ xs) ! p = cs ! p" by (simp add: nth_append)
  ultimately show ?thesis using Loaded by simp
qed simp_all

lemma effect_append: "effect cmp vs m order t r \<Longrightarrow> effect cmp vs m (order @ xs) t r"
  by (auto simp: effect_def before_append)

lemma pc_inv_order:
  "pc_inv cmp vs m order cs u pc \<Longrightarrow> u \<noteq> t \<Longrightarrow> pc_inv cmp vs m (order @ [t]) cs u pc"
  by (cases pc) (auto simp: effect_append split: if_splits)

lemma pc_inv_both:
  "pc_inv cmp vs m order cs u pc \<Longrightarrow> u \<noteq> t \<Longrightarrow> pc_inv cmp vs m (order @ [t]) (cs @ xs) u pc"
  by (intro pc_inv_cells pc_inv_order)

lemma effect_new: "t \<notin> set order \<Longrightarrow> effect cmp vs m (order @ [t]) t (max_after cmp vs order m)"
  by (simp add: effect_def before_new)


lemma max_inv_start:
  assumes "NewAtomicMax m (Some cmp) = Inr a"
  shows "max_inv cmp vs m [] (a, start_updates vs)"
  using assms by (auto simp: NewAtomicMax_def max_inv_def start_updates_def comp_def)

text \<open>A step of goroutine \<open>t\<close> to \<open>a'\<close> and \<open>pc'\<close>, with the order it leads to.\<close>

lemma max_inv_update:
  assumes "max_inv cmp vs m order (a, ths)" and "t < length vs"
    and "am_comparer a' = cmp" and "distinct order'" and "set order' \<subseteq> insert t (set order)"
    and "am_ptr a' = Some p" and "p < length (am_cells a')" and "am_cells a' ! p = max_after cmp vs order' m"
    and "\<And>u pc. u \<noteq> t \<Longrightarrow> pc_inv cmp vs m order (am_cells a) u pc \<Longrightarrow> pc_inv cmp vs m order' (am_cells a') u pc"
    and "pc_inv cmp vs m order' (am_cells a') t pc'"
  shows "max_inv cmp vs m order' (a', ths[t := (vs ! t, pc')])"
proof -
  have vs: "map fst ths = vs" and ord: "set order \<subseteq> {..<length vs}"
    and pcs: "\<forall>u < length vs. pc_inv cmp vs m order (am_cells a) u (snd (ths ! u))"
    using assms(1) by (simp_all add: max_inv_def)
  have "length ths = length vs" using vs by auto
  then have "\<forall>u < length vs. pc_inv cmp vs m order' (am_cells a') u (snd (ths[t := (vs ! t, pc')] ! u))"
  proof (intro allI impI)
    fix u assume "u < length vs"
    then show "pc_inv cmp vs m order' (am_cells a') u (snd (ths[t := (vs ! t, pc')] ! u))"
      using pcs assms(9) [of u] assms(10) \<open>length ths = length vs\<close> by (cases "u = t") simp_all
  qed
  moreover have "map fst (ths[t := (vs ! t, pc')]) = vs"
    using vs assms(2) by (simp add: map_update list_update_same_conv)
  moreover have "set order' \<subseteq> {..<length vs}" using assms(2,5) ord by auto
  ultimately show ?thesis using assms(3,4,6,7,8) by (simp add: max_inv_def)
qed

lemma update_step_eq:
  assumes "t < length ths" and "ths ! t = (v, pc)" and "AtomicMax_Update zero v (a, pc) = (a', pc')"
  shows "update_step zero t (a, ths) = (a', ths[t := (v, pc')])"
  using assms by (simp add: update_step_def)

text \<open>
  The goroutines in the order in which they take effect: when the load finds a value that is
  not below their own, or when the swap succeeds.
\<close>

fun commits :: "'a \<Rightarrow> 'a AtomicMax \<Rightarrow> 'a update_pc \<Rightarrow> bool" where
  "commits val a Loading \<longleftrightarrow> (case am_ptr a of None \<Rightarrow> False | Some p \<Rightarrow> 0 \<le> am_comparer a (am_cells a ! p) val)"
| "commits val a (Loaded c) \<longleftrightarrow>
     am_ptr a = c \<and> \<not> (case c of None \<Rightarrow> False | Some p \<Rightarrow> 0 \<le> am_comparer a (am_cells a ! p) val)"
| "commits val a (Returned r) \<longleftrightarrow> False"

definition committed :: "nat \<Rightarrow> 'a updates \<Rightarrow> nat list" where
  "committed t s =
     (if t < length (snd s) \<and> commits (fst (snd s ! t)) (fst s) (snd (snd s ! t)) then [t] else [])"

fun update_order :: "'a \<Rightarrow> nat list \<Rightarrow> 'a updates \<Rightarrow> nat list" where
  "update_order zero [] s = []"
| "update_order zero (t # sched) s = committed t s @ update_order zero sched (update_step zero t s)"

lemma update_order_append:
  "update_order zero (xs @ ys) s = update_order zero xs s @ update_order zero ys (run_updates zero xs s)"
  by (induction xs arbitrary: s) (simp_all add: run_updates_def)

text \<open>One step of any goroutine.\<close>

lemma max_inv_step:
  assumes inv: "max_inv cmp vs m order s"
  shows "max_inv cmp vs m (order @ committed t s) (update_step zero t s)"
proof (cases "t < length vs")
  case False
  then have "update_step zero t s = s" "committed t s = []"
    using inv by (auto simp: update_step_def max_inv_def committed_def)
  then show ?thesis using inv by auto
next
  case t: True
  obtain a ths where s: "s = (a, ths)" by (cases s)
  define pc where "pc = snd (ths ! t)"
  from inv obtain p where cmp: "am_comparer a = cmp" and vs: "map fst ths = vs" and ord: "distinct order"
    and p: "am_ptr a = Some p" "p < length (am_cells a)" "am_cells a ! p = max_after cmp vs order m"
    and mine: "pc_inv cmp vs m order (am_cells a) t pc"
    using t by (auto simp: max_inv_def s pc_def)
  have len: "t < length ths" using vs t by auto
  have th: "ths ! t = (vs ! t, pc)" using vs len by (auto simp: pc_def intro!: prod_eqI)
  note upd = max_inv_update [OF inv [unfolded s] t, rotated -1]
  have *: ?thesis if "AtomicMax_Update zero (vs ! t) (a, pc) = (a', pc')"
    and "max_inv cmp vs m (order @ xs) (a', ths[t := (vs ! t, pc')])"
    and "xs = (if commits (vs ! t) a pc then [t] else [])" for a' pc' xs
    using update_step_eq [OF len th that(1)] that(2,3) s len th by (simp add: committed_def)
  show ?thesis
  proof (cases pc)
    case Loading
    have new: "t \<notin> set order" using mine Loading by simp
    have step: "AtomicMax_Update zero (vs ! t) (a, pc) = (a, Loaded (Some p))"
      using Loading p by (simp add: AtomicMax_Update_def)
    show ?thesis
    proof (cases "0 \<le> cmp (am_cells a ! p) (vs ! t)")
      case True
      have "max_inv cmp vs m (order @ [t]) (a, ths[t := (vs ! t, Loaded (Some p))])"
        by (rule upd) (use cmp ord new p True pc_inv_order effect_new [OF new, of cmp vs m] in \<open>auto simp: keep_max_def\<close>)
      then show ?thesis using * [OF step] Loading p True cmp by simp
    next
      case False
      have "max_inv cmp vs m order (a, ths[t := (vs ! t, Loaded (Some p))])"
        by (rule upd) (use cmp ord new p False in auto)
      then show ?thesis using * [OF step, of "[]"] Loading p False cmp by simp
    qed
  next
    case (Loaded c)
    then obtain q where c: "c = Some q" "q < length (am_cells a)"
      and q: "if 0 \<le> cmp (am_cells a ! q) (vs ! t) then effect cmp vs m order t (am_cells a ! q) else t \<notin> set order"
      using mine by auto
    have step: "AtomicMax_Update zero (vs ! t) (a, pc) = update_cas zero (vs ! t) c a"
      using Loaded by (simp add: AtomicMax_Update_def)
    consider (keep) "0 \<le> cmp (am_cells a ! q) (vs ! t)"
      | (swap) "cmp (am_cells a ! q) (vs ! t) < 0" "p = q" | (fail) "cmp (am_cells a ! q) (vs ! t) < 0" "p \<noteq> q"
      by force
    then show ?thesis
    proof cases
      case keep
      have "max_inv cmp vs m order (a, ths[t := (vs ! t, Returned (am_cells a ! q))])"
        by (rule upd) (use cmp ord p q keep in auto)
      moreover have "update_cas zero (vs ! t) c a = (a, Returned (am_cells a ! q))"
        using keep c cmp by (simp add: update_cas_def)
      ultimately show ?thesis using * [of _ _ "[]"] step Loaded keep c cmp by simp
    next
      case swap
      let ?a' = "a\<lparr>am_cells := am_cells a @ [vs ! t], am_ptr := Some (length (am_cells a))\<rparr>"
      have new: "t \<notin> set order" using q swap by simp
      have "effect cmp vs m (order @ [t]) t (am_cells a ! q)"
        using effect_new [OF new, of cmp vs m] p swap by simp
      moreover have "keep_max cmp (am_cells a ! q) (vs ! t) = vs ! t" using swap by (simp add: keep_max_def)
      ultimately have "max_inv cmp vs m (order @ [t]) (?a', ths[t := (vs ! t, Returned (am_cells a ! q))])"
        by (intro upd) (use cmp ord new p swap pc_inv_both in auto)
      moreover have "update_cas zero (vs ! t) c a = (?a', Returned (am_cells a ! q))"
        using swap c cmp p by (simp add: update_cas_def)
      ultimately show ?thesis using * [of _ _ "[t]"] step Loaded swap c cmp p by simp
    next
      case fail
      let ?a' = "a\<lparr>am_cells := am_cells a @ [vs ! t]\<rparr>"
      have "max_inv cmp vs m order (?a', ths[t := (vs ! t, Loading)])"
        by (rule upd) (use cmp ord p fail q pc_inv_cells in \<open>auto simp: nth_append\<close>)
      moreover have "update_cas zero (vs ! t) c a = (?a', Loading)"
        using fail c cmp p by (simp add: update_cas_def)
      ultimately show ?thesis using * [of _ _ "[]"] step Loaded fail c cmp p by simp
    qed
  next
    case (Returned r)
    then have "AtomicMax_Update zero (vs ! t) (a, pc) = (a, pc)" by (simp add: AtomicMax_Update_def)
    moreover have "ths[t := (vs ! t, pc)] = ths" using th by (metis list_update_id)
    ultimately show ?thesis using * [of a pc "[]"] inv s Returned by simp
  qed
qed

lemma max_inv_run:
  "max_inv cmp vs m order s \<Longrightarrow> max_inv cmp vs m (order @ update_order zero sched s) (run_updates zero sched s)"
proof (induction sched arbitrary: order s)
  case Nil
  then show ?case by (simp add: run_updates_def)
next
  case (Cons t sched)
  from Cons.IH [OF max_inv_step [OF Cons.prems, of t zero]] show ?case by (simp add: run_updates_def)
qed

lemma max_inv_reached:
  assumes "NewAtomicMax m (Some cmp) = Inr a"
  shows "max_inv cmp vs m (update_order zero sched (a, start_updates vs)) (run_updates zero sched (a, start_updates vs))"
  using max_inv_run [OF max_inv_start [OF assms], of vs zero sched] by simp

text \<open>
  A call of \<open>Get\<close> at any moment sees the calls that have taken effect, and a call that has
  returned by then precedes one that is yet to load.
\<close>

lemma AtomicMax_Get_reached:
  assumes "NewAtomicMax m (Some cmp) = Inr a"
  shows "AtomicMax_Get zero (fst (run_updates zero sched (a, start_updates vs)))
    = max_after cmp vs (update_order zero sched (a, start_updates vs)) m"
  using max_inv_reached [OF assms, of vs zero sched] by (auto simp: max_inv_def AtomicMax_Get_def)

lemma update_real_time:
  assumes "NewAtomicMax m (Some cmp) = Inr a" and "t < length vs" and "u < length vs"
    and "snd (snd (run_updates zero sched (a, start_updates vs)) ! t) = Returned r"
    and "snd (snd (run_updates zero sched (a, start_updates vs)) ! u) = Loading"
    and "u \<in> set (update_order zero (sched @ sched') (a, start_updates vs))"
  shows "t \<in> set (before u (update_order zero (sched @ sched') (a, start_updates vs)))"
proof -
  let ?order = "update_order zero sched (a, start_updates vs)"
  have pcs: "pc_inv cmp vs m ?order cs v (snd (snd (run_updates zero sched (a, start_updates vs)) ! v))"
    if "v < length vs" and "cs = am_cells (fst (run_updates zero sched (a, start_updates vs)))" for v cs
    using max_inv_reached [OF assms(1), of vs zero sched] that by (simp add: max_inv_def)
  have "t \<in> set ?order" using pcs [OF assms(2) HOL.refl] assms(4) by (simp add: effect_def)
  moreover have "u \<notin> set ?order" using pcs [OF assms(3) HOL.refl] assms(5) by simp
  ultimately show ?thesis by (auto simp: update_order_append before_def takeWhile_append)
qed

section \<open>Every schedule ends\<close>

text \<open>
  The potential of a goroutine when \<open>k\<close> have not returned: a failed swap costs one more step,
  but only after another goroutine has returned.
\<close>

fun pc_weight :: "nat \<Rightarrow> nat option \<Rightarrow> 'a update_pc \<Rightarrow> nat" where
  "pc_weight k q Loading = 2 * k"
| "pc_weight k q (Loaded c) = (if c = q then 2 * k - 1 else 2 * k + 1)"
| "pc_weight k q (Returned r) = 0"

definition running :: "('a \<times> 'a update_pc) list \<Rightarrow> nat set" where
  "running ths = {t. t < length ths \<and> \<not> returned (ths ! t)}"

definition potential :: "'a updates \<Rightarrow> nat" where
  "potential s = (\<Sum>t < length (snd s). pc_weight (card (running (snd s))) (am_ptr (fst s)) (snd (snd s ! t)))"

text \<open>A schedule that only picks goroutines that have not returned.\<close>

fun effective :: "'a \<Rightarrow> nat list \<Rightarrow> 'a updates \<Rightarrow> bool" where
  "effective zero [] s \<longleftrightarrow> True"
| "effective zero (t # ts) s \<longleftrightarrow> t \<in> running (snd s) \<and> effective zero ts (update_step zero t s)"

lemma returned_iff: "returned f \<longleftrightarrow> (\<exists>r. snd f = Returned r)"
  by (cases f; cases "snd f") auto

lemma finite_running [simp]: "finite (running ths)"
  by (simp add: running_def)

lemma running_update:
  assumes "t < length ths"
  shows "running (ths[t := f]) = (if returned f then running ths - {t} else insert t (running ths))"
  using assms by (auto simp: running_def nth_list_update split: if_splits)

lemma potential_less:
  assumes "t < length ths"
    and "pc_weight (card (running (ths[t := (v, pc')]))) (am_ptr a') pc'
      < pc_weight (card (running ths)) (am_ptr a) (snd (ths ! t))"
    and "\<And>u. u < length ths \<Longrightarrow> u \<noteq> t \<Longrightarrow> \<not> returned (ths ! u) \<Longrightarrow>
      pc_weight (card (running (ths[t := (v, pc')]))) (am_ptr a') (snd (ths ! u))
      \<le> pc_weight (card (running ths)) (am_ptr a) (snd (ths ! u))"
  shows "potential (a', ths[t := (v, pc')]) < potential (a, ths)"
  unfolding potential_def snd_conv fst_conv length_list_update
proof (rule sum_strict_mono_ex1)
  show "\<forall>u\<in>{..<length ths}. pc_weight (card (running (ths[t := (v, pc')]))) (am_ptr a') (snd (ths[t := (v, pc')] ! u))
      \<le> pc_weight (card (running ths)) (am_ptr a) (snd (ths ! u))"
  proof
    fix u assume "u \<in> {..<length ths}"
    then show "pc_weight (card (running (ths[t := (v, pc')]))) (am_ptr a') (snd (ths[t := (v, pc')] ! u))
      \<le> pc_weight (card (running ths)) (am_ptr a) (snd (ths ! u))"
      using assms by (cases "u = t"; cases "returned (ths ! u)") (auto simp: returned_iff)
  qed
  show "\<exists>u\<in>{..<length ths}. pc_weight (card (running (ths[t := (v, pc')]))) (am_ptr a') (snd (ths[t := (v, pc')] ! u))
      < pc_weight (card (running ths)) (am_ptr a) (snd (ths ! u))"
    using assms(1,2) by (intro bexI [of _ t]) auto
qed simp

text \<open>Every pointer a goroutine holds, and the current one, refers to an allocated cell.\<close>

fun pc_alloc :: "nat \<Rightarrow> 'a update_pc \<Rightarrow> bool" where
  "pc_alloc n (Loaded c) \<longleftrightarrow> (\<exists>p < n. c = Some p)"
| "pc_alloc n _ \<longleftrightarrow> True"

lemma max_inv_alloc:
  assumes "max_inv cmp vs m order (a, ths)" and "u < length ths"
  shows "pc_alloc (length (am_cells a)) (snd (ths ! u))"
proof -
  have "u < length vs" using assms by (auto simp: max_inv_def)
  then have "pc_inv cmp vs m order (am_cells a) u (snd (ths ! u))" using assms by (simp add: max_inv_def)
  then show ?thesis by (cases "snd (ths ! u)") auto
qed

lemma potential_step:
  assumes inv: "max_inv cmp vs m order s" and t: "t \<in> running (snd s)"
  shows "potential (update_step zero t s) < potential s"
proof -
  obtain a ths where s: "s = (a, ths)" by (cases s)
  obtain v pc where th: "ths ! t = (v, pc)" by (cases "ths ! t")
  have len: "t < length ths" and nr: "\<not> returned (v, pc)" using t th by (auto simp: s running_def)
  have tin: "t \<in> running ths" using t s by simp
  obtain k where k: "card (running ths) = Suc k"
    using tin by (metis card_Suc_Diff1 finite_running)
  have same: "running (ths[t := (v, pc')]) = running ths" if "\<not> returned (v, pc')" for pc'
    using that tin len by (auto simp: running_update)
  have less: "card (running (ths[t := (v, Returned r)])) = k" for r
    using tin len k by (simp add: running_update card_Diff_singleton)
  show ?thesis
  proof (cases pc)
    case Loading
    then have "update_step zero t s = (a, ths[t := (v, Loaded (am_ptr a))])"
      using update_step_eq [OF len th] s by (simp add: AtomicMax_Update_def)
    then show ?thesis unfolding s
      using potential_less [OF len, of v "Loaded (am_ptr a)" a a] same [of "Loaded (am_ptr a)"] th Loading k by simp
  next
    case (Loaded c)
    then obtain q where c: "c = Some q" "q < length (am_cells a)"
      using max_inv_alloc [OF inv [unfolded s] len] th by auto
    obtain a' pc' where step: "update_cas zero v c a = (a', pc')" by (cases "update_cas zero v c a")
    then have upd: "update_step zero t s = (a', ths[t := (v, pc')])"
      using update_step_eq [OF len th] Loaded s by (simp add: AtomicMax_Update_def)
    have mono: "pc_weight k p (snd (ths ! u)) \<le> pc_weight (Suc k) (am_ptr a) (snd (ths ! u))"
      if "p = am_ptr a \<or> p = Some (length (am_cells a))" and "u < length ths" "\<not> returned (ths ! u)" for p u
      using that max_inv_alloc [OF inv [unfolded s] that(2)]
      by (cases "snd (ths ! u)") (auto simp: returned_iff)
    consider r where "pc' = Returned r" "am_ptr a' = am_ptr a \<or> am_ptr a' = Some (length (am_cells a))"
      | "pc' = Loading" "am_ptr a' = am_ptr a" "c \<noteq> am_ptr a"
      using step c by (auto simp: update_cas_def Let_def split: if_splits)
    then show ?thesis
    proof cases
      case 1
      then show ?thesis unfolding upd unfolding s
        using less mono th Loaded k by (intro potential_less [OF len]) (auto split: if_splits)
    next
      case 2
      then show ?thesis unfolding upd unfolding s
        using same [of Loading] th Loaded k by (intro potential_less [OF len]) auto
    qed
  next
    case (Returned r)
    then show ?thesis using nr by simp
  qed
qed

lemma effective_bound:
  "max_inv cmp vs m order s \<Longrightarrow> effective zero sched s \<Longrightarrow> length sched \<le> potential s"
proof (induction sched arbitrary: order s)
  case Nil
  then show ?case by simp
next
  case (Cons t sched)
  have "max_inv cmp vs m (order @ committed t s) (update_step zero t s)"
    using max_inv_step [OF Cons.prems(1)] .
  then have "length sched \<le> potential (update_step zero t s)" using Cons by simp
  also have "\<dots> < potential s" using Cons.prems by (intro potential_step) auto
  finally show ?case by simp
qed

lemma potential_start: "potential (a, start_updates vs) = 2 * length vs * length vs"
proof -
  have "running (start_updates vs) = {..<length vs}"
    by (auto simp: running_def start_updates_def)
  then show ?thesis by (simp add: potential_def start_updates_def)
qed


lemma effective_append:
  "effective zero (xs @ [t]) s \<longleftrightarrow> effective zero xs s \<and> t \<in> running (snd (run_updates zero xs s))"
  by (induction xs arbitrary: s) (auto simp: run_updates_def)

section \<open>The result is a maximum\<close>

lemma max_after_in: "set order \<subseteq> {..<length vs} \<Longrightarrow> max_after cmp vs order m \<in> insert m (set vs)"
  by (induction order rule: rev_induct) (auto simp: keep_max_def)

lemma max_after_ge:
  assumes "comparator cmp"
  shows "cmp m (max_after cmp vs order m) \<le> 0 \<and> (\<forall>t \<in> set order. cmp (vs ! t) (max_after cmp vs order m) \<le> 0)"
proof (induction order rule: rev_induct)
  case Nil
  then show ?case using comparator.refl [OF assms] by simp
next
  case (snoc t order)
  let ?m = "max_after cmp vs order m"
  have "cmp x (keep_max cmp ?m (vs ! t)) \<le> 0" if "cmp x ?m \<le> 0" for x
    using comparator.trans [OF assms that comparator.keep_max_ge(1) [OF assms]] .
  then show ?case using snoc comparator.keep_max_ge(2) [OF assms] by simp
qed

text \<open>Two goroutines that race: 5 loses its swap to 7 and sees 7 on its second load.\<close>

lemma race:
  "run_updates 0 [0, 1, 1, 0, 0, 0]
     (\<lparr>am_cells = [3], am_ptr = Some 0, am_comparer = (\<lambda>x y. x - y)\<rparr>, start_updates [5, 7 :: int])
   = (\<lparr>am_cells = [3, 7, 5], am_ptr = Some 1, am_comparer = (\<lambda>x y. x - y)\<rparr>, [(5, Returned 7), (7, Returned 3)])"
  by (simp add: run_updates_def start_updates_def update_step_def AtomicMax_Update_def update_cas_def)

lemma race_done: "running [(5, Returned 7), (7 :: int, Returned 3)] = {}"
  by (auto simp: running_def less_Suc_eq nth_Cons split: nat.splits)

lemma race_new: "NewAtomicMax 3 (Some (\<lambda>x y. x - y)) = Inr \<lparr>am_cells = [3], am_ptr = Some 0, am_comparer = (\<lambda>x y. x - y)\<rparr>"
  by (simp add: NewAtomicMax_def)

lemma comparator_diff: "comparator (\<lambda>x y. x - y :: int)"
  by unfold_locales (auto simp: sgn_if)

section \<open>When all calls have returned\<close>

lemma AtomicMax_all_returned:
  assumes "NewAtomicMax m (Some cmp) = Inr a" and "order = update_order zero sched (a, start_updates vs)"
    and "run_updates zero sched (a, start_updates vs) = (a', ths)" and "running ths = {}"
  shows "distinct order" and "set order = {..<length vs}" and "AtomicMax_Get zero a' = max_after cmp vs order m"
    and "\<And>t. t < length vs \<Longrightarrow> ths ! t = (vs ! t, Returned (max_after cmp vs (before t order) m))"
proof -
  have inv: "max_inv cmp vs m order (a', ths)"
    using max_inv_reached [OF assms(1), of vs zero sched] assms(2,3) by simp
  have ret: "\<exists>r. ths ! t = (vs ! t, Returned r) \<and> effect cmp vs m order t r" if "t < length vs" for t
  proof -
    have "t < length ths" "vs ! t = fst (ths ! t)" using inv that by (auto simp: max_inv_def)
    moreover obtain r where "snd (ths ! t) = Returned r"
      using assms(4) \<open>t < length ths\<close> by (auto simp: running_def returned_iff)
    moreover have "pc_inv cmp vs m order (am_cells a') t (snd (ths ! t))"
      using inv that by (simp add: max_inv_def)
    ultimately show ?thesis by (cases "ths ! t") auto
  qed
  show "distinct order" using inv by (simp add: max_inv_def)
  show "set order = {..<length vs}"
    using inv ret by (auto simp: max_inv_def effect_def)
  show "AtomicMax_Get zero a' = max_after cmp vs order m"
    using inv by (auto simp: max_inv_def AtomicMax_Get_def)
  show "ths ! t = (vs ! t, Returned (max_after cmp vs (before t order) m))" if "t < length vs" for t
    using ret [OF that] by (auto simp: effect_def)
qed

section \<open>Properties\<close>

text \<open>
  C7: \<open>AtomicMax\<close> is linearizable: however the steps of concurrent calls of \<open>Update\<close> interleave,
  once all have returned there is an order of the calls such that each returned the maximum of
  the initial value and the calls before it, and \<open>Get\<close> gives the maximum after all of them. The
  order respects real time (a call that had returned when another one was yet to load precedes
  it), and a \<open>Get\<close> at any moment in between gives the maximum after some first part of it.
\<close>

theorem AtomicMax_linearizable:
  assumes "NewAtomicMax m (Some cmp) = Inr a"
    and "run_updates zero sched (a, start_updates vs) = (a', ths)" and "running ths = {}"
  shows "\<exists>order. distinct order \<and> set order = {..<length vs}
    \<and> AtomicMax_Get zero a' = max_after cmp vs order m
    \<and> (\<forall>t < length vs. ths ! t = (vs ! t, Returned (max_after cmp vs (before t order) m)))
    \<and> (\<forall>first rest. sched = first @ rest \<longrightarrow>
         (\<exists>n. AtomicMax_Get zero (fst (run_updates zero first (a, start_updates vs)))
              = max_after cmp vs (take n order) m)
         \<and> (\<forall>t u r. t < length vs \<and> u < length vs
              \<and> snd (snd (run_updates zero first (a, start_updates vs)) ! t) = Returned r
              \<and> snd (snd (run_updates zero first (a, start_updates vs)) ! u) = Loading
              \<longrightarrow> t \<in> set (before u order)))"
proof (intro exI conjI allI impI)
  let ?order = "update_order zero sched (a, start_updates vs)"
  note all = AtomicMax_all_returned [OF assms(1) HOL.refl assms(2,3)]
  show "distinct ?order" "set ?order = {..<length vs}" "AtomicMax_Get zero a' = max_after cmp vs ?order m"
    by (rule all)+
  show "ths ! t = (vs ! t, Returned (max_after cmp vs (before t ?order) m))" if "t < length vs" for t
    by (rule all(4) [OF that])
  fix first rest assume sched: "sched = first @ rest"
  let ?n = "length (update_order zero first (a, start_updates vs))"
  show "AtomicMax_Get zero (fst (run_updates zero first (a, start_updates vs)))
      = max_after cmp vs (take ?n ?order) m"
    by (simp add: AtomicMax_Get_reached [OF assms(1)] sched update_order_append)
  fix t u r
  assume "t < length vs \<and> u < length vs
      \<and> snd (snd (run_updates zero first (a, start_updates vs)) ! t) = Returned r
      \<and> snd (snd (run_updates zero first (a, start_updates vs)) ! u) = Loading"
  then show "t \<in> set (before u ?order)"
    using update_real_time [OF assms(1), of t vs u zero first r rest] all(2) sched by auto
qed

theorem AtomicMax_linearizable_witness:
  "\<exists>order. set order = {..<2} \<and> max_after (\<lambda>x y. x - y) [5, 7] order 3 = (7 :: int)
    \<and> max_after (\<lambda>x y. x - y) [5, 7] (before 0 order) 3 = 7"
proof -
  from AtomicMax_linearizable [OF race_new race race_done] obtain order where
    o: "set order = {..<length [5, 7 :: int]}" "AtomicMax_Get 0 \<lparr>am_cells = [3, 7, 5], am_ptr = Some 1, am_comparer = (\<lambda>x y. x - y)\<rparr>
        = max_after (\<lambda>x y. x - y) [5, 7] order (3 :: int)"
    and res: "\<forall>t < length [5, 7 :: int]. [(5, Returned 7), (7 :: int, Returned 3)] ! t
        = ([5, 7] ! t, Returned (max_after (\<lambda>x y. x - y) [5, 7] (before t order) (3 :: int)))"
    by blast
  from res have o3: "max_after (\<lambda>x y. x - y) [5, 7] (before 0 order) (3 :: int) = 7" by force
  from o(2) have "max_after (\<lambda>x y. x - y) [5, 7] order (3 :: int) = 7" by (simp add: AtomicMax_Get_def)
  with o(1) o3 show ?thesis by (auto simp: numeral_2_eq_2)
qed

text \<open>
  C33: \<open>AtomicMax.Update\<close> returns: with \<open>n\<close> concurrent calls, no schedule of goroutines that have
  not returned is longer than \<open>2 * n * n\<close> steps, and as long as one has not returned a schedule
  can go on; so every schedule that leaves nobody out ends with all calls returned.
\<close>

theorem AtomicMax_Update_terminates:
  assumes "NewAtomicMax m (Some cmp) = Inr a" and "effective zero sched (a, start_updates vs)"
  shows "length sched \<le> 2 * length vs * length vs
    \<and> (running (snd (run_updates zero sched (a, start_updates vs))) = {}
       \<or> (\<exists>t. effective zero (sched @ [t]) (a, start_updates vs)))"
  using effective_bound [OF max_inv_start [OF assms(1)] assms(2)] assms(2)
  by (auto simp: potential_start effective_append)

theorem AtomicMax_Update_terminates_witness:
  "length [0, 1, 1, 0, 0, 0 :: nat] \<le> 8 \<and>
   effective 0 [0, 1, 1, 0, 0, 0] (\<lparr>am_cells = [3], am_ptr = Some 0, am_comparer = (\<lambda>x y. x - y)\<rparr>, start_updates [5, 7 :: int])"
proof -
  have "effective 0 [0, 1, 1, 0, 0, 0]
      (\<lparr>am_cells = [3], am_ptr = Some 0, am_comparer = (\<lambda>x y. x - y)\<rparr>, start_updates [5, 7 :: int])"
    by (simp add: running_def start_updates_def update_step_def AtomicMax_Update_def update_cas_def)
  moreover from AtomicMax_Update_terminates [OF _ this, of 3] have "length [0, 1, 1, 0, 0, 0 :: nat] \<le> 8"
    by (simp add: NewAtomicMax_def)
  ultimately show ?thesis by blast
qed

text \<open>
  For a comparer that meets the contract of \<open>cmp.Compare\<close>, once all calls have returned
  \<open>Get\<close> is one of the values seen and no value seen is greater.
\<close>

lemma AtomicMax_is_maximum:
  assumes "comparator cmp" and "NewAtomicMax m (Some cmp) = Inr a"
    and "run_updates zero sched (a, start_updates vs) = (a', ths)" and "running ths = {}"
  shows "AtomicMax_Get zero a' \<in> insert m (set vs)
    \<and> (\<forall>v \<in> insert m (set vs). cmp v (AtomicMax_Get zero a') \<le> 0)"
proof -
  obtain order where "set order = {..<length vs}" and "AtomicMax_Get zero a' = max_after cmp vs order m"
    using AtomicMax_all_returned(2,3) [OF assms(2) HOL.refl assms(3,4)] by blast
  then show ?thesis
    using max_after_in [of order vs cmp m] max_after_ge [OF assms(1), of m vs order]
    by (auto simp: in_set_conv_nth)
qed

lemma AtomicMax_is_maximum_witness:
  "AtomicMax_Get 0 (fst (run_updates 0 [0, 1, 1, 0, 0, 0]
     (\<lparr>am_cells = [3], am_ptr = Some 0, am_comparer = (\<lambda>x y. x - y)\<rparr>, start_updates [5, 7 :: int]))) \<in> {3, 5, 7}"
  unfolding race fst_conv
  using AtomicMax_is_maximum [OF comparator_diff race_new race race_done] by (simp add: AtomicMax_Get_def)

end
