(* ===== verification/Guarded.thy ===== *)
theory Guarded
  imports Go_Prelude
begin

text \<open>
  The values that \<open>sync.RWMutex\<close> guards: \<open>synctools/dataguard.go\<close>, \<open>synctools/buffer.go\<close> and
  \<open>future/future.go\<close>. A method is a critical section; goroutines that each call one are
  interleaved step by step (wait for the lock, read the value, store, unlock), and the section
  on locks shows that every interleaving has the results of some sequential order. The lock is
  modelled by the goroutines that hold it; the rule by which Go favours a waiting writer only
  excludes schedules, so it is left out.
\<close>

section \<open>Critical sections\<close>

datatype ('v, 'r) critical =
    RSection "'v \<Rightarrow> 'r"          \<comment> \<open>between RLock and RUnlock\<close>
  | WSection "'v \<Rightarrow> 'v \<times> 'r"     \<comment> \<open>between Lock and Unlock: new value and result\<close>

record 'v guarded =
  g_value :: 'v
  g_readers :: "nat set"
  g_writer :: "nat option"

datatype ('v, 'r) guard_pc = Waiting | Inside | Read_value 'v | Leaving 'r | Finished 'r

definition guard_step :: "('v, 'r) critical list \<Rightarrow> nat \<Rightarrow> 'v guarded \<times> ('v, 'r) guard_pc list
    \<Rightarrow> 'v guarded \<times> ('v, 'r) guard_pc list" where
  "guard_step ms t s =
     (let g = fst s; pcs = snd s in
      if length pcs \<le> t then s
      else case ms ! t of
        RSection read \<Rightarrow> (case pcs ! t of
          Waiting \<Rightarrow> if g_writer g = None then (g\<lparr>g_readers := insert t (g_readers g)\<rparr>, pcs[t := Inside]) else s
        | Inside \<Rightarrow> (g, pcs[t := Leaving (read (g_value g))])
        | Leaving r \<Rightarrow> (g\<lparr>g_readers := g_readers g - {t}\<rparr>, pcs[t := Finished r])
        | _ \<Rightarrow> s)
      | WSection write \<Rightarrow> (case pcs ! t of
          Waiting \<Rightarrow> if g_writer g = None \<and> g_readers g = {} then (g\<lparr>g_writer := Some t\<rparr>, pcs[t := Inside]) else s
        | Inside \<Rightarrow> (g, pcs[t := Read_value (g_value g)])
        | Read_value v \<Rightarrow> (g\<lparr>g_value := fst (write v)\<rparr>, pcs[t := Leaving (snd (write v))])
        | Leaving r \<Rightarrow> (g\<lparr>g_writer := None\<rparr>, pcs[t := Finished r])
        | Finished r \<Rightarrow> s))"

definition run_guarded :: "('v, 'r) critical list \<Rightarrow> nat list \<Rightarrow> 'v guarded \<times> ('v, 'r) guard_pc list
    \<Rightarrow> 'v guarded \<times> ('v, 'r) guard_pc list" where
  "run_guarded ms sched s = fold (guard_step ms) sched s"

definition unlocked :: "'v \<Rightarrow> 'v guarded" where
  "unlocked v = \<lparr>g_value = v, g_readers = {}, g_writer = None\<rparr>"

section \<open>The sequential meaning\<close>

fun critical_value :: "('v, 'r) critical \<Rightarrow> 'v \<Rightarrow> 'v" where
  "critical_value (RSection f) v = v"
| "critical_value (WSection f) v = fst (f v)"

fun critical_result :: "('v, 'r) critical \<Rightarrow> 'v \<Rightarrow> 'r" where
  "critical_result (RSection f) v = f v"
| "critical_result (WSection f) v = snd (f v)"

definition value_after :: "('v, 'r) critical list \<Rightarrow> nat list \<Rightarrow> 'v \<Rightarrow> 'v" where
  "value_after ms order v = fold (\<lambda>t. critical_value (ms ! t)) order v"

definition earlier :: "nat \<Rightarrow> nat list \<Rightarrow> nat list" where
  "earlier t order = takeWhile (\<lambda>u. u \<noteq> t) order"

definition result_in :: "('v, 'r) critical list \<Rightarrow> nat list \<Rightarrow> 'v \<Rightarrow> nat \<Rightarrow> 'r" where
  "result_in ms order v t = critical_result (ms ! t) (value_after ms (earlier t order) v)"

lemma earlier_subset: "set (earlier t order) \<subseteq> set order"
  by (auto simp: earlier_def dest: set_takeWhileD)

lemma value_after_simps [simp]:
  "value_after ms [] v = v"
  "value_after ms (order @ [t]) v = critical_value (ms ! t) (value_after ms order v)"
  by (simp_all add: value_after_def)

lemma result_in_append: "t \<in> set order \<Longrightarrow> result_in ms (order @ xs) v t = result_in ms order v t"
  by (auto simp: result_in_def earlier_def takeWhile_append)

lemma result_in_new:
  "t \<notin> set order \<Longrightarrow> result_in ms (order @ [t]) v t = critical_result (ms ! t) (value_after ms order v)"
  by (simp add: result_in_def earlier_def takeWhile_append)

section \<open>Every interleaving is a sequential order\<close>

fun is_writer :: "('v, 'r) critical \<Rightarrow> bool" where
  "is_writer (WSection f) = True"
| "is_writer (RSection f) = False"

fun holds_lock :: "('v, 'r) guard_pc \<Rightarrow> bool" where
  "holds_lock Waiting = False"
| "holds_lock (Finished r) = False"
| "holds_lock pc = True"

fun guard_pc_inv ::
  "('v, 'r) critical list \<Rightarrow> 'v \<Rightarrow> nat list \<Rightarrow> 'v \<Rightarrow> nat \<Rightarrow> ('v, 'r) guard_pc \<Rightarrow> bool" where
  "guard_pc_inv ms v0 order v t (Read_value old) \<longleftrightarrow> t \<notin> set order \<and> is_writer (ms ! t) \<and> old = v"
| "guard_pc_inv ms v0 order v t (Leaving r) \<longleftrightarrow> t \<in> set order \<and> r = result_in ms order v0 t"
| "guard_pc_inv ms v0 order v t (Finished r) \<longleftrightarrow> t \<in> set order \<and> r = result_in ms order v0 t"
| "guard_pc_inv ms v0 order v t pc \<longleftrightarrow> t \<notin> set order"

text \<open>The goroutines in the order in which their sections take effect: a reader when it reads, a
  writer when it stores.\<close>

definition takes_effect :: "('v, 'r) critical list \<Rightarrow> nat \<Rightarrow> 'v guarded \<times> ('v, 'r) guard_pc list \<Rightarrow> bool" where
  "takes_effect ms t s \<longleftrightarrow> t < length (snd s) \<and> (case snd s ! t of
     Inside \<Rightarrow> \<not> is_writer (ms ! t) | Read_value v \<Rightarrow> is_writer (ms ! t) | _ \<Rightarrow> False)"

fun effects :: "('v, 'r) critical list \<Rightarrow> nat list \<Rightarrow> 'v guarded \<times> ('v, 'r) guard_pc list \<Rightarrow> nat list" where
  "effects ms [] s = []"
| "effects ms (t # sched) s = (if takes_effect ms t s then [t] else []) @ effects ms sched (guard_step ms t s)"

lemma effects_append: "effects ms (xs @ ys) s = effects ms xs s @ effects ms ys (run_guarded ms xs s)"
  by (induction xs arbitrary: s) (simp_all add: run_guarded_def)

definition guard_inv :: "('v, 'r) critical list \<Rightarrow> 'v \<Rightarrow> nat list \<Rightarrow> 'v guarded \<times> ('v, 'r) guard_pc list \<Rightarrow> bool" where
  "guard_inv ms v0 order s \<longleftrightarrow>
     length (snd s) = length ms \<and> distinct order \<and> set order \<subseteq> {..<length ms}
     \<and> g_value (fst s) = value_after ms order v0
     \<and> (g_writer (fst s) \<noteq> None \<longrightarrow> g_readers (fst s) = {})
     \<and> g_readers (fst s) \<subseteq> {..<length ms} \<and> (\<forall>t. g_writer (fst s) = Some t \<longrightarrow> t < length ms)
     \<and> (\<forall>t < length ms. guard_pc_inv ms v0 order (g_value (fst s)) t (snd s ! t)
          \<and> (t \<in> g_readers (fst s) \<longleftrightarrow> \<not> is_writer (ms ! t) \<and> holds_lock (snd s ! t))
          \<and> (g_writer (fst s) = Some t \<longleftrightarrow> is_writer (ms ! t) \<and> holds_lock (snd s ! t)))"

lemma guard_inv_start: "guard_inv ms v0 [] (unlocked v0, replicate (length ms) Waiting)"
  by (simp add: guard_inv_def unlocked_def)

text \<open>A goroutine that is not the writer keeps its invariant when another one takes effect.\<close>

lemma guard_pc_inv_other:
  assumes "guard_pc_inv ms v0 order v u pc" and "u \<noteq> t" and "v' = v \<or> \<not> (is_writer (ms ! u) \<and> holds_lock pc)"
  shows "guard_pc_inv ms v0 (order @ [t]) v' u pc"
  using assms by (cases pc) (auto simp: result_in_append)

lemma guard_inv_update:
  assumes inv: "guard_inv ms v0 order (g, pcs)" and t: "t < length ms"
    and "distinct order'" and "set order' \<subseteq> insert t (set order)" and "g_value g' = value_after ms order' v0"
    and "g_writer g' \<noteq> None \<Longrightarrow> g_readers g' = {}"
    and other: "\<And>u. u < length ms \<Longrightarrow> u \<noteq> t \<Longrightarrow> guard_pc_inv ms v0 order' (g_value g') u (pcs ! u)"
    and "g_readers g' - {t} = g_readers g - {t}"
    and "\<And>u. u \<noteq> t \<Longrightarrow> g_writer g' = Some u \<longleftrightarrow> g_writer g = Some u"
    and mine: "guard_pc_inv ms v0 order' (g_value g') t pc'"
    and "t \<in> g_readers g' \<longleftrightarrow> \<not> is_writer (ms ! t) \<and> holds_lock pc'"
    and "g_writer g' = Some t \<longleftrightarrow> is_writer (ms ! t) \<and> holds_lock pc'"
  shows "guard_inv ms v0 order' (g', pcs[t := pc'])"
proof -
  have len: "length pcs = length ms" and ord: "set order \<subseteq> {..<length ms}" using inv by (auto simp: guard_inv_def)
  have "guard_pc_inv ms v0 order' (g_value g') u (pcs[t := pc'] ! u)
      \<and> (u \<in> g_readers g' \<longleftrightarrow> \<not> is_writer (ms ! u) \<and> holds_lock (pcs[t := pc'] ! u))
      \<and> (g_writer g' = Some u \<longleftrightarrow> is_writer (ms ! u) \<and> holds_lock (pcs[t := pc'] ! u))" if u: "u < length ms" for u
  proof (cases "u = t")
    case True
    then show ?thesis using assms(11,12) mine len t by simp
  next
    case False
    have "u \<in> g_readers g' \<longleftrightarrow> u \<in> g_readers g" using assms(8) False by blast
    moreover have "g_writer g' = Some u \<longleftrightarrow> g_writer g = Some u" using assms(9) [OF False] .
    ultimately show ?thesis using inv other [OF u False] u False by (simp add: guard_inv_def)
  qed
  moreover have "set order' \<subseteq> {..<length ms}" using assms(4) ord t by auto
  moreover have "g_readers g' \<subseteq> {..<length ms}" using assms(8) inv t by (auto simp: guard_inv_def)
  moreover have "\<forall>u. g_writer g' = Some u \<longrightarrow> u < length ms"
  proof (intro allI impI)
    fix u assume "g_writer g' = Some u"
    then show "u < length ms" using assms(9) [of u] inv t by (cases "u = t") (auto simp: guard_inv_def)
  qed
  ultimately show ?thesis using assms(3,5,6) len by (simp add: guard_inv_def)
qed


lemma guard_step_waiting:
  assumes inv: "guard_inv ms v0 order (g, pcs)" and t: "t < length ms" "pcs ! t = Waiting"
  shows "guard_inv ms v0 order (guard_step ms t (g, pcs))"
proof -
  have len: "t < length pcs" using inv t by (simp add: guard_inv_def)
  have ord: "distinct order" "g_value g = value_after ms order v0"
    "\<And>u. u < length ms \<Longrightarrow> guard_pc_inv ms v0 order (g_value g) u (pcs ! u)"
    "g_writer g \<noteq> None \<longrightarrow> g_readers g = {}" "t \<notin> set order"
    "t \<notin> g_readers g" "g_writer g \<noteq> Some t"
    using inv t by (auto simp: guard_inv_def)
  show ?thesis
  proof (cases "ms ! t")
    case (RSection f)
    then show ?thesis
      using inv t len ord by (auto simp: guard_step_def intro!: guard_inv_update [OF inv t(1)])
  next
    case (WSection f)
    then show ?thesis
      using inv t len ord by (auto simp: guard_step_def intro!: guard_inv_update [OF inv t(1)])
  qed
qed

lemma guard_inv_step:
  assumes inv: "guard_inv ms v0 order s"
  shows "guard_inv ms v0 (order @ (if takes_effect ms t s then [t] else [])) (guard_step ms t s)"
proof (cases "t < length ms")
  case False
  then have "guard_step ms t s = s" "\<not> takes_effect ms t s"
    using inv by (auto simp: guard_step_def guard_inv_def takes_effect_def)
  then show ?thesis using inv by auto
next
  case t: True
  obtain g pcs where s: "s = (g, pcs)" by (cases s)
  note inv = inv [unfolded s]
  have len: "t < length pcs" using inv t by (simp add: guard_inv_def)
  have ord: "distinct order" "g_value g = value_after ms order v0" "g_writer g \<noteq> None \<longrightarrow> g_readers g = {}"
    and pcs: "\<And>u. u < length ms \<Longrightarrow> guard_pc_inv ms v0 order (g_value g) u (pcs ! u)"
    and mine: "guard_pc_inv ms v0 order (g_value g) t (pcs ! t)"
    and lock: "t \<in> g_readers g \<longleftrightarrow> \<not> is_writer (ms ! t) \<and> holds_lock (pcs ! t)"
      "g_writer g = Some t \<longleftrightarrow> is_writer (ms ! t) \<and> holds_lock (pcs ! t)"
    using inv t by (auto simp: guard_inv_def)
  note upd = guard_inv_update [OF inv t]
  have new: "guard_pc_inv ms v0 (order @ [t]) v' u (pcs ! u)"
    if "u < length ms" "u \<noteq> t" "v' = g_value g \<or> g_writer g = Some t" for u v'
    using inv that by (intro guard_pc_inv_other [OF pcs]) (auto simp: guard_inv_def)
  show ?thesis
  proof (cases "pcs ! t")
    case Waiting
    then show ?thesis using guard_step_waiting [OF inv t] s by (simp add: takes_effect_def)
  next
    case Inside
    then have out: "t \<notin> set order" using mine by simp
    show ?thesis
    proof (cases "ms ! t")
      case (RSection f)
      have "guard_inv ms v0 (order @ [t]) (g, pcs[t := Leaving (f (g_value g))])"
        by (rule upd) (use ord out lock new RSection Inside in \<open>simp_all add: result_in_new\<close>)
      then show ?thesis using RSection Inside len s by (simp add: guard_step_def takes_effect_def)
    next
      case (WSection f)
      have "guard_inv ms v0 order (g, pcs[t := Read_value (g_value g)])"
        by (rule upd) (use ord out lock pcs WSection Inside in auto)
      then show ?thesis using WSection Inside len s by (simp add: guard_step_def takes_effect_def)
    qed
  next
    case (Read_value old)
    then obtain f where f: "ms ! t = WSection f" and out: "t \<notin> set order" and old: "old = g_value g"
      using mine by (cases "ms ! t") auto
    have w: "g_writer g = Some t" using lock f Read_value by simp
    have "guard_inv ms v0 (order @ [t]) (g\<lparr>g_value := fst (f old)\<rparr>, pcs[t := Leaving (snd (f old))])"
      by (rule upd) (use ord out lock new f w old Read_value in \<open>simp_all add: result_in_new\<close>)
    then show ?thesis using f Read_value len s by (simp add: guard_step_def takes_effect_def)
  next
    case (Leaving r)
    show ?thesis
    proof (cases "ms ! t")
      case (RSection f)
      have "guard_inv ms v0 order (g\<lparr>g_readers := g_readers g - {t}\<rparr>, pcs[t := Finished r])"
        by (rule upd) (use ord mine lock pcs RSection Leaving in auto)
      then show ?thesis using RSection Leaving len s by (simp add: guard_step_def takes_effect_def)
    next
      case (WSection f)
      have "guard_inv ms v0 order (g\<lparr>g_writer := None\<rparr>, pcs[t := Finished r])"
        by (rule upd) (use ord mine lock pcs WSection Leaving in auto)
      then show ?thesis using WSection Leaving len s by (simp add: guard_step_def takes_effect_def)
    qed
  next
    case (Finished r)
    then have "guard_step ms t s = s" using len s by (simp add: guard_step_def split: critical.split)
    then show ?thesis using inv s Finished by (simp add: takes_effect_def)
  qed
qed

lemma guard_inv_run:
  "guard_inv ms v0 order s \<Longrightarrow> guard_inv ms v0 (order @ effects ms sched s) (run_guarded ms sched s)"
proof (induction sched arbitrary: order s)
  case Nil
  then show ?case by (simp add: run_guarded_def)
next
  case (Cons t sched)
  from Cons.IH [OF guard_inv_step [OF Cons.prems, of t]] show ?case by (simp add: run_guarded_def)
qed

text \<open>All calls before they start.\<close>

definition guard_start :: "('v, 'r) critical list \<Rightarrow> 'v \<Rightarrow> 'v guarded \<times> ('v, 'r) guard_pc list" where
  "guard_start ms v0 = (unlocked v0, replicate (length ms) Waiting)"

lemma guard_inv_reached:
  "guard_inv ms v0 (effects ms sched (guard_start ms v0)) (run_guarded ms sched (guard_start ms v0))"
  using guard_inv_run [OF guard_inv_start, of ms v0 sched] by (simp add: guard_start_def)

lemma guard_all_finished:
  assumes "run_guarded ms sched (guard_start ms v0) = (g, map Finished rs)"
    and "order = effects ms sched (guard_start ms v0)"
  shows "distinct order" and "set order = {..<length ms}" and "g = unlocked (value_after ms order v0)"
    and "length rs = length ms" and "\<And>t. t < length ms \<Longrightarrow> rs ! t = result_in ms order v0 t"
proof -
  have inv: "guard_inv ms v0 order (g, map Finished rs)"
    using guard_inv_reached [of ms v0 sched] assms by simp
  then show len: "length rs = length ms" and "distinct order" by (simp_all add: guard_inv_def)
  have each: "t \<in> set order \<and> rs ! t = result_in ms order v0 t \<and> t \<notin> g_readers g \<and> g_writer g \<noteq> Some t"
    if "t < length ms" for t
    using inv that len by (auto simp: guard_inv_def)
  show "set order = {..<length ms}" using inv each by (auto simp: guard_inv_def)
  have "g_writer g = None" "g_readers g = {}"
    using inv each by (auto simp: guard_inv_def) (meson option.exhaust)
  then show "g = unlocked (value_after ms order v0)"
    using inv by (simp add: guard_inv_def unlocked_def)
  show "rs ! t = result_in ms order v0 t" if "t < length ms" for t using each [OF that] by simp
qed

text \<open>A call that has not started has not taken effect.\<close>

lemma guard_waiting_not_done:
  assumes "u < length ms" and "snd (run_guarded ms sched (guard_start ms v0)) ! u = Waiting"
  shows "u \<notin> set (effects ms sched (guard_start ms v0))"
proof -
  have "guard_pc_inv ms v0 (effects ms sched (guard_start ms v0))
      (g_value (fst (run_guarded ms sched (guard_start ms v0)))) u Waiting"
    using guard_inv_reached [of ms v0 sched] assms unfolding guard_inv_def by metis
  then show ?thesis by simp
qed

text \<open>A call that finished before another one started took effect before it.\<close>

lemma guard_real_time:
  assumes "t < length ms" and "u < length ms" and "u \<in> set (effects ms (sched @ sched') (guard_start ms v0))"
    and "snd (run_guarded ms sched (guard_start ms v0)) ! t = Finished r"
    and "snd (run_guarded ms sched (guard_start ms v0)) ! u = Waiting"
  shows "t \<in> set (earlier u (effects ms (sched @ sched') (guard_start ms v0)))"
proof -
  let ?done = "effects ms sched (guard_start ms v0)"
  have "guard_pc_inv ms v0 ?done v t (Finished r) \<and> guard_pc_inv ms v0 ?done v u Waiting"
    if "v = g_value (fst (run_guarded ms sched (guard_start ms v0)))" for v
    using guard_inv_reached [of ms v0 sched] assms(1,2,4,5) that unfolding guard_inv_def by metis
  then have "t \<in> set ?done" "u \<notin> set ?done" by simp_all
  then show ?thesis by (auto simp: effects_append earlier_def takeWhile_append)
qed


text \<open>No deadlock: while a method has not finished, some goroutine can take a step.\<close>

lemma guard_no_deadlock:
  assumes inv: "guard_inv ms v0 order (g, pcs)" and u: "u < length ms" "\<And>r. pcs ! u \<noteq> Finished r"
  shows "\<exists>t < length ms. guard_step ms t (g, pcs) \<noteq> (g, pcs)"
proof (cases "\<exists>t < length ms. holds_lock (pcs ! t)")
  case True
  then obtain t where t: "t < length ms" "holds_lock (pcs ! t)" by blast
  have pc: "guard_pc_inv ms v0 order (g_value g) t (pcs ! t)" "t < length pcs"
    using inv t by (auto simp: guard_inv_def)
  then have "guard_step ms t (g, pcs) \<noteq> (g, pcs)"
    using t(2) by (cases "pcs ! t"; cases "ms ! t") (auto simp: guard_step_def list_update_same_conv)
  then show ?thesis using t by blast
next
  case False
  then have w: "pcs ! u = Waiting" using u by (cases "pcs ! u") auto
  have len: "u < length pcs" and free: "g_writer g = None" "g_readers g = {}"
    using inv False u by (auto simp: guard_inv_def) (meson option.exhaust)
  have "guard_step ms u (g, pcs) \<noteq> (g, pcs)"
    using w len free by (cases "ms ! u") (auto simp: guard_step_def list_update_same_conv)
  then show ?thesis using u by blast
qed

text \<open>A call takes at most four steps that change something, so all calls can always finish.\<close>

fun steps_left :: "('v, 'r) guard_pc \<Rightarrow> nat" where
  "steps_left Waiting = 4"
| "steps_left Inside = 3"
| "steps_left (Read_value v) = 2"
| "steps_left (Leaving r) = 1"
| "steps_left (Finished r) = 0"

lemma guard_step_progress:
  assumes "guard_step ms t s \<noteq> s"
  shows "sum_list (map steps_left (snd (guard_step ms t s))) < sum_list (map steps_left (snd s))"
proof -
  obtain g pcs where s: "s = (g, pcs)" by (cases s)
  then have t: "t < length pcs" using assms by (auto simp: guard_step_def split: if_splits)
  have less: "sum_list (map steps_left (pcs[t := pc])) < sum_list (map steps_left pcs)"
    if "steps_left pc < steps_left (pcs ! t)" for pc
  proof -
    have "pcs = take t pcs @ pcs ! t # drop (Suc t) pcs" using t by (rule id_take_nth_drop)
    then have "sum_list (map steps_left pcs) = sum_list (map steps_left (take t pcs)) + steps_left (pcs ! t)
        + sum_list (map steps_left (drop (Suc t) pcs))"
      by (metis list.simps(9) map_append sum_list.Cons sum_list_append add.assoc)
    then show ?thesis using that t by (simp add: upd_conv_take_nth_drop)
  qed
  show ?thesis
    using assms t less
    by (cases "ms ! t"; cases "pcs ! t") (auto simp: s guard_step_def split: if_splits)
qed

lemma all_finished: "(\<And>u. u < length pcs \<Longrightarrow> \<exists>r. pcs ! u = Finished r) \<Longrightarrow> \<exists>rs. pcs = map Finished rs"
proof (induction pcs)
  case Nil
  then show ?case by simp
next
  case (Cons pc pcs)
  obtain rs where "pcs = map Finished rs" using Cons.IH Cons.prems by (metis Suc_less_eq length_Cons nth_Cons_Suc)
  moreover obtain r where "pc = Finished r" using Cons.prems [of 0] by auto
  ultimately have "pc # pcs = map Finished (r # rs)" by simp
  then show ?case by (rule exI [where P = "\<lambda>rs. pc # pcs = map Finished rs"])
qed

lemma guard_finishes:
  assumes "guard_inv ms v0 order s"
  shows "\<exists>more g rs. length more \<le> sum_list (map steps_left (snd s)) \<and> run_guarded ms more s = (g, map Finished rs)"
  using assms
proof (induction "sum_list (map steps_left (snd s))" arbitrary: s order rule: less_induct)
  case less
  obtain g pcs where s: "s = (g, pcs)" by (cases s)
  have len: "length pcs = length ms" using less.prems by (simp add: s guard_inv_def)
  show ?case
  proof (cases "\<exists>u < length ms. \<forall>r. pcs ! u \<noteq> Finished r")
    case False
    then obtain rs where "pcs = map Finished rs" using all_finished [of pcs] len by auto
    then show ?thesis using s by (intro exI [of _ "[]"]) (auto simp: run_guarded_def)
  next
    case True
    then obtain u where u: "u < length ms" "\<And>r. pcs ! u \<noteq> Finished r" by blast
    obtain t where t: "guard_step ms t s \<noteq> s"
      using guard_no_deadlock [OF less.prems [unfolded s] u] s by auto
    obtain more g' rs where m: "length more \<le> sum_list (map steps_left (snd (guard_step ms t s)))"
      and r: "run_guarded ms more (guard_step ms t s) = (g', map Finished rs)"
      using less.hyps [OF guard_step_progress [OF t] guard_inv_step [OF less.prems]] by auto
    have "run_guarded ms (t # more) s = (g', map Finished rs)" using r by (simp add: run_guarded_def)
    moreover have "length (t # more) \<le> sum_list (map steps_left (snd s))"
      using m guard_step_progress [OF t] by simp
    ultimately show ?thesis by (intro exI conjI)
  qed
qed

lemma steps_left_bound: "sum_list (map steps_left pcs) \<le> 4 * length pcs"
proof (induction pcs)
  case (Cons pc pcs)
  have "steps_left pc \<le> 4" by (cases pc) simp_all
  with Cons show ?case by simp
qed simp

lemma guard_can_finish:
  "\<exists>more g rs. length more \<le> 4 * length ms
     \<and> run_guarded ms (sched @ more) (guard_start ms v0) = (g, map Finished rs)"
proof -
  let ?s = "run_guarded ms sched (guard_start ms v0)"
  have inv: "guard_inv ms v0 (effects ms sched (guard_start ms v0)) ?s" by (rule guard_inv_reached)
  then have "length (snd ?s) = length ms" by (simp add: guard_inv_def)
  then have "sum_list (map steps_left (snd ?s)) \<le> 4 * length ms" using steps_left_bound by metis
  moreover obtain more g rs where "length more \<le> sum_list (map steps_left (snd ?s))"
    "run_guarded ms more ?s = (g, map Finished rs)"
    using guard_finishes [OF inv] by auto
  ultimately show ?thesis
    by (intro exI [of _ more] exI [of _ g] exI [of _ rs]) (simp add: run_guarded_def)
qed

section \<open>synctools/dataguard.go\<close>

text \<open>A callback's other effects are its result \<open>'r\<close>.\<close>

definition NewDataGuard :: "'v \<Rightarrow> 'v guarded" where
  "NewDataGuard val = unlocked val"

definition DataGuard_Load :: "('v \<Rightarrow> 'r) \<Rightarrow> ('v, 'r) critical" where
  "DataGuard_Load cb = RSection cb"

definition DataGuard_CopyValue :: "('v, 'v) critical" where
  "DataGuard_CopyValue = RSection (\<lambda>value. value)"

definition DataGuard_Store :: "('v \<Rightarrow> 'v \<times> 'r) \<Rightarrow> ('v, 'r) critical" where
  "DataGuard_Store cb = WSection cb"

section \<open>synctools/buffer.go\<close>

datatype buffer_result = BufBytes bytes | BufWrote nat | BufDone

definition Buffer_Bytes :: "(bytes, buffer_result) critical" where
  "Buffer_Bytes = RSection BufBytes"

definition Buffer_Write :: "bytes \<Rightarrow> (bytes, buffer_result) critical" where
  "Buffer_Write p = WSection (\<lambda>b. (b @ p, BufWrote (length p)))"

definition Buffer_Reset :: "(bytes, buffer_result) critical" where
  "Buffer_Reset = WSection (\<lambda>_. ([], BufDone))"

text \<open>
  Concurrent calls on a buffer: \<open>Bytes\<close> returns what was written before it since the last reset
  before it, in the order of the writes.
\<close>

datatype buffer_call = CallBytes | CallWrite bytes | CallReset

fun buffer_method :: "buffer_call \<Rightarrow> (bytes, buffer_result) critical" where
  "buffer_method CallBytes = Buffer_Bytes"
| "buffer_method (CallWrite p) = Buffer_Write p"
| "buffer_method CallReset = Buffer_Reset"

fun written :: "buffer_call \<Rightarrow> bytes" where
  "written (CallWrite p) = p"
| "written c = []"

definition since_reset :: "buffer_call list \<Rightarrow> buffer_call list" where
  "since_reset cs = rev (takeWhile (\<lambda>c. c \<noteq> CallReset) (rev cs))"

lemma since_reset_snoc: "since_reset (cs @ [c]) = (if c = CallReset then [] else since_reset cs @ [c])"
  by (simp add: since_reset_def)

lemma buffer_after:
  "set order \<subseteq> {..<length calls} \<Longrightarrow>
     value_after (map buffer_method calls) order [] = concat (map written (since_reset (map ((!) calls) order)))"
proof (induction order rule: rev_induct)
  case Nil
  then show ?case by (simp add: since_reset_def)
next
  case (snoc t order)
  then show ?case
    by (cases "calls ! t")
      (simp_all add: since_reset_snoc Buffer_Bytes_def Buffer_Write_def Buffer_Reset_def)
qed

lemma Buffer_concurrent:
  assumes "run_guarded (map buffer_method calls) sched (guard_start (map buffer_method calls) [])
      = (g, map Finished rs)"
    and "order = effects (map buffer_method calls) sched (guard_start (map buffer_method calls) [])"
    and "t < length calls" and "calls ! t = CallBytes"
  shows "rs ! t = BufBytes (concat (map written (since_reset (map ((!) calls) (earlier t order)))))"
proof -
  note fin = guard_all_finished [OF assms(1,2), unfolded length_map]
  have "set (earlier t order) \<subseteq> {..<length calls}"
    using fin(2) earlier_subset [of t order] by simp
  then show ?thesis
    using fin(5) [OF assms(3)] assms(3,4) by (simp add: result_in_def buffer_after Buffer_Bytes_def)
qed

section \<open>future/future.go\<close>

text \<open>
  The ready channel is a flag: open or closed. A setter and \<open>Get\<close> return the value they set or
  read; \<open>Ready\<close> only hands out the channel.
\<close>

record 'a Future =
  fut_ready :: bool
  fut_val :: 'a

type_synonym 'a future_result = "(unit, 'a) go"

definition set_twice :: "'a future_result" where
  "set_twice = Inl (Panic (Panicked ''Tried to set a future twice!''))"

definition get_early :: "'a future_result" where
  "get_early = Inl (Panic (Panicked ''Future's Get() called before value was ready.''))"

definition Future_New :: "'a \<Rightarrow> 'a Future guarded" where
  "Future_New zero = unlocked \<lparr>fut_ready = False, fut_val = zero\<rparr>"

definition Future_set :: "'a \<Rightarrow> ('a Future, 'a future_result) critical" where
  "Future_set val = WSection (\<lambda>f.
     if fut_ready f then (f, set_twice)
     else (f\<lparr>fut_val := val, fut_ready := True\<rparr>, Inr val))"

definition Future_Ready :: "'a Future guarded \<Rightarrow> bool" where
  "Future_Ready g = fut_ready (g_value g)"

definition Future_Get :: "('a Future, 'a future_result) critical" where
  "Future_Get = RSection (\<lambda>f.
     if fut_ready f then Inr (fut_val f)
     else get_early)"

datatype 'a future_call = CallSet 'a | CallGet

fun future_method :: "'a future_call \<Rightarrow> ('a Future, 'a future_result) critical" where
  "future_method (CallSet v) = Future_set v"
| "future_method CallGet = Future_Get"

text \<open>The values of the setters among some of the calls, in their order.\<close>

definition set_values :: "'a future_call list \<Rightarrow> nat list \<Rightarrow> 'a list" where
  "set_values calls order =
     concat (map (\<lambda>t. case calls ! t of CallSet v \<Rightarrow> [v] | CallGet \<Rightarrow> []) order)"

lemma set_values_simps [simp]:
  "set_values calls [] = []"
  "set_values calls (t # order) = (case calls ! t of CallSet v \<Rightarrow> [v] | CallGet \<Rightarrow> []) @ set_values calls order"
  "set_values calls (xs @ ys) = set_values calls xs @ set_values calls ys"
  by (simp_all add: set_values_def)

definition future_state :: "'a \<Rightarrow> 'a list \<Rightarrow> 'a Future" where
  "future_state zero vs = (case vs of
     [] \<Rightarrow> \<lparr>fut_ready = False, fut_val = zero\<rparr> | v # _ \<Rightarrow> \<lparr>fut_ready = True, fut_val = v\<rparr>)"

lemma future_state_simps [simp]:
  "future_state zero [] = \<lparr>fut_ready = False, fut_val = zero\<rparr>"
  "future_state zero (v # vs) = \<lparr>fut_ready = True, fut_val = v\<rparr>"
  by (simp_all add: future_state_def)

lemma future_after:
  assumes "set order \<subseteq> {..<length calls}"
  shows "value_after (map future_method calls) order (future_state zero []) = future_state zero (set_values calls order)"
  using assms
proof (induction order rule: rev_induct)
  case Nil
  then show ?case by simp
next
  case (snoc t order)
  then have "map future_method calls ! t = future_method (calls ! t)" by simp
  then show ?case
    using snoc by (cases "calls ! t"; cases "set_values calls order") (auto simp: Future_set_def Future_Get_def)
qed

lemma future_result:
  assumes "set order = {..<length calls}" and "t < length calls"
  shows "result_in (map future_method calls) order (future_state zero []) t =
    critical_result (future_method (calls ! t)) (future_state zero (set_values calls (earlier t order)))"
proof -
  have "value_after (map future_method calls) (earlier t order) (future_state zero [])
      = future_state zero (set_values calls (earlier t order))"
    using earlier_subset [of t order] assms(1) by (intro future_after) blast
  then show ?thesis using assms(2) by (simp add: result_in_def)
qed

text \<open>The first setter of an order.\<close>

lemma first_setter:
  "set_values calls order = v # vs \<Longrightarrow>
     \<exists>pre t post. order = pre @ t # post \<and> set_values calls pre = [] \<and> calls ! t = CallSet v"
proof (induction order)
  case Nil
  then show ?case by simp
next
  case (Cons u order)
  show ?case
  proof (cases "calls ! u")
    case (CallSet w)
    then show ?thesis using Cons.prems by (intro exI [of _ "[]"]) auto
  next
    case CallGet
    then obtain pre t post where "order = pre @ t # post" "set_values calls pre = []" "calls ! t = CallSet v"
      using Cons by auto
    then show ?thesis using CallGet by (intro exI [of _ "u # pre"]) auto
  qed
qed

lemma no_setter: "set_values calls order = [] \<Longrightarrow> t \<in> set order \<Longrightarrow> calls ! t = CallGet"
  by (induction order) (auto split: future_call.splits)

lemma earlier_prefix: "\<exists>ys. order = earlier t order @ ys"
  by (metis earlier_def takeWhile_dropWhile_id)

section \<open>Properties\<close>

text \<open>
  C11: methods that guard a value with the mutex are linearizable and do not deadlock: however the
  steps of concurrent calls (reading or writing, each with its own lock, read, store and unlock
  steps) interleave, at most four further steps for each call bring all of them to their end; and
  once all have finished the lock is free and there is an order of the calls such that the value
  and every result are those of running them one after the other. The order respects real time:
  a call that had finished when another one had not started precedes it.
\<close>

theorem guarded_linearizable:
  "(\<exists>more g rs. length more \<le> 4 * length ms
      \<and> run_guarded ms (sched @ more) (NewDataGuard v0, replicate (length ms) Waiting) = (g, map Finished rs))
   \<and> (\<forall>g rs. run_guarded ms sched (NewDataGuard v0, replicate (length ms) Waiting) = (g, map Finished rs) \<longrightarrow>
       (\<exists>order. distinct order \<and> set order = {..<length ms} \<and> g = NewDataGuard (value_after ms order v0)
          \<and> length rs = length ms \<and> (\<forall>t < length ms. rs ! t = result_in ms order v0 t)
          \<and> (\<forall>before after t u r. sched = before @ after \<and> t < length ms \<and> u < length ms
               \<and> snd (run_guarded ms before (NewDataGuard v0, replicate (length ms) Waiting)) ! t = Finished r
               \<and> snd (run_guarded ms before (NewDataGuard v0, replicate (length ms) Waiting)) ! u = Waiting
               \<longrightarrow> t \<in> set (earlier u order))))"
  (is "?finish \<and> (\<forall>g rs. ?run g rs \<longrightarrow> ?linear g rs)")
proof -
  have start: "(NewDataGuard v0, replicate (length ms) Waiting) = guard_start ms v0"
    by (simp add: NewDataGuard_def guard_start_def)
  have "?linear g rs" if "?run g rs" for g rs
  proof -
    note all = guard_all_finished [OF that [unfolded start] HOL.refl]
    have "t \<in> set (earlier u (effects ms sched (guard_start ms v0)))"
      if "sched = before @ after" "t < length ms" "u < length ms"
        "snd (run_guarded ms before (guard_start ms v0)) ! t = Finished r"
        "snd (run_guarded ms before (guard_start ms v0)) ! u = Waiting" for before after t u r
      using guard_real_time [of t ms u before after v0 r] all(2) that by auto
    then show ?thesis
      unfolding start by (intro exI [of _ "effects ms sched (guard_start ms v0)"])
        (use all in \<open>auto simp: NewDataGuard_def\<close>)
  qed
  moreover have ?finish unfolding start by (rule guard_can_finish)
  ultimately show ?thesis by blast
qed

theorem guarded_linearizable_witness:
  "\<exists>order. distinct order \<and> set order = {..<2} \<and>
    value_after [DataGuard_Store (\<lambda>v. (v + 1, v)), DataGuard_Store (\<lambda>v. (2 * v, v :: int))] order 5 = 12"
proof -
  let ?ms = "[DataGuard_Store (\<lambda>v. (v + 1, v)), DataGuard_Store (\<lambda>v. (2 * v, v :: int))]"
  let ?sched = "[0, 1, 0, 1, 0, 0, 1, 1, 1, 1] :: nat list"
  have run: "run_guarded ?ms ?sched (NewDataGuard 5, replicate (length ?ms) Waiting)
      = (NewDataGuard 12, map Finished [5, 6])"
    by (simp add: run_guarded_def guard_step_def NewDataGuard_def unlocked_def DataGuard_Store_def
        numeral_2_eq_2)
  show ?thesis
    using guarded_linearizable [of ?ms ?sched 5, THEN conjunct2, rule_format, OF run]
    by (auto simp: NewDataGuard_def unlocked_def numeral_2_eq_2)
qed

text \<open>The setter that wins, and what the others and \<open>Get\<close> see, in an order of the calls.\<close>

lemma one_setter_wins:
  assumes "distinct order" and "set order = {..<length calls}" and "CallSet w \<in> set calls"
  shows "\<exists>!t. t < length calls \<and> (\<exists>v. calls ! t = CallSet v) \<and> set_values calls (earlier t order) = []"
proof -
  from assms(3) obtain u where "u < length calls" "calls ! u = CallSet w" by (metis in_set_conv_nth)
  then have "set_values calls order \<noteq> []" using no_setter [of calls order u] assms(2) by force
  then obtain v vs where "set_values calls order = v # vs" by (cases "set_values calls order") auto
  from first_setter [OF this] obtain pre t post where o: "order = pre @ t # post"
    and pre: "set_values calls pre = []" and t: "calls ! t = CallSet v" by blast
  have "t \<notin> set pre" using assms(1) unfolding o by simp
  then have e: "earlier t order = pre" unfolding o by (subst earlier_def, subst takeWhile_append2) auto
  have l: "t < length calls" using assms(2) o by auto
  have only: "u = t" if "calls ! u = CallSet x" "set_values calls (earlier u order) = []" for u x
  proof (rule ccontr)
    assume "u \<noteq> t"
    have "u \<notin> set pre" using no_setter [OF pre, of u] that by force
    then have "earlier u order = pre @ t # earlier u post"
      using \<open>u \<noteq> t\<close> unfolding o by (subst earlier_def, subst takeWhile_append2) (auto simp: earlier_def)
    then show False using that t by simp
  qed
  show ?thesis
  proof (rule ex1I [of _ t])
    show "t < length calls \<and> (\<exists>v. calls ! t = CallSet v) \<and> set_values calls (earlier t order) = []"
      using l t pre e by simp
    show "u = t" if "u < length calls \<and> (\<exists>v. calls ! u = CallSet v) \<and> set_values calls (earlier u order) = []" for u
      using that only by blast
  qed
qed

lemma one_setter_returns:
  assumes "distinct order" and "set order = {..<length calls}" and "CallSet w \<in> set calls"
    and "\<And>t. t < length calls \<Longrightarrow> rs ! t = (case (calls ! t, set_values calls (earlier t order)) of
          (CallSet v, []) \<Rightarrow> Inr v | (CallSet v, _ # _) \<Rightarrow> set_twice
        | (CallGet, []) \<Rightarrow> get_early | (CallGet, v # _) \<Rightarrow> Inr v)"
  shows "\<exists>!t. t < length calls \<and> (\<exists>v. calls ! t = CallSet v \<and> rs ! t = Inr v)"
proof -
  have "t < length calls \<and> (\<exists>v. calls ! t = CallSet v \<and> rs ! t = Inr v) \<longleftrightarrow>
      t < length calls \<and> (\<exists>v. calls ! t = CallSet v) \<and> set_values calls (earlier t order) = []" for t
    using assms(4) [of t] by (auto simp: set_twice_def split: list.splits)
  then show ?thesis using one_setter_wins [OF assms(1-3)] by simp
qed

lemma future_reached:
  "g_value (fst (run_guarded (map future_method calls) sched (guard_start (map future_method calls) (future_state zero []))))
     = future_state zero (set_values calls (effects (map future_method calls) sched
         (guard_start (map future_method calls) (future_state zero []))))"
proof -
  let ?ms = "map future_method calls"
  have "guard_inv ?ms (future_state zero []) (effects ?ms sched (guard_start ?ms (future_state zero [])))
      (run_guarded ?ms sched (guard_start ?ms (future_state zero [])))"
    by (rule guard_inv_reached)
  then have "set (effects ?ms sched (guard_start ?ms (future_state zero []))) \<subseteq> {..<length calls}"
    and "g_value (fst (run_guarded ?ms sched (guard_start ?ms (future_state zero []))))
      = value_after ?ms (effects ?ms sched (guard_start ?ms (future_state zero []))) (future_state zero [])"
    by (simp_all add: guard_inv_def)
  then show ?thesis using future_after by metis
qed

text \<open>What was ready before a call started is ready, with the same value, when the call takes effect.\<close>

lemma ready_stays:
  assumes "fut_ready (g_value (fst (run_guarded (map future_method calls) before
      (guard_start (map future_method calls) (future_state zero [])))))"
    and "u < length calls"
    and "snd (run_guarded (map future_method calls) before
      (guard_start (map future_method calls) (future_state zero []))) ! u = Waiting"
    and "order = effects (map future_method calls) (before @ after) (guard_start (map future_method calls) (future_state zero []))"
  shows "\<exists>v vs ws. set_values calls order = v # vs \<and> set_values calls (earlier u order) = v # ws"
proof -
  let ?ms = "map future_method calls"
  define s0 where "s0 = guard_start ?ms (future_state zero [])"
  define taken where "taken = effects ?ms before s0"
  define rest where "rest = effects ?ms after (run_guarded ?ms before s0)"
  have "u \<notin> set taken"
    using guard_waiting_not_done [of u ?ms before "future_state zero []"] assms(2,3)
    by (simp add: taken_def s0_def)
  then have "earlier u (taken @ rest) = taken @ earlier u rest"
    by (auto simp: earlier_def takeWhile_append)
  moreover have "order = taken @ rest"
    using assms(4) by (simp add: effects_append taken_def rest_def s0_def)
  moreover have "set_values calls taken \<noteq> []"
    using assms(1) unfolding future_reached by (auto simp: taken_def s0_def)
  ultimately show ?thesis by (cases "set_values calls taken") simp_all
qed

text \<open>
  C12: a future is written once. However concurrent calls of its setter and of \<open>Get\<close> interleave,
  there is an order of them that respects real time (a call that had finished when another one
  had not started precedes it) such that the first setter returns and sets its value, and every
  later setter panics; a \<open>Get\<close> after it returns that value, and a \<open>Get\<close> before any setter panics. At
  the end the lock is free and the future holds the first setter's value, or is not ready if there
  was none. If any setter was called exactly one returns. A \<open>Get\<close> that starts when the channel
  \<open>Ready\<close> is closed returns the value, and never panics.
\<close>

theorem Future_written_once:
  assumes "run_guarded (map future_method calls) sched (Future_New zero, replicate (length calls) Waiting)
    = (g, map Finished rs)"
  shows "\<exists>order. distinct order \<and> set order = {..<length calls}
    \<and> (\<forall>before after t u r. sched = before @ after \<and> t < length calls \<and> u < length calls
         \<and> snd (run_guarded (map future_method calls) before (Future_New zero, replicate (length calls) Waiting)) ! t = Finished r
         \<and> snd (run_guarded (map future_method calls) before (Future_New zero, replicate (length calls) Waiting)) ! u = Waiting
         \<longrightarrow> t \<in> set (earlier u order))
    \<and> (\<forall>t < length calls. rs ! t = (case (calls ! t, set_values calls (earlier t order)) of
          (CallSet v, []) \<Rightarrow> Inr v | (CallSet v, _ # _) \<Rightarrow> set_twice
        | (CallGet, []) \<Rightarrow> get_early | (CallGet, v # _) \<Rightarrow> Inr v))
    \<and> g = unlocked (case set_values calls order of
          [] \<Rightarrow> \<lparr>fut_ready = False, fut_val = zero\<rparr> | v # _ \<Rightarrow> \<lparr>fut_ready = True, fut_val = v\<rparr>)
    \<and> ((\<exists>v. CallSet v \<in> set calls) \<longrightarrow>
         (\<exists>!t. t < length calls \<and> (\<exists>v. calls ! t = CallSet v \<and> rs ! t = Inr v)))
    \<and> (\<forall>before after u. sched = before @ after \<and> u < length calls \<and> calls ! u = CallGet
         \<and> Future_Ready (fst (run_guarded (map future_method calls) before (Future_New zero, replicate (length calls) Waiting)))
         \<and> snd (run_guarded (map future_method calls) before (Future_New zero, replicate (length calls) Waiting)) ! u = Waiting
         \<longrightarrow> rs ! u = Inr (fut_val (g_value g)))"
proof -
  let ?ms = "map future_method calls" and ?s = "guard_start (map future_method calls) (future_state zero [])"
  have start: "(Future_New zero, replicate (length calls) Waiting) = ?s"
    by (simp add: Future_New_def guard_start_def)
  define order where "order = effects ?ms sched ?s"
  note all = guard_all_finished [OF assms [unfolded start] order_def, unfolded length_map]
  have val: "g = unlocked (future_state zero (set_values calls order))"
    using all(2,3) future_after [of order calls zero] by simp
  have rs: "rs ! t = (case (calls ! t, set_values calls (earlier t order)) of
          (CallSet v, []) \<Rightarrow> Inr v | (CallSet v, _ # _) \<Rightarrow> set_twice
        | (CallGet, []) \<Rightarrow> get_early | (CallGet, v # _) \<Rightarrow> Inr v)" if "t < length calls" for t
    using all(5) [OF that] future_result [OF all(2) that, of zero]
    by (simp add: Future_set_def Future_Get_def split: future_call.split list.split)
  have real_time: "t \<in> set (earlier u order)"
    if "sched = before @ after" "t < length calls" "u < length calls"
      "snd (run_guarded ?ms before ?s) ! t = Finished r" "snd (run_guarded ?ms before ?s) ! u = Waiting" for before after t u r
    using guard_real_time [of t ?ms u before after "future_state zero []" r] all(2) that by (auto simp: order_def)
  have ready: "rs ! u = Inr (fut_val (g_value g))"
    if "sched = before @ after" "u < length calls" "calls ! u = CallGet"
      "Future_Ready (fst (run_guarded ?ms before ?s))" "snd (run_guarded ?ms before ?s) ! u = Waiting" for before after u
    using ready_stays [of calls before zero u order after] rs [of u] that val
    by (auto simp: Future_Ready_def order_def unlocked_def)
  have end_val: "g = unlocked (case set_values calls order of
          [] \<Rightarrow> \<lparr>fut_ready = False, fut_val = zero\<rparr> | v # _ \<Rightarrow> \<lparr>fut_ready = True, fut_val = v\<rparr>)"
    using val by (simp add: future_state_def)
  have real_time': "\<forall>before after t u r. sched = before @ after \<and> t < length calls \<and> u < length calls
      \<and> snd (run_guarded ?ms before ?s) ! t = Finished r \<and> snd (run_guarded ?ms before ?s) ! u = Waiting
      \<longrightarrow> t \<in> set (earlier u order)"
    by (intro allI impI) (elim conjE, rule real_time)
  have ready': "\<forall>before after u. sched = before @ after \<and> u < length calls \<and> calls ! u = CallGet
      \<and> Future_Ready (fst (run_guarded ?ms before ?s)) \<and> snd (run_guarded ?ms before ?s) ! u = Waiting
      \<longrightarrow> rs ! u = Inr (fut_val (g_value g))"
    by (intro allI impI) (elim conjE, rule ready)
  have one': "(\<exists>v. CallSet v \<in> set calls) \<longrightarrow>
      (\<exists>!t. t < length calls \<and> (\<exists>v. calls ! t = CallSet v \<and> rs ! t = Inr v))"
    by (intro impI) (elim exE, rule one_setter_returns [OF all(1,2) _ rs])
  show ?thesis
    unfolding start
    by (rule exI [of _ order], intro conjI; (rule all real_time' end_val one' ready' | intro allI impI, erule rs))
qed

theorem Future_written_once_witness:
  "\<exists>order. distinct order \<and> set order = {..<3} \<and> 0 \<in> set (earlier 1 order)
   \<and> run_guarded (map future_method [CallSet 7, CallGet, CallSet 8]) [0, 0, 0, 0, 1, 2, 1, 1, 2, 2, 2, 2]
       (Future_New (0 :: int), replicate 3 Waiting)
     = (unlocked \<lparr>fut_ready = True, fut_val = 7\<rparr>, map Finished [Inr 7, Inr 7, set_twice])"
proof -
  let ?calls = "[CallSet 7, CallGet, CallSet (8 :: int)]"
  let ?rs = "[Inr 7, Inr 7, set_twice]"
  let ?s = "(Future_New (0 :: int), replicate (length ?calls) Waiting)"
  have run: "run_guarded (map future_method ?calls) [0, 0, 0, 0, 1, 2, 1, 1, 2, 2, 2, 2] ?s
      = (unlocked \<lparr>fut_ready = True, fut_val = 7\<rparr>, map Finished ?rs)"
    by (simp add: run_guarded_def guard_step_def Future_New_def unlocked_def Future_set_def Future_Get_def
        numeral_2_eq_2 numeral_3_eq_3)
  have first: "run_guarded (map future_method ?calls) [0, 0, 0, 0] ?s
      = (unlocked \<lparr>fut_ready = True, fut_val = 7\<rparr>, [Finished (Inr 7), Waiting, Waiting])"
    by (simp add: run_guarded_def guard_step_def Future_New_def unlocked_def Future_set_def
        numeral_2_eq_2 numeral_3_eq_3)
  obtain order where order: "distinct order" "set order = {..<length ?calls}"
    and rt: "\<forall>before after t u r. [0, 0, 0, 0, 1, 2, 1, 1, 2, 2, 2, 2] = before @ after \<and> t < length ?calls \<and> u < length ?calls
         \<and> snd (run_guarded (map future_method ?calls) before ?s) ! t = Finished r
         \<and> snd (run_guarded (map future_method ?calls) before ?s) ! u = Waiting \<longrightarrow> t \<in> set (earlier u order)"
    using Future_written_once [OF run] by (elim exE conjE)
  have "0 \<in> set (earlier 1 order)"
    by (rule rt [rule_format, of "[0, 0, 0, 0]" "[1, 2, 1, 1, 2, 2, 2, 2]" _ _ "Inr 7"], unfold first) simp
  moreover have "length ?calls = 3" by simp
  ultimately show ?thesis using order run unfolding \<open>length ?calls = 3\<close> by blast
qed

end
