(* ===== verification/History.thy ===== *)
theory History
  imports Guarded
begin

text \<open>
  \<open>history/history.go\<close>: a queue whose entries expire. A time is an integer number of
  nanoseconds, which the environment reads inside the critical section; the time to live is an
  int64 \<open>time.Duration\<close>, whose negation wraps. The methods are critical sections of \<open>Guarded\<close>.
\<close>

section \<open>The code\<close>

record 'a Log =
  log_at :: int
  log_datum :: 'a

record 'a History =
  h_ttl :: i64
  h_logs :: "'a Log list"

definition History_New :: "i64 \<Rightarrow> 'a History" where
  "History_New ttl = \<lparr>h_ttl = ttl, h_logs = []\<rparr>"

text \<open>The loop of \<open>getFirstValidIdxWhileLocked\<close> over the entries from index \<open>i\<close> on.\<close>

fun first_valid :: "int \<Rightarrow> 'a Log list \<Rightarrow> nat \<Rightarrow> nat" where
  "first_valid cutoff [] i = i"
| "first_valid cutoff (logItem # ls) i =
     (if log_at logItem < cutoff then first_valid cutoff ls (i + 1) else i)"

definition getFirstValidIdxWhileLocked :: "'a History \<Rightarrow> int \<Rightarrow> nat" where
  "getFirstValidIdxWhileLocked h now = (let cutoff = now + sint (- h_ttl h) in first_valid cutoff (h_logs h) 0)"

definition reapWhileLocked :: "'a History \<Rightarrow> int \<Rightarrow> 'a History" where
  "reapWhileLocked h now = h\<lparr>h_logs := drop (getFirstValidIdxWhileLocked h now) (h_logs h)\<rparr>"

definition History_Get :: "int \<Rightarrow> 'a History \<Rightarrow> 'a Log list" where
  "History_Get now h = drop (getFirstValidIdxWhileLocked h now) (h_logs h)"

definition History_Add :: "int \<Rightarrow> 'a \<Rightarrow> 'a History \<Rightarrow> 'a History \<times> nat" where
  "History_Add now datum h =
     (let h = reapWhileLocked h now; h = h\<lparr>h_logs := h_logs h @ [\<lparr>log_at = now, log_datum = datum\<rparr>]\<rparr>
      in (h, length (h_logs h)))"

definition SumLogs :: "('a :: {zero, plus}) Log list \<Rightarrow> 'a" where
  "SumLogs l = foldl (\<lambda>sum log. sum + log_datum log) 0 l"

text \<open>The two methods as the mutex runs them.\<close>

definition Get_method :: "int \<Rightarrow> ('a History, 'a Log list + nat) critical" where
  "Get_method now = RSection (\<lambda>h. Inl (History_Get now h))"

definition Add_method :: "int \<Rightarrow> 'a \<Rightarrow> ('a History, 'a Log list + nat) critical" where
  "Add_method now datum = WSection (\<lambda>h. (fst (History_Add now datum h), Inr (snd (History_Add now datum h))))"

section \<open>The window of live entries\<close>

text \<open>Everything that was ever added, and the entries of it that are live at \<open>now\<close>.\<close>

definition added :: "(int \<times> 'a) list \<Rightarrow> 'a Log list" where
  "added adds = map (\<lambda>(t, d). \<lparr>log_at = t, log_datum = d\<rparr>) adds"

definition live :: "i64 \<Rightarrow> int \<Rightarrow> 'a Log list \<Rightarrow> 'a Log list" where
  "live ttl now ls = filter (\<lambda>l. now - sint ttl \<le> log_at l) ls"

definition run_adds :: "i64 \<Rightarrow> (int \<times> 'a) list \<Rightarrow> 'a History" where
  "run_adds ttl adds = fold (\<lambda>(t, d) h. fst (History_Add t d h)) adds (History_New ttl)"

lemma first_valid_from: "first_valid c ls i = i + first_valid c ls 0"
proof (induction ls arbitrary: i)
  case Nil
  then show ?case by simp
next
  case (Cons l ls)
  show ?case using Cons.IH [of "i + 1"] Cons.IH [of 1] by (cases "log_at l < c") simp_all
qed

text \<open>On entries in the order of their times, dropping the stale prefix keeps the live entries.\<close>

lemma drop_first_valid:
  "sorted (map log_at ls) \<Longrightarrow> drop (first_valid c ls 0) ls = filter (\<lambda>l. c \<le> log_at l) ls"
proof (induction ls)
  case Nil
  then show ?case by simp
next
  case (Cons l ls)
  show ?case
  proof (cases "log_at l < c")
    case True
    then show ?thesis using Cons first_valid_from [of c ls 1] by simp
  next
    case False
    then have "\<forall>x \<in> set ls. c \<le> log_at x" using Cons.prems by auto
    then show ?thesis using False by (simp add: filter_id_conv)
  qed
qed

lemma sint_uminus:
  assumes "0 \<le> sint (x :: i64)"
  shows "sint (- x) = - sint x"
proof -
  have "sint (word_of_int (- sint x) :: i64) = - sint x"
    using assms sint_less [of x] by (intro sint_of_int_64) auto
  moreover have "(word_of_int (- sint x) :: i64) = - x"
    by (simp only: wi_hom_neg [symmetric]) (metis scast_eq scast_id)
  ultimately show ?thesis by simp
qed

lemma live_twice: "t \<le> now \<Longrightarrow> live ttl now (live ttl t ls) = live ttl now ls"
  by (induction ls) (auto simp: live_def)

lemma live_append [simp]: "live ttl now (xs @ ys) = live ttl now xs @ live ttl now ys"
  by (simp add: live_def)

lemma sorted_live: "sorted (map log_at ls) \<Longrightarrow> sorted (map log_at (live ttl now ls))"
  unfolding live_def by (rule sorted_filter)

text \<open>What the queue holds after additions at nondecreasing times.\<close>

lemma run_adds_logs:
  assumes "0 \<le> sint ttl" and "sorted (map fst adds)" and "adds \<noteq> []"
  shows "run_adds ttl adds = \<lparr>h_ttl = ttl, h_logs = live ttl (fst (last adds)) (added adds)\<rparr>"
  using assms(2,3)
proof (induction adds rule: rev_induct)
  case Nil
  then show ?case by simp
next
  case (snoc f adds)
  obtain t d where f: "f = (t, d)" by (cases f)
  have now: "live ttl t [\<lparr>log_at = t, log_datum = d\<rparr>] = [\<lparr>log_at = t, log_datum = d\<rparr>]"
    using assms(1) by (simp add: live_def)
  have reap: "reapWhileLocked h t = h\<lparr>h_logs := live ttl t (h_logs h)\<rparr>"
    if "h_ttl h = ttl" "sorted (map log_at (h_logs h))" for h :: "'a History"
    using that sint_uminus [OF assms(1)]
    by (simp add: reapWhileLocked_def getFirstValidIdxWhileLocked_def drop_first_valid live_def)
  show ?case
  proof (cases "adds = []")
    case True
    then show ?thesis
      using now by (simp add: f run_adds_def History_New_def History_Add_def added_def reap Let_def)
        (simp add: live_def)
  next
    case False
    have s: "sorted (map fst adds)" "fst (last adds) \<le> t"
      using snoc.prems(1) False by (auto simp: f sorted_append)
    have "sorted (map log_at (added adds))"
      using s(1) by (simp add: added_def comp_def split_def)
    then have "sorted (map log_at (live ttl (fst (last adds)) (added adds)))" by (rule sorted_live)
    moreover have "run_adds ttl (adds @ [f]) = fst (History_Add t d (run_adds ttl adds))"
      by (simp add: run_adds_def f)
    ultimately show ?thesis
      using snoc.IH [OF s(1) False] now live_twice [OF s(2), of ttl "added adds"]
      by (simp add: History_Add_def reap Let_def f) (simp add: added_def)
  qed
qed

text \<open>
  After additions at nondecreasing times, \<open>Get\<close> at a later time returns, in the order they were
  added, the entries whose age is at most the time to live; entries dropped by earlier additions
  would not be among them. \<open>Add\<close> returns how many entries are live, the new one included.
\<close>

lemma History_window:
  assumes "0 \<le> sint ttl" and "sorted (map fst adds @ [now])"
  shows "History_Get now (run_adds ttl adds) = live ttl now (added adds)
    \<and> snd (History_Add now d (run_adds ttl adds)) = length (live ttl now (added (adds @ [(now, d)])))"
proof -
  have Get: "History_Get now (run_adds ttl adds) = live ttl now (added adds)"
  proof (cases "adds = []")
    case True
    then show ?thesis
      by (simp add: run_adds_def History_New_def History_Get_def getFirstValidIdxWhileLocked_def added_def live_def)
  next
    case False
    have s: "sorted (map fst adds)" "fst (last adds) \<le> now" using assms(2) False by (auto simp: sorted_append)
    have "sorted (map log_at (live ttl (fst (last adds)) (added adds)))"
      using s(1) by (intro sorted_live) (simp add: added_def comp_def split_def)
    then show ?thesis
      using run_adds_logs [OF assms(1) s(1) False] live_twice [OF s(2), of ttl "added adds"] sint_uminus [OF assms(1)]
      by (simp add: History_Get_def getFirstValidIdxWhileLocked_def drop_first_valid) (simp add: live_def)
  qed
  moreover have "snd (History_Add now d h) = Suc (length (History_Get now h))" for h
    by (simp add: History_Add_def History_Get_def reapWhileLocked_def Let_def)
  moreover have "length (live ttl now (added (adds @ [(now, d)]))) = Suc (length (live ttl now (added adds)))"
    using assms(1) by (simp add: added_def) (simp add: live_def)
  ultimately show ?thesis by simp
qed

section \<open>Concurrent calls\<close>

text \<open>A call carries the reading of the clock that it makes while it holds the lock.\<close>

datatype 'a history_call = GetCall int | AddCall int 'a

fun history_method :: "'a history_call \<Rightarrow> ('a History, 'a Log list + nat) critical" where
  "history_method (GetCall now) = Get_method now"
| "history_method (AddCall now datum) = Add_method now datum"

fun call_time :: "'a history_call \<Rightarrow> int" where
  "call_time (GetCall now) = now"
| "call_time (AddCall now datum) = now"

text \<open>The additions among some of the calls, in their order.\<close>

definition adds_of :: "'a history_call list \<Rightarrow> nat list \<Rightarrow> (int \<times> 'a) list" where
  "adds_of calls order =
     concat (map (\<lambda>t. case calls ! t of AddCall now d \<Rightarrow> [(now, d)] | GetCall now \<Rightarrow> []) order)"

lemma adds_of_simps [simp]:
  "adds_of calls [] = []"
  "adds_of calls (xs @ ys) = adds_of calls xs @ adds_of calls ys"
  "adds_of calls (t # ts) = (case calls ! t of AddCall now d \<Rightarrow> [(now, d)] | GetCall now \<Rightarrow> []) @ adds_of calls ts"
  by (simp_all add: adds_of_def)

lemma adds_of_times: "x \<in> set (adds_of calls order) \<Longrightarrow> fst x \<in> set (map (\<lambda>t. call_time (calls ! t)) order)"
proof (induction order)
  case (Cons t order)
  then show ?case by (cases "calls ! t") auto
qed simp

lemma adds_of_sorted:
  "sorted (map (\<lambda>t. call_time (calls ! t)) order) \<Longrightarrow> sorted (map fst (adds_of calls order))"
proof (induction order)
  case (Cons t order)
  then show ?case
    using adds_of_times [of _ calls order] by (cases "calls ! t") force+
qed simp

lemma history_after:
  "set order \<subseteq> {..<length calls} \<Longrightarrow>
     value_after (map history_method calls) order (History_New ttl) = run_adds ttl (adds_of calls order)"
proof (induction order rule: rev_induct)
  case Nil
  then show ?case by (simp add: run_adds_def)
next
  case (snoc t order)
  then show ?case
    by (cases "calls ! t") (simp_all add: Get_method_def Add_method_def run_adds_def)
qed

section \<open>Properties\<close>

text \<open>
  C16: a history that goroutines share is a window of live entries: however concurrent calls of
  \<open>Get\<close> and \<open>Add\<close> interleave, if their readings of the clock do not decrease in the order in
  which they take effect, then every \<open>Get\<close> returns exactly the entries added before it whose age
  is at most the time to live, in the order they were added, whatever earlier additions dropped;
  every \<open>Add\<close> returns how many entries are live, its own included. An addition that finished
  before a call started is among those added before it.
\<close>

theorem History_concurrent_window:
  assumes "0 \<le> sint ttl"
    and "run_guarded (map history_method calls) sched (guard_start (map history_method calls) (History_New ttl))
      = (g, map Finished rs)"
    and "order = effects (map history_method calls) sched (guard_start (map history_method calls) (History_New ttl))"
    and "sorted (map (\<lambda>t. call_time (calls ! t)) order)"
    and "u < length calls"
  shows "rs ! u = (case calls ! u of
      GetCall now \<Rightarrow> Inl (live ttl now (added (adds_of calls (earlier u order))))
    | AddCall now d \<Rightarrow> Inr (length (live ttl now (added (adds_of calls (earlier u order) @ [(now, d)])))))
    \<and> (\<forall>before after t r. sched = before @ after \<and> t < length calls
        \<and> snd (run_guarded (map history_method calls) before
            (guard_start (map history_method calls) (History_New ttl))) ! t = Finished r
        \<and> snd (run_guarded (map history_method calls) before
            (guard_start (map history_method calls) (History_New ttl))) ! u = Waiting
        \<longrightarrow> t \<in> set (earlier u order))"
proof -
  note fin = guard_all_finished [OF assms(2,3), unfolded length_map]
  have u: "u \<in> set order" using fin(2) assms(5) by simp
  obtain rest where split: "order = earlier u order @ u # rest"
    using u unfolding earlier_def
    by (metis (mono_tags, lifting) dropWhile_eq_Cons_conv dropWhile_eq_Nil_conv list.exhaust takeWhile_dropWhile_id)
  let ?adds = "adds_of calls (earlier u order)"
  have "sorted (map (\<lambda>t. call_time (calls ! t)) (earlier u order @ u # rest))"
    using assms(4) split by simp
  then have times: "sorted (map fst ?adds)" "\<forall>x \<in> set ?adds. fst x \<le> call_time (calls ! u)"
    using adds_of_sorted [of calls "earlier u order"] adds_of_times [of _ calls "earlier u order"]
    by (fastforce simp: sorted_append)+
  then have window: "sorted (map fst ?adds @ [call_time (calls ! u)])" by (auto simp: sorted_append)
  have "rs ! u = critical_result (history_method (calls ! u)) (run_adds ttl ?adds)"
    using fin(5) [OF assms(5)] assms(5) fin(2) earlier_subset [of u order]
    by (simp add: result_in_def history_after)
  then have "rs ! u = (case calls ! u of
      GetCall now \<Rightarrow> Inl (live ttl now (added ?adds))
    | AddCall now d \<Rightarrow> Inr (length (live ttl now (added (?adds @ [(now, d)])))))"
    using History_window [OF assms(1) window]
    by (cases "calls ! u") (simp_all add: Get_method_def Add_method_def)
  moreover have "t \<in> set (earlier u order)"
    if "sched = before @ after \<and> t < length calls \<and>
      snd (run_guarded (map history_method calls) before
        (guard_start (map history_method calls) (History_New ttl))) ! t = Finished r \<and>
      snd (run_guarded (map history_method calls) before
        (guard_start (map history_method calls) (History_New ttl))) ! u = Waiting" for before after t r
    using guard_real_time [of t "map history_method calls" u before after "History_New ttl" r]
      that assms(3,5) u by simp
  ultimately show ?thesis by blast
qed

theorem History_concurrent_window_witness:
  "\<exists>rs. run_guarded (map history_method [AddCall 1 (5 :: int), GetCall 17, AddCall 7 6])
      [0, 0, 0, 2, 0, 2, 2, 2, 2, 1, 1, 1]
      (guard_start (map history_method [AddCall 1 5, GetCall 17, AddCall 7 6]) (History_New 10))
      = (unlocked (run_adds 10 [(1, 5), (7, 6)]), map Finished rs)
    \<and> rs ! 1 = Inl [\<lparr>log_at = 7, log_datum = 6\<rparr>]"
proof -
  let ?calls = "[AddCall 1 (5 :: int), GetCall 17, AddCall 7 6]"
  let ?sched = "[0, 0, 0, 2, 0, 2, 2, 2, 2, 1, 1, 1] :: nat list"
  let ?rs = "[Inr 1, Inl [\<lparr>log_at = 7, log_datum = 6\<rparr>], Inr 2]"
  let ?s = "guard_start (map history_method ?calls) (History_New 10)"
  have run: "run_guarded (map history_method ?calls) ?sched ?s
      = (unlocked (run_adds 10 [(1, 5), (7, 6)]), map Finished ?rs)"
    by code_simp
  have order: "effects (map history_method ?calls) ?sched ?s = [0, 2, 1]" by code_simp
  show ?thesis
    using History_concurrent_window [OF _ run order [symmetric], of 1] run
    by (intro exI [of _ ?rs]) (simp add: numeral_2_eq_2 live_def added_def earlier_def)
qed

end
