(* ===== verification/Go_Option.thy ===== *)
theory Go_Option
  imports Bson_Core
begin

text \<open>
  The \<open>option\<close> package: \<open>option.go\<close>, \<open>validate.go\<close>, \<open>bson.go\<close> and \<open>json.go\<close>. Nil is modelled as the
  language defines it, on the values themselves; what \<open>reflect\<close> says of a value is computed from
  it. The BSON and JSON codecs of a type are parameters, the driver's codec for pointers is
  translated from the vendored source. The names of HOL's own option type are taken, so the
  operations carry the prefix \<open>Option_\<close>.
\<close>

section \<open>Go values and nil\<close>

datatype reference = NilRef | Ref

text \<open>
  What matters of a value here: its kind, and whether it is nil. An interface value has a dynamic
  value or is nil; \<open>PlainV\<close> is a value of a kind that has no nil (a number, string, array, struct).
\<close>

datatype go_value =
    ChanV reference | FuncV reference | MapV reference | PointerV reference | SliceV reference
  | UnsafePointerV reference
  | InterfaceV "go_value option"
  | PlainV

text \<open>\<open>v == nil\<close>.\<close>

fun is_nil :: "go_value \<Rightarrow> bool" where
  "is_nil (ChanV r) \<longleftrightarrow> r = NilRef"
| "is_nil (FuncV r) \<longleftrightarrow> r = NilRef"
| "is_nil (MapV r) \<longleftrightarrow> r = NilRef"
| "is_nil (PointerV r) \<longleftrightarrow> r = NilRef"
| "is_nil (SliceV r) \<longleftrightarrow> r = NilRef"
| "is_nil (UnsafePointerV r) \<longleftrightarrow> r = NilRef"
| "is_nil (InterfaceV d) \<longleftrightarrow> d = None"
| "is_nil PlainV \<longleftrightarrow> False"

text \<open>Nil, or an interface around a nil: \<open>any(nil)\<close>, \<open>any([]int(nil))\<close>.\<close>

fun nil_inside :: "go_value \<Rightarrow> bool" where
  "nil_inside (InterfaceV (Some v)) \<longleftrightarrow> is_nil v"
| "nil_inside v \<longleftrightarrow> is_nil v"

fun is_unsafe :: "go_value \<Rightarrow> bool" where
  "is_unsafe (UnsafePointerV r) \<longleftrightarrow> True"
| "is_unsafe (InterfaceV (Some (UnsafePointerV r))) \<longleftrightarrow> True"
| "is_unsafe v \<longleftrightarrow> False"

section \<open>reflect\<close>

datatype kind = Chan | Func | Interface | MapKind | Pointer | Slice | UnsafePointer | OtherKind

text \<open>
  \<open>reflect.ValueOf\<close> takes an \<open>any\<close>, so it sees the dynamic value of an interface, and an invalid
  value (\<open>None\<close>) for the nil interface. \<open>Value.IsNil\<close> panics on a kind that has no nil.
\<close>

fun reflect_ValueOf :: "go_value \<Rightarrow> go_value option" where
  "reflect_ValueOf (InterfaceV d) = d"
| "reflect_ValueOf v = Some v"

fun reflect_Kind :: "go_value \<Rightarrow> kind" where
  "reflect_Kind (ChanV r) = Chan"
| "reflect_Kind (FuncV r) = Func"
| "reflect_Kind (MapV r) = MapKind"
| "reflect_Kind (PointerV r) = Pointer"
| "reflect_Kind (SliceV r) = Slice"
| "reflect_Kind (UnsafePointerV r) = UnsafePointer"
| "reflect_Kind (InterfaceV d) = Interface"
| "reflect_Kind PlainV = OtherKind"

definition reflect_IsNil :: "go_value \<Rightarrow> bool res" where
  "reflect_IsNil v =
     (if reflect_Kind v = OtherKind then Inl (Panic (Panicked ''reflect: call of reflect.Value.IsNil''))
      else Inr (is_nil v))"

text \<open>A Go type, with its values in a HOL type \<open>'a\<close>.\<close>

record 'a go_type =
  static_kind :: kind                     \<comment> \<open>\<open>reflect.TypeFor[T]().Kind()\<close>\<close>
  as_value :: "'a \<Rightarrow> go_value"
  value_IsZero :: "'a \<Rightarrow> bool"            \<comment> \<open>\<open>reflect.ValueOf(&val).Elem().IsZero()\<close>\<close>
  zero_value :: 'a

text \<open>
  What the compiler guarantees: a value of a type has the kind of the type. Unsafe pointers are
  excluded, \<open>Option_holds_nil_unsafe\<close> below shows why.
\<close>

definition go_type_ok :: "'a go_type \<Rightarrow> bool" where
  "go_type_ok T \<longleftrightarrow> (\<forall>v. reflect_Kind (as_value T v) = static_kind T \<and> \<not> is_unsafe (as_value T v))"

section \<open>validate.go\<close>

definition nilableKinds :: "kind list" where
  "nilableKinds = [Chan, Func, Interface, MapKind, Pointer, Slice]"

definition isNil :: "'a go_type \<Rightarrow> 'a \<Rightarrow> bool res" where
  "isNil T val =
     (if static_kind T \<in> set nilableKinds then
        (case reflect_ValueOf (as_value T val) of
           None \<Rightarrow> Inr True
         | Some rVal \<Rightarrow> if reflect_Kind rVal \<in> set nilableKinds then reflect_IsNil rVal else Inr False)
      else Inr False)"

text \<open>The reflection finds exactly the nils of the language, and never panics.\<close>

lemma isNil_eq:
  assumes "go_type_ok T"
  shows "isNil T v = Inr (nil_inside (as_value T v))"
proof -
  have T: "reflect_Kind (as_value T v) = static_kind T" "\<not> is_unsafe (as_value T v)"
    using assms by (simp_all add: go_type_ok_def)
  show ?thesis
  proof (cases "as_value T v")
    case (InterfaceV d)
    show ?thesis
    proof (cases d)
      case (Some x)
      then show ?thesis using T InterfaceV by (cases x) (auto simp: isNil_def nilableKinds_def reflect_IsNil_def)
    qed (use T InterfaceV in \<open>auto simp: isNil_def nilableKinds_def\<close>)
  qed (use T in \<open>auto simp: isNil_def nilableKinds_def reflect_IsNil_def\<close>)
qed

section \<open>option.go\<close>

record 'a Option =
  isSet :: bool
  opt_val :: 'a

definition Option_Some :: "'a go_type \<Rightarrow> 'a \<Rightarrow> 'a Option res" where
  "Option_Some T value = go_bind (isNil T value) (\<lambda>nil.
     if nil then Inl (Panic (Panicked ''Option forbids nil value''))
     else Inr \<lparr>isSet = True, opt_val = value\<rparr>)"

definition Option_None :: "'a go_type \<Rightarrow> 'a Option" where
  "Option_None T = \<lparr>isSet = False, opt_val = zero_value T\<rparr>"

definition NoneOf :: "'a go_type \<Rightarrow> 'a \<Rightarrow> 'a Option" where
  "NoneOf T v = Option_None T"

text \<open>A pointer is what it points to, \<open>None\<close> is nil.\<close>

definition FromPointer :: "'a go_type \<Rightarrow> 'a option \<Rightarrow> 'a Option res" where
  "FromPointer T valPtr = (case valPtr of
     None \<Rightarrow> Inr (Option_None T)
   | Some v \<Rightarrow> go_bind (isNil T v) (\<lambda>nil.
       if nil then Inl (Panic (Panicked ''refers to nil, which is forbidden.''))
       else Inr \<lparr>isSet = True, opt_val = v\<rparr>))"

definition IfNotZero :: "'a go_type \<Rightarrow> 'a \<Rightarrow> 'a Option res" where
  "IfNotZero T value = (if value_IsZero T value then Inr (Option_None T) else Option_Some T value)"

definition Option_Get :: "'a go_type \<Rightarrow> 'a Option \<Rightarrow> 'a \<times> bool" where
  "Option_Get T opt = (if \<not> isSet opt then (zero_value T, False) else (opt_val opt, True))"

definition MustGet :: "'a go_type \<Rightarrow> 'a Option \<Rightarrow> 'a res" where
  "MustGet T opt = (let (val, exists) = Option_Get T opt in
     if \<not> exists then Inl (Panic (Panicked ''must be nonempty!'')) else Inr val)"

definition MustGetf :: "'a go_type \<Rightarrow> string \<Rightarrow> 'a Option \<Rightarrow> 'a res" where
  "MustGetf T message opt = (let (val, exists) = Option_Get T opt in
     if \<not> exists then Inl (Panic (Panicked message)) else Inr val)"

definition OrZero :: "'a go_type \<Rightarrow> 'a Option \<Rightarrow> 'a" where
  "OrZero T opt = (let (val, exists) = Option_Get T opt in if exists then val else zero_value T)"

definition OrElse :: "'a go_type \<Rightarrow> 'a Option \<Rightarrow> 'a \<Rightarrow> 'a" where
  "OrElse T opt fallback = (let (val, exists) = Option_Get T opt in if exists then val else fallback)"

definition ToNone :: "'a go_type \<Rightarrow> 'a Option \<Rightarrow> 'a Option" where
  "ToNone T opt = Option_None T"

definition ToPointer :: "'a go_type \<Rightarrow> 'a Option \<Rightarrow> 'a option" where
  "ToPointer T opt = (let (val, exists) = Option_Get T opt in if exists then Some val else None)"

definition IsNone :: "'a Option \<Rightarrow> bool" where
  "IsNone opt \<longleftrightarrow> \<not> isSet opt"

definition IsSome :: "'a Option \<Rightarrow> bool" where
  "IsSome opt \<longleftrightarrow> isSet opt"

definition Option_Map :: "'a go_type \<Rightarrow> 'b go_type \<Rightarrow> 'a Option \<Rightarrow> ('a \<Rightarrow> 'b) \<Rightarrow> 'b Option res" where
  "Option_Map T V opt f = (let (t, has) = Option_Get T opt in
     if has then Option_Some V (f t) else Inr (Option_None V))"

section \<open>The driver's codec for pointers\<close>


definition pointer_DecodeValue :: "(byte \<Rightarrow> bytes \<Rightarrow> 'a res) \<Rightarrow> byte \<Rightarrow> bytes \<Rightarrow> 'a option res" where
  "pointer_DecodeValue dec bType raw =
     (if bType = TypeNull then Inr None
      else if bType = TypeUndefined then Inr None
      else go_bind (dec bType raw) (\<lambda>v. Inr (Some v)))"



section \<open>bson.go and json.go\<close>

text \<open>
  \<open>bson.MarshalValue\<close> encodes the value as the codec of its type does; \<open>bson.UnmarshalValue\<close> is given
  a pointer to the pointer \<open>valPtr\<close>, so it decodes with the codec for pointers, and what that leaves
  may be nil; \<open>*valPtr\<close> then panics. \<open>json.Marshal\<close> and \<open>json.Unmarshal\<close> at the type of the value
  are \<open>enc\<close> and \<open>dec\<close>.
\<close>

definition MarshalBSONValue ::
  "'a go_type \<Rightarrow> ('a \<Rightarrow> (byte \<times> bytes) res) \<Rightarrow> 'a Option \<Rightarrow> (byte \<times> bytes) res" where
  "MarshalBSONValue T enc opt = (let (val, exists) = Option_Get T opt in
     if exists then enc val else Inr (TypeNull, []))"

definition UnmarshalBSONValue ::
  "'a go_type \<Rightarrow> (byte \<Rightarrow> bytes \<Rightarrow> 'a res) \<Rightarrow> byte \<Rightarrow> bytes \<Rightarrow> 'a Option \<Rightarrow> 'a Option res" where
  "UnmarshalBSONValue T dec bType raw opt =
     (if bType = TypeNull then Inr (opt\<lparr>isSet := False\<rparr>)
      else go_bind (wrap_err (Wrapped ''unmarshal'') (pointer_DecodeValue dec bType raw)) (\<lambda>valPtr.
        case valPtr of
          None \<Rightarrow> Inl (Panic (Panicked ''nil pointer dereference''))
        | Some val \<Rightarrow> go_bind (isNil T val) (\<lambda>nil.
            if nil then Inl (Err (Errorf ''refuse to unmarshal nil value''))
            else Inr (opt\<lparr>opt_val := val, isSet := True\<rparr>))))"

definition Option_IsZero :: "'a Option \<Rightarrow> bool" where
  "Option_IsZero opt = IsNone opt"

definition MarshalJSON :: "'a go_type \<Rightarrow> ('a \<Rightarrow> bytes res) \<Rightarrow> 'a Option \<Rightarrow> bytes res" where
  "MarshalJSON T enc opt = (let (val, exists) = Option_Get T opt in
     if exists then enc val else Inr (str ''null''))"

definition UnmarshalJSON :: "'a go_type \<Rightarrow> (bytes \<Rightarrow> 'a res) \<Rightarrow> bytes \<Rightarrow> 'a Option \<Rightarrow> 'a Option res" where
  "UnmarshalJSON T dec b opt =
     (if b = str ''null'' then Inr (opt\<lparr>isSet := False\<rparr>)
      else go_bind (dec b) (\<lambda>val. Inr (opt\<lparr>opt_val := val, isSet := True\<rparr>)))"

section \<open>The optional value behind an Option\<close>

definition contents :: "'a Option \<Rightarrow> 'a option" where
  "contents opt = (if isSet opt then Some (opt_val opt) else None)"

lemma contents_eval [simp]:
  "contents \<lparr>isSet = True, opt_val = v\<rparr> = Some v"
  "contents (Option_None T) = None"
  "contents (opt\<lparr>isSet := False\<rparr>) = None"
  "contents (opt\<lparr>opt_val := v, isSet := True\<rparr>) = Some v"
  by (simp_all add: contents_def Option_None_def)

lemma Option_Get_contents: "Option_Get T opt = (case contents opt of None \<Rightarrow> (zero_value T, False) | Some v \<Rightarrow> (v, True))"
  by (simp add: Option_Get_def contents_def)

lemmas option_defs = MustGet_def MustGetf_def OrZero_def OrElse_def ToPointer_def IsNone_def IsSome_def
  Option_Map_def MarshalBSONValue_def MarshalJSON_def Option_Get_contents

text \<open>The values a client can build with the package, its codecs aside.\<close>

inductive built :: "'a go_type \<Rightarrow> 'a Option \<Rightarrow> bool" for T where
  built_Some: "Option_Some T v = Inr opt \<Longrightarrow> built T opt"
| built_None: "built T (Option_None T)"
| built_NoneOf: "built T (NoneOf T v)"
| built_pointer: "FromPointer T p = Inr opt \<Longrightarrow> built T opt"
| built_IfNotZero: "IfNotZero T v = Inr opt \<Longrightarrow> built T opt"
| built_ToNone: "built T (ToNone T opt)"
| built_Map: "Option_Map S T (opt :: 'a Option) f = Inr opt' \<Longrightarrow> built T opt'"
| built_bson: "built T opt \<Longrightarrow> UnmarshalBSONValue T u t raw opt = Inr opt' \<Longrightarrow> built T opt'"

definition never_nil :: "'a go_type \<Rightarrow> 'a Option \<Rightarrow> bool" where
  "never_nil T opt \<longleftrightarrow> (\<forall>v. contents opt = Some v \<longrightarrow> \<not> nil_inside (as_value T v))"

lemma Option_Some_eq:
  "go_type_ok T \<Longrightarrow> Option_Some T v = Inr opt \<longleftrightarrow>
     \<not> nil_inside (as_value T v) \<and> opt = \<lparr>isSet = True, opt_val = v\<rparr>"
  by (auto simp: Option_Some_def isNil_eq)

lemma never_nil_Some: "go_type_ok T \<Longrightarrow> Option_Some T v = Inr opt \<Longrightarrow> never_nil T opt"
  by (auto simp: Option_Some_eq never_nil_def)

lemma never_nil_None: "never_nil T (Option_None T)"
  by (simp add: never_nil_def)

lemma built_never_nil: "built T opt \<Longrightarrow> go_type_ok T \<Longrightarrow> never_nil T opt"
proof (induction rule: built.induct)
  case (built_bson opt u t raw opt')
  then show ?case
    by (auto simp: UnmarshalBSONValue_def never_nil_def go_bind_eq_Inr isNil_eq split: if_splits option.splits)
qed (auto simp: never_nil_None never_nil_Some NoneOf_def ToNone_def IfNotZero_def FromPointer_def Option_Map_def
    Option_Get_def never_nil_def Option_Some_eq isNil_eq split: option.splits if_splits)

text \<open>\<open>Map\<close> from another type builds what \<open>Some\<close> and \<open>None\<close> build.\<close>

lemma built_Map_any: "Option_Map S T opt f = Inr opt' \<Longrightarrow> built T opt'"
  by (auto simp: Option_Map_def Option_Get_def split: if_splits intro: built.intros)

section \<open>Example types\<close>

text \<open>A slice of integers: the nil slice is \<open>None\<close>.\<close>

definition int_slice :: "int list option go_type" where
  "int_slice = \<lparr>static_kind = Slice, as_value = (\<lambda>v. SliceV (if v = None then NilRef else Ref)),
     value_IsZero = (\<lambda>v. v = None), zero_value = None\<rparr>"

lemma int_slice_ok: "go_type_ok int_slice"
  by (simp add: go_type_ok_def int_slice_def)

lemma int_slice_nil [simp]: "nil_inside (as_value int_slice v) \<longleftrightarrow> v = None"
  by (simp add: int_slice_def)

text \<open>\<open>unsafe.Pointer\<close>: an address, with zero for nil.\<close>

definition unsafe_pointer :: "int go_type" where
  "unsafe_pointer = \<lparr>static_kind = UnsafePointer, as_value = (\<lambda>v. UnsafePointerV (if v = 0 then NilRef else Ref)),
     value_IsZero = (\<lambda>v. v = 0), zero_value = 0\<rparr>"

section \<open>Properties\<close>

text \<open>
  An \<open>Option\<close> behaves as the optional value it stands for: the accessors read it or fall back
  (\<open>MustGet\<close> panics when it is empty), \<open>Map\<close> applies the function inside, and an option that holds
  no nil comes back from its own pointer.
\<close>

lemma Option_is_optional_value:
  assumes "go_type_ok T"
  shows "(IsSome opt \<longleftrightarrow> contents opt \<noteq> None) \<and> (IsNone opt \<longleftrightarrow> contents opt = None)
   \<and> (case contents opt of
        None \<Rightarrow> MustGet T opt = Inl (Panic (Panicked ''must be nonempty!''))
          \<and> OrZero T opt = zero_value T \<and> OrElse T opt fallback = fallback
          \<and> Option_Map T V opt f = Inr (Option_None V)
      | Some x \<Rightarrow> MustGet T opt = Inr x \<and> OrZero T opt = x \<and> OrElse T opt fallback = x
          \<and> Option_Map T V opt f = Option_Some V (f x))
   \<and> ToPointer T opt = contents opt
   \<and> (never_nil T opt \<longrightarrow> (\<exists>opt'. FromPointer T (ToPointer T opt) = Inr opt' \<and> contents opt' = contents opt))"
  using isNil_eq [OF assms]
  by (auto simp: Option_Some_def option_defs FromPointer_def never_nil_def Option_None_def contents_def)


text \<open>
  C13: an \<open>Option\<close> never holds nil, in the sense of the language: nothing that a client builds with
  the constructors, \<open>Map\<close> and BSON decoding, from any values and bytes and with any codec, holds a
  nil channel, function, interface, map, pointer or slice, or an interface around one. \<open>Some\<close> and
  \<open>FromPointer\<close> panic on exactly these and accept every other value. The type is any whose values
  have its kind and are not unsafe pointers.
\<close>

theorem Option_never_holds_nil:
  assumes "go_type_ok T"
  shows "(built T opt \<longrightarrow> (\<forall>v. contents opt = Some v \<longrightarrow> \<not> nil_inside (as_value T v)))
    \<and> Option_Some T v = (if nil_inside (as_value T v) then Inl (Panic (Panicked ''Option forbids nil value''))
        else Inr \<lparr>isSet = True, opt_val = v\<rparr>)
    \<and> FromPointer T (Some v) = (if nil_inside (as_value T v) then Inl (Panic (Panicked ''refers to nil, which is forbidden.''))
        else Inr \<lparr>isSet = True, opt_val = v\<rparr>)"
  using built_never_nil [OF _ assms] by (auto simp: never_nil_def Option_Some_def FromPointer_def isNil_eq [OF assms])

theorem Option_never_holds_nil_witness:
  "Option_Some int_slice None = Inl (Panic (Panicked ''Option forbids nil value''))
   \<and> Option_Some int_slice (Some []) = Inr \<lparr>isSet = True, opt_val = Some []\<rparr>
   \<and> (\<exists>opt. IfNotZero int_slice (Some [1]) = Inr opt \<and> contents opt \<noteq> Some None)"
proof -
  note C = Option_never_holds_nil [OF int_slice_ok]
  have "IfNotZero int_slice (Some [1]) = Inr \<lparr>isSet = True, opt_val = Some [1]\<rparr>"
    using C [of _ "Some [1]"] by (simp add: IfNotZero_def int_slice_def)
  with C [of _ None] C [of _ "Some []"] C [THEN conjunct1, rule_format, OF built_IfNotZero [OF this]] show ?thesis
    by auto
qed





section \<open>Where it goes wrong\<close>

text \<open>
  \<open>nilableKinds\<close> has no \<open>reflect.UnsafePointer\<close>, which has a nil too: \<open>Some(unsafe.Pointer(nil))\<close> is
  accepted.
\<close>

lemma Option_holds_nil_unsafe:
  "\<exists>opt v. Option_Some unsafe_pointer 0 = Inr opt \<and> contents opt = Some v \<and> is_nil (as_value unsafe_pointer v)"
  by (simp add: Option_Some_def isNil_def nilableKinds_def unsafe_pointer_def contents_def)

text \<open>
  The driver decodes BSON undefined into a pointer as nil. \<open>UnmarshalBSONValue\<close> expects that of
  null only, and dereferences the pointer.
\<close>

lemma UnmarshalBSON_undefined_panics:
  "UnmarshalBSONValue T dec TypeUndefined raw opt = Inl (Panic (Panicked ''nil pointer dereference''))"
  by (simp add: UnmarshalBSONValue_def pointer_DecodeValue_def)

text \<open>
  \<open>UnmarshalJSON\<close> has no check for nil: JSON null with a space around it, which a decoder
  reads as nil, makes an option that holds nil.
\<close>

lemma UnmarshalJSON_stores_nil:
  assumes "dec (str '' null'') = Inr None"
  shows "\<exists>opt'. UnmarshalJSON int_slice dec (str '' null'') opt = Inr opt' \<and> \<not> never_nil int_slice opt'"
  using assms by (simp add: UnmarshalJSON_def str_def never_nil_def)

end
