(* ===== verification/Go_Float_Arith.thy ===== *)
theory Go_Float_Arith
  imports Complex_Main Go_Float
begin

text \<open>
  Addition, division and rounding to integers of float64 values, and how far their results are
  from the exact ones. The value of \<open>Fin m e\<close> is the real number \<open>f64_val m e\<close>. The sign of a
  zero is dropped as in \<open>Go_Float\<close>, so division by zero gives the infinity of a positive zero.
\<close>

section \<open>The operations\<close>

fun f64_add :: "f64 \<Rightarrow> f64 \<Rightarrow> f64" where
  "f64_add (Fin m e) (Fin n f) = (let k = min e f in round_f64 (align m e k + align n f k) k)"
| "f64_add (Fin m e) (Infty neg) = Infty neg"
| "f64_add (Infty neg) (Fin m e) = Infty neg"
| "f64_add (Infty neg) (Infty neg') = (if neg = neg' then Infty neg else NaN)"
| "f64_add _ _ = NaN"

text \<open>
  A quotient is computed to at least 56 bits and a bit that says whether the rest is zero, so
  that rounding it is rounding the exact quotient.
\<close>

fun f64_div :: "f64 \<Rightarrow> f64 \<Rightarrow> f64" where
  "f64_div (Fin m e) (Fin n f) =
     (if n = 0 then (if m = 0 then NaN else Infty (m < 0))
      else let k = 108 + extra_bits (nat \<bar>n\<bar>); q = \<bar>m\<bar> * 2 ^ k div \<bar>n\<bar>;
             sticky = (if \<bar>m\<bar> * 2 ^ k mod \<bar>n\<bar> = 0 then 0 else 1)
           in round_f64 (sgn m * sgn n * (2 * q + sticky)) (e - f - int k - 1))"
| "f64_div (Fin m e) (Infty neg) = Fin 0 0"
| "f64_div (Infty neg) (Fin m e) = Infty (neg \<noteq> (m < 0))"
| "f64_div _ _ = NaN"

text \<open>\<open>math.Round\<close>: to the nearest integer, ties away from zero.\<close>

definition round_to_int :: "int \<Rightarrow> int \<Rightarrow> int" where
  "round_to_int m e =
     (if 0 \<le> e then m * 2 ^ nat e else sgn m * ((2 * \<bar>m\<bar> + 2 ^ nat (- e)) div (2 * 2 ^ nat (- e))))"

fun Round :: "f64 \<Rightarrow> f64" where
  "Round (Fin m e) = Fin (round_to_int m e) 0"
| "Round x = x"

section \<open>Rounding errors\<close>

definition f64_val :: "int \<Rightarrow> int \<Rightarrow> real" where
  "f64_val m e = of_int m * 2 powi e"

lemma f64_val_int [simp]: "f64_val m 0 = of_int m"
  by (simp add: f64_val_def)

lemma f64_val_abs: "\<bar>f64_val m e\<bar> = of_int \<bar>m\<bar> * 2 powi e"
  by (simp add: f64_val_def abs_mult)

lemma f64_val_shift: "f64_val (m * 2 ^ k) e = f64_val m (e + int k)"
  by (simp add: f64_val_def power_int_add)

lemma f64_val_add: "f64_val (m + n) e = f64_val m e + f64_val n e"
  by (simp add: f64_val_def distrib_right)

lemma f64_val_align: "k \<le> e \<Longrightarrow> f64_val (align m e k) k = f64_val m e"
  by (simp add: align_def f64_val_shift)

lemma extra_bits_lower: "0 < extra_bits a \<Longrightarrow> 2 ^ (52 + extra_bits a) \<le> a"
proof (induction a rule: extra_bits.induct)
  case (1 a)
  then have a: "\<not> a < 2 ^ 53" "extra_bits a = Suc (extra_bits (a div 2))"
    by (auto simp: extra_bits.simps [of a] split: if_splits)
  show ?case
  proof (cases "0 < extra_bits (a div 2)")
    case True
    then have "2 ^ (52 + extra_bits (a div 2)) \<le> a div 2" using 1 a by blast
    moreover have "2 * (a div 2) \<le> a" by simp
    ultimately show ?thesis unfolding a(2) add_Suc_right power_Suc by linarith
  qed (use a in simp)
qed

text \<open>The rounded significand, before it is tested for an infinity.\<close>

definition round_sig :: "int \<Rightarrow> nat \<Rightarrow> int" where
  "round_sig m k = (let q = \<bar>m\<bar> div 2 ^ k; r = \<bar>m\<bar> mod 2 ^ k
     in sgn m * (if 2 ^ k < 2 * r \<or> 2 * r = 2 ^ k \<and> odd q then q + 1 else q))"

definition drop_bits :: "int \<Rightarrow> int \<Rightarrow> nat" where
  "drop_bits m e = max (extra_bits (nat \<bar>m\<bar>)) (nat (- 1074 - e))"

lemma round_sig_close: "2 * \<bar>round_sig m k * 2 ^ k - m\<bar> \<le> 2 ^ k"
proof -
  define q r where "q = \<bar>m\<bar> div 2 ^ k" and "r = \<bar>m\<bar> mod 2 ^ k"
  have m: "\<bar>m\<bar> = q * 2 ^ k + r" "0 \<le> r" "r < 2 ^ k"
    using div_mult_mod_eq [of "\<bar>m\<bar>" "2 ^ k"] by (simp_all add: q_def r_def)
  define q' where "q' = (if 2 ^ k < 2 * r \<or> 2 * r = 2 ^ k \<and> odd q then q + 1 else q)"
  have "2 * \<bar>q' * 2 ^ k - \<bar>m\<bar>\<bar> \<le> 2 ^ k" using m by (auto simp: q'_def distrib_right)
  moreover have "\<bar>round_sig m k * 2 ^ k - m\<bar> = \<bar>q' * 2 ^ k - \<bar>m\<bar>\<bar>" if "m \<noteq> 0"
  proof -
    have "round_sig m k = sgn m * q'" by (simp add: round_sig_def q'_def q_def r_def Let_def)
    then have "round_sig m k * 2 ^ k - m = sgn m * (q' * 2 ^ k - \<bar>m\<bar>)"
      by (simp add: right_diff_distrib sgn_mult_abs)
    then show ?thesis using that by (simp add: abs_mult abs_sgn_eq)
  qed
  ultimately show ?thesis by (cases "m = 0") (simp_all add: round_sig_def)
qed

lemma round_sig_bound: "\<bar>round_sig m (drop_bits m e)\<bar> \<le> 2 ^ 53"
proof -
  let ?k = "drop_bits m e"
  have "extra_bits (nat \<bar>m\<bar>) \<le> ?k" by (simp add: drop_bits_def)
  then have "(2 :: nat) ^ (53 + extra_bits (nat \<bar>m\<bar>)) \<le> 2 ^ (53 + ?k)" by (intro power_increasing) simp_all
  then have "nat \<bar>m\<bar> < 2 ^ (53 + ?k)" using extra_bits_less [of "nat \<bar>m\<bar>"] by linarith
  then have "\<bar>m\<bar> < 2 ^ 53 * 2 ^ ?k"
    by (metis int_nat_eq abs_ge_zero of_nat_less_iff of_nat_power of_nat_numeral power_add)
  then have "\<bar>m\<bar> div 2 ^ ?k < 2 ^ 53" by (simp only: div_less_iff zero_less_power zero_less_numeral)
  then show ?thesis
    by (auto simp: round_sig_def Let_def abs_mult abs_sgn_eq pos_imp_zdiv_nonneg_iff)
qed

lemma round_f64_sig:
  "round_f64 m e = (if 2 ^ 1024 \<le> \<bar>round_sig m (drop_bits m e)\<bar> * 2 ^ nat (e + int (drop_bits m e))
     then Infty (m < 0) else Fin (round_sig m (drop_bits m e)) (e + int (drop_bits m e)))"
proof -
  define k where "k = drop_bits m e"
  define q' where "q' = (if 2 ^ k < 2 * (\<bar>m\<bar> mod 2 ^ k) \<or> 2 * (\<bar>m\<bar> mod 2 ^ k) = 2 ^ k \<and> odd (\<bar>m\<bar> div 2 ^ k)
    then \<bar>m\<bar> div 2 ^ k + 1 else \<bar>m\<bar> div 2 ^ k)"
  have "round_f64 m e = (if 2 ^ 1024 \<le> q' * 2 ^ nat (e + int k) then Infty (m < 0) else Fin (sgn m * q') (e + int k))"
    by (simp only: round_f64_def Let_def k_def q'_def drop_bits_def)
  moreover have "round_sig m k = sgn m * q'" by (simp only: round_sig_def Let_def q'_def)
  moreover have "\<bar>sgn m * q'\<bar> = q'"
  proof (cases "m = 0")
    case False
    have "0 \<le> q'" by (auto simp: q'_def pos_imp_zdiv_nonneg_iff)
    then show ?thesis using False by (simp add: abs_mult abs_sgn_eq)
  qed (simp add: q'_def)
  ultimately show ?thesis by (simp add: k_def)
qed

text \<open>Half of the smallest positive float64.\<close>

definition tiny :: real where
  "tiny = 2 powi (- 1075)"

lemma tiny_bounds: "0 \<le> tiny" "tiny \<le> 1 / 2 ^ 100"
proof -
  have "(2 :: real) powi (- 1075) \<le> 2 powi (- 100)" by (rule power_int_increasing) simp_all
  moreover have "(2 :: real) powi (- 100) = 1 / 2 ^ 100" unfolding power_int_minus_divide by (simp only: power_int_numeral)
  ultimately show "tiny \<le> 1 / 2 ^ 100" unfolding tiny_def by linarith
  show "0 \<le> tiny" unfolding tiny_def by (rule zero_le_power_int) simp
qed

lemma round_error:
  "\<bar>f64_val (round_sig m (drop_bits m e)) (e + int (drop_bits m e)) - f64_val m e\<bar>
     \<le> \<bar>f64_val m e\<bar> / 2 ^ 53 + tiny"
proof -
  define k where "k = drop_bits m e"
  define d where "d = \<bar>round_sig m k * 2 ^ k - m\<bar>"
  have "f64_val (round_sig m k) (e + int k) - f64_val m e = f64_val (round_sig m k * 2 ^ k - m) e"
    by (simp add: f64_val_shift [symmetric]) (simp add: f64_val_def left_diff_distrib)
  then have err: "\<bar>f64_val (round_sig m k) (e + int k) - f64_val m e\<bar> = of_int d * 2 powi e"
    by (simp add: f64_val_abs d_def)
  have d: "2 * d \<le> 2 ^ k" by (simp add: d_def round_sig_close)
  then have d': "of_int d \<le> (2 :: real) ^ k / 2" using of_int_le_iff [of "2 * d" "2 ^ k", where 'a = real] by simp
  consider "k = 0" | "0 < k" "k = extra_bits (nat \<bar>m\<bar>)" | "0 < k" "int k = - 1074 - e"
  proof -
    have "k = extra_bits (nat \<bar>m\<bar>) \<or> k = nat (- 1074 - e)" by (simp add: k_def drop_bits_def max_def)
    then show thesis using that by (cases "k = 0") auto
  qed
  then show ?thesis unfolding k_def [symmetric] err
  proof cases
    case 1
    moreover have "0 \<le> d" by (simp add: d_def)
    ultimately have "d = 0" using d by simp
    then show "of_int d * 2 powi e \<le> \<bar>f64_val m e\<bar> / 2 ^ 53 + tiny" using tiny_bounds(1) by simp
  next
    case 2
    have "2 ^ (52 + k) \<le> nat \<bar>m\<bar>" using extra_bits_lower [of "nat \<bar>m\<bar>"] 2 by simp
    then have "2 ^ (52 + k) \<le> \<bar>m\<bar>" by (metis abs_ge_zero int_nat_eq of_nat_le_iff of_nat_numeral of_nat_power)
    then have "(2 :: real) ^ (52 + k) \<le> of_int \<bar>m\<bar>" using of_int_le_iff [of "2 ^ (52 + k)" "\<bar>m\<bar>", where 'a = real] by simp
    then have "of_int d \<le> of_int \<bar>m\<bar> / (2 :: real) ^ 53" using d' by (simp add: power_add)
    then have "of_int d * 2 powi e \<le> of_int \<bar>m\<bar> / (2 :: real) ^ 53 * 2 powi e" by (intro mult_right_mono) auto
    then show "of_int d * 2 powi e \<le> \<bar>f64_val m e\<bar> / 2 ^ 53 + tiny"
      unfolding f64_val_abs times_divide_eq_left using tiny_bounds(1) by linarith
  next
    case 3
    have "of_int d * 2 powi e \<le> (2 :: real) ^ k / 2 * 2 powi e" using d' by (intro mult_right_mono) auto
    also have "\<dots> = 2 powi (e + int k - 1)" by (simp add: power_int_add power_int_diff)
    also have "e + int k - 1 = - 1075" using 3 by simp
    also have "2 powi (- 1075) = tiny" by (simp only: tiny_def)
    finally show "of_int d * 2 powi e \<le> \<bar>f64_val m e\<bar> / 2 ^ 53 + tiny"
      using divide_nonneg_nonneg [OF abs_ge_zero [of "f64_val m e"], of "2 ^ 53"] zero_le_power [of "2 :: real" 53]
      by linarith
  qed
qed

text \<open>A number of moderate size is rounded to a float64 close by.\<close>

lemma round_f64_close:
  assumes small: "\<bar>f64_val m e\<bar> \<le> 2 ^ 100"
  shows "\<exists>p q. round_f64 m e = Fin p q \<and> \<bar>f64_val p q - f64_val m e\<bar> \<le> \<bar>f64_val m e\<bar> / 2 ^ 53 + tiny"
proof -
  define p q where "p = round_sig m (drop_bits m e)" and "q = e + int (drop_bits m e)"
  have err: "\<bar>f64_val p q - f64_val m e\<bar> \<le> \<bar>f64_val m e\<bar> / 2 ^ 53 + tiny"
    unfolding p_def q_def by (rule round_error)
  have "\<bar>p\<bar> * 2 ^ nat q < 2 ^ 102"
  proof (cases "0 \<le> q")
    case True
    have "tiny \<le> 1" using tiny_bounds(2) by simp
    moreover have "\<bar>f64_val m e\<bar> / 2 ^ 53 \<le> 2 ^ 100" using small by simp
    ultimately have "\<bar>f64_val p q\<bar> \<le> 2 ^ 100 + 2 ^ 100 + 1" using err small by linarith
    then have "of_int \<bar>p\<bar> * (2 :: real) ^ nat q < 2 ^ 102"
      using True by (simp add: f64_val_abs power_int_def)
    then have "of_int (\<bar>p\<bar> * 2 ^ nat q) < (of_int (2 ^ 102) :: real)" by simp
    then show ?thesis by (simp only: of_int_less_iff)
  next
    case False
    then have "nat q = 0" by simp
    moreover have "\<bar>p\<bar> \<le> 2 ^ 53" unfolding p_def by (rule round_sig_bound)
    ultimately show ?thesis by simp
  qed
  moreover have "(2 :: int) ^ 102 < 2 ^ 1024" by (rule power_strict_increasing) simp_all
  ultimately have "\<not> 2 ^ 1024 \<le> \<bar>p\<bar> * 2 ^ nat q" by linarith
  then have "round_f64 m e = Fin p q" unfolding round_f64_sig p_def [symmetric] q_def [symmetric] by simp
  then show ?thesis using err by blast
qed

lemma round_moderate:
  assumes small: "\<bar>f64_val m e\<bar> \<le> 2 ^ 40"
  shows "\<exists>p q. round_f64 m e = Fin p q \<and> \<bar>f64_val p q - f64_val m e\<bar> \<le> 1 / 2 ^ 12"
proof -
  have "\<bar>f64_val m e\<bar> \<le> 2 ^ 100" using small by simp
  from round_f64_close [OF this] obtain p q where pq: "round_f64 m e = Fin p q"
    and err: "\<bar>f64_val p q - f64_val m e\<bar> \<le> \<bar>f64_val m e\<bar> / 2 ^ 53 + tiny" by blast
  have "\<bar>f64_val m e\<bar> / 2 ^ 53 \<le> 1 / 2 ^ 13" using small by simp
  then have "\<bar>f64_val p q - f64_val m e\<bar> \<le> 1 / 2 ^ 12" using err tiny_bounds(2) by simp
  then show ?thesis using pq by blast
qed

lemma f64_add_close:
  assumes small: "\<bar>f64_val m e + f64_val n f\<bar> \<le> 2 ^ 40"
  shows "\<exists>p q. f64_add (Fin m e) (Fin n f) = Fin p q \<and> \<bar>f64_val p q - (f64_val m e + f64_val n f)\<bar> \<le> 1 / 2 ^ 12"
proof -
  let ?k = "min e f"
  have v: "f64_val (align m e ?k + align n f ?k) ?k = f64_val m e + f64_val n f"
    by (simp add: f64_val_add f64_val_align)
  from round_moderate [of "align m e ?k + align n f ?k" ?k, unfolded v, OF small]
  show ?thesis by (simp add: Let_def)
qed

lemma f64_mul_close:
  assumes small: "\<bar>f64_val m e * f64_val n f\<bar> \<le> 2 ^ 40"
  shows "\<exists>p q. f64_mul (Fin m e) (Fin n f) = Fin p q \<and> \<bar>f64_val p q - f64_val m e * f64_val n f\<bar> \<le> 1 / 2 ^ 12"
proof -
  have v: "f64_val (m * n) (e + f) = f64_val m e * f64_val n f"
    by (simp add: f64_val_def power_int_add)
  from round_moderate [of "m * n" "e + f", unfolded v, OF small] show ?thesis by simp
qed

text \<open>The quotient of two integers.\<close>

lemma sticky_close:
  assumes n: "0 < (N :: int)"
  shows "\<bar>(2 * (A div N) + (if A mod N = 0 then 0 else 1)) * N - 2 * A\<bar> \<le> N"
proof -
  define Q R s where "Q = A div N" and "R = A mod N" and "s = (if R = 0 then 0 else 1 :: int)"
  have A: "A = Q * N + R" by (simp add: Q_def R_def)
  have R: "0 \<le> R" "R < N" using n by (simp_all add: R_def)
  have "(2 * Q + s) * N - 2 * A = s * N - 2 * R" by (simp add: A algebra_simps)
  also have "\<bar>\<dots>\<bar> \<le> N" using R by (auto simp: s_def)
  finally show ?thesis by (simp only: Q_def R_def s_def)
qed

lemma f64_div_close:
  assumes n: "n \<noteq> 0" and small: "\<bar>of_int m / of_int n :: real\<bar> \<le> 2 ^ 39"
  shows "\<exists>p q. f64_div (Fin m 0) (Fin n 0) = Fin p q \<and> \<bar>f64_val p q - of_int m / of_int n\<bar> \<le> 1 / 2 ^ 11"
proof -
  define k where "k = 108 + extra_bits (nat \<bar>n\<bar>)"
  define A where "A = \<bar>m\<bar> * 2 ^ k"
  define W where "W = 2 * (A div \<bar>n\<bar>) + (if A mod \<bar>n\<bar> = 0 then 0 else 1)"
  define M where "M = sgn m * sgn n * W"
  define u :: real where "u = 2 powi (- int k - 1)"
  have u: "2 * 2 ^ k * u = 1" "0 < u" "u \<le> 1 / 2 ^ 13"
  proof -
    have "- int k - 1 = - int (Suc k)" by simp
    then have "u = 1 / 2 powi int (Suc k)" unfolding u_def by (simp only: power_int_minus_divide)
    then have "u = 1 / (2 * 2 ^ k)" by (simp only: power_int_of_nat power_Suc)
    then show "2 * 2 ^ k * u = 1" "0 < u" by simp_all
    have "(2 :: real) powi (- int k - 1) \<le> 2 powi (- 13)" by (rule power_int_increasing) (simp_all add: k_def)
    then show "u \<le> 1 / 2 ^ 13" unfolding u_def power_int_minus_divide [of 2 13] by simp
  qed
  have div: "f64_div (Fin m 0) (Fin n 0) = round_f64 M (- int k - 1)"
    using n by (simp add: M_def W_def A_def k_def Let_def)
  have "\<bar>W * \<bar>n\<bar> - 2 * A\<bar> \<le> \<bar>n\<bar>" unfolding W_def by (rule sticky_close) (simp add: n)
  then have "of_int \<bar>W * \<bar>n\<bar> - 2 * A\<bar> \<le> (of_int \<bar>n\<bar> :: real)" by (simp only: of_int_le_iff)
  then have "\<bar>of_int W * of_int \<bar>n\<bar> - 2 * of_int A\<bar> \<le> (of_int \<bar>n\<bar> :: real)" by simp
  moreover have pos: "0 < (of_int \<bar>n\<bar> :: real)" using n by simp
  ultimately have W: "\<bar>of_int W - 2 * of_int A / of_int \<bar>n\<bar>\<bar> \<le> (1 :: real)"
    by (simp only: abs_le_iff) (simp add: field_simps)
  have "of_int m / of_int n = of_int (sgn m * sgn n) * (of_int \<bar>m\<bar> / of_int \<bar>n\<bar> :: real)"
    by (simp add: sgn_if)
  also have "\<dots> = of_int (sgn m * sgn n) * (of_int \<bar>m\<bar> / of_int \<bar>n\<bar> * (2 * 2 ^ k * u))" by (simp only: u(1) mult_1_right)
  also have "\<dots> = of_int (sgn m * sgn n) * (2 * of_int A / of_int \<bar>n\<bar>) * u" by (simp add: A_def)
  finally have quot: "of_int m / of_int n = of_int (sgn m * sgn n) * (2 * of_int A / of_int \<bar>n\<bar> :: real) * u" .
  have "f64_val M (- int k - 1) - of_int m / of_int n = of_int (sgn m * sgn n) * (of_int W - 2 * of_int A / of_int \<bar>n\<bar>) * u"
    unfolding quot by (simp add: f64_val_def M_def u_def algebra_simps)
  then have "\<bar>f64_val M (- int k - 1) - of_int m / of_int n\<bar>
      = \<bar>of_int (sgn m * sgn n)\<bar> * \<bar>of_int W - 2 * of_int A / of_int \<bar>n\<bar>\<bar> * u" using u(2) by (simp add: abs_mult)
  also have "\<dots> \<le> 1 * 1 * u" using W u(2) by (intro mult_mono) (auto simp: sgn_if)
  finally have close: "\<bar>f64_val M (- int k - 1) - of_int m / of_int n\<bar> \<le> 1 / 2 ^ 13" using u(3) by simp
  have "\<bar>f64_val M (- int k - 1)\<bar> \<le> 2 ^ 39 + 1 / 2 ^ 13"
    using close small abs_triangle_ineq [of "f64_val M (- int k - 1) - of_int m / of_int n" "of_int m / of_int n"] by simp
  then have "\<bar>f64_val M (- int k - 1)\<bar> \<le> 2 ^ 40" by simp
  from round_moderate [OF this] obtain p q where pq: "round_f64 M (- int k - 1) = Fin p q"
    and "\<bar>f64_val p q - f64_val M (- int k - 1)\<bar> \<le> 1 / 2 ^ 12" by blast
  then have "\<bar>f64_val p q - of_int m / of_int n\<bar> \<le> 1 / 2 ^ 12 + 1 / 2 ^ 13" using close by linarith
  then have "\<bar>f64_val p q - of_int m / of_int n\<bar> \<le> 1 / 2 ^ 11" by simp
  then show ?thesis unfolding div using pq by blast
qed

lemma round_to_int_close:
  assumes "\<bar>f64_val m e - of_int c\<bar> < 1 / 2"
  shows "round_to_int m e = c"
proof (cases "0 \<le> e")
  case True
  then have "f64_val m e = of_int (m * 2 ^ nat e)" by (simp add: f64_val_def power_int_def)
  then have "\<bar>of_int (m * 2 ^ nat e - c)\<bar> < (1 / 2 :: real)" using assms by simp
  then have "m * 2 ^ nat e = c" by linarith
  then show ?thesis using True by (simp add: round_to_int_def)
next
  case False
  define d :: int where "d = 2 ^ nat (- e)"
  have d: "0 < d" by (simp add: d_def)
  have e: "e = - int (nat (- e))" using False by simp
  have "(2 :: real) powi e = 1 / 2 ^ nat (- e)"
    by (subst e) (simp only: power_int_minus_divide power_int_of_nat)
  then have "f64_val m e = of_int m / of_int d" by (simp add: f64_val_def d_def)
  then have "of_int m - of_int c * of_int d = (f64_val m e - of_int c) * (of_int d :: real)"
    using d by (simp add: left_diff_distrib)
  then have "\<bar>of_int m - of_int c * of_int d\<bar> = \<bar>f64_val m e - of_int c\<bar> * (of_int d :: real)"
    using d by (simp add: abs_mult)
  then have "\<bar>of_int m - of_int c * of_int d\<bar> * 2 < (of_int d :: real)"
    using mult_strict_right_mono [OF assms, of "of_int d * 2"] d by simp
  then have "of_int (\<bar>m - c * d\<bar> * 2) < (of_int d :: real)" by simp
  then have close: "\<bar>m - c * d\<bar> * 2 < d" by (simp only: of_int_less_iff)
  have half: "(2 * a + d) div (2 * d) = b" if "\<bar>a - b * d\<bar> * 2 < d" for a b
  proof -
    define x where "x = a - b * d"
    have x: "a = b * d + x" "\<bar>x\<bar> * 2 < d" using that by (simp_all add: x_def)
    have "(2 * a + d) div (2 * d) = ((2 * x + d) + b * (2 * d)) div (2 * d)" by (simp add: x(1) algebra_simps)
    also have "\<dots> = b" using x(2) by (subst div_mult_self1) auto
    finally show ?thesis .
  qed
  show ?thesis
  proof (cases "0 \<le> m")
    case True
    then show ?thesis using False half [OF close]
      by (cases "m = 0") (use d close in \<open>auto simp: round_to_int_def d_def [symmetric]\<close>)
  next
    case neg: False
    have "\<bar>- m - (- c) * d\<bar> * 2 < d" using close by (simp add: abs_minus_commute)
    from half [OF this] show ?thesis using False neg by (simp add: round_to_int_def d_def [symmetric])
  qed
qed

end
