(* ===== verification/Time_Tools.thy ===== *)
theory Time_Tools
  imports Go_Float_Arith
begin

text \<open>
  \<open>timetools/timetools.go\<close>: \<open>ToDuration\<close>, a count times a unit as an int64 number of
  nanoseconds, with an error where the product does not fit. The two instances of its type
  parameter are an integer type, whose value is a HOL integer, and \<open>float64\<close>. \<open>conv\<close> is the
  hardware's conversion of a float64 to int64, which Go only fixes for values that fit.
\<close>

section \<open>The code\<close>

definition minDuration :: i64 where "minDuration = word_of_int (- 9223372036854775808)"
definition maxDuration :: i64 where "maxDuration = 9223372036854775807"

text \<open>Go's division of durations truncates.\<close>

definition quot :: "int \<Rightarrow> int \<Rightarrow> int" where
  "quot a b = sgn a * sgn b * (\<bar>a\<bar> div \<bar>b\<bar>)"

definition intToDuration :: "i64 \<Rightarrow> i64 \<Rightarrow> i64 res" where
  "intToDuration count unit =
     (if unit = 0 then Inl (Panic DivideByZero)
      else if 0 \<le> sint count then
        (let maxCount = quot (sint maxDuration) (sint unit) in
         if maxCount < sint count then Inl (Err (Errorf ''integer overflow'')) else Inr (unit * count))
      else
        (let minCount = quot (sint minDuration) (sint unit) in
         if sint count < minCount then Inl (Err (Errorf ''integer underflow'')) else Inr (unit * count)))"

text \<open>An integer count: the float it converts to is finite.\<close>

definition ToDuration_int :: "int \<Rightarrow> i64 \<Rightarrow> i64 res" where
  "ToDuration_int count unit =
     (if sint unit \<le> 0 then Inl (Err (Errorf ''invalid time unit: must be positive''))
      else go_bind (wrap_err (Wrapped ''cannot convert count'') (Convert_int64 count)) (\<lambda>countAsDuration.
        if sint countAsDuration = count then intToDuration countAsDuration unit
        else Inl (Panic (Panicked ''not an integer''))))"

definition f64_le :: "f64 \<Rightarrow> f64 \<Rightarrow> bool" where
  "f64_le x y \<longleftrightarrow> f64_less x y \<or> f64_eq x y"

definition ToDuration_float :: "(f64 \<Rightarrow> i64) \<Rightarrow> f64 \<Rightarrow> i64 \<Rightarrow> i64 res" where
  "ToDuration_float conv count unit =
     (if sint unit \<le> 0 then Inl (Err (Errorf ''invalid time unit: must be positive''))
      else if (case count of Fin m e \<Rightarrow> False | _ \<Rightarrow> True) then Inl (Err (Errorf ''invalid count: must be finite''))
      else go_bind (wrap_err (Wrapped ''cannot convert count'') (safecast_f64_i64 conv count)) (\<lambda>countAsDuration.
        if f64_eq (f64_of_int (sint countAsDuration)) count then intToDuration countAsDuration unit
        else
          let result = f64_mul count (f64_of_int (sint unit)) in
          if f64_less result (f64_of_int (sint minDuration)) then Inl (Err (Errorf ''float underflow''))
          else if f64_le (f64_of_int (sint maxDuration)) result then Inl (Err (Errorf ''float overflow''))
          else Inr (conv result)))"

section \<open>Integers\<close>

lemma sint_bounds: "sint minDuration = - 9223372036854775808" "sint maxDuration = 9223372036854775807"
  using sint_of_int_64 [of "- 9223372036854775808"] sint_of_int_64 [of 9223372036854775807]
  by (simp_all add: minDuration_def maxDuration_def)

text \<open>The two comparisons with a quotient are exactly the test that the product fits.\<close>

lemma intToDuration_exact:
  assumes "0 < sint unit"
  shows "if fits_i64 (sint count * sint unit) then intToDuration count unit = Inr (word_of_int (sint count * sint unit))
    else \<exists>e. intToDuration count unit = Inl (Err e)"
proof -
  have prod: "unit * count = word_of_int (sint count * sint unit)"
    by (metis mult.commute scast_eq scast_id wi_hom_mult)
  have u: "unit \<noteq> 0" using assms by auto
  show ?thesis
  proof (cases "0 \<le> sint count")
    case True
    have "0 \<le> sint count * sint unit" using True assms by simp
    then have "- 9223372036854775808 \<le> sint count * sint unit" by linarith
    then show ?thesis
      using True u assms prod div_less_iff [OF assms, of 9223372036854775807 "sint count"]
      by (auto simp: intToDuration_def quot_def sint_bounds fits_i64_def)
  next
    case False
    have "sint count * sint unit < 0" using False assms by (simp add: mult_neg_pos)
    moreover have "sint count < - (9223372036854775808 div sint unit) \<longleftrightarrow> 9223372036854775808 div sint unit < - sint count"
      by linarith
    ultimately show ?thesis
      using False u assms prod div_less_iff [OF assms, of 9223372036854775808 "- sint count"]
      by (auto simp: intToDuration_def quot_def sint_bounds fits_i64_def)
  qed
qed

lemma Convert_int64_exact:
  "Convert_int64 n = Inr w \<longleftrightarrow> fits_i64 n \<and> w = word_of_int n"
  "Convert_int64 n = Inl x \<longleftrightarrow> \<not> fits_i64 n \<and> x = Err RangeError"
  by (auto simp: Convert_int64_def)

section \<open>Floats\<close>

lemma f64_eq_unique: "f64_eq x (Fin a 0) \<Longrightarrow> f64_eq x (Fin b 0) \<Longrightarrow> a = b"
  by (cases x) (auto simp: align_def)

text \<open>What \<open>safecast\<close> returns for a finite float64 (a significand of 53 bits).\<close>

lemma safecast_i64_Fin:
  assumes m: "\<bar>m\<bar> < 2 ^ 53"
  shows "safecast_f64_i64 f64_to_i64 (Fin m e) =
    (if fits_i64 (trunc_to_int m e) then Inr (word_of_int (trunc_to_int m e)) else Inl (Err RangeError))"
proof (cases "fits_i64 (trunc_to_int m e)")
  case True
  then show ?thesis
    using trunc_neg [of m e] trunc_sign(1) [of m e] f64_of_int_trunc [OF m, of e]
    by (auto simp: safecast_f64_i64_def Let_def sint_i64 f64_eq_int simp del: f64_eq.simps)
next
  case False
  have c: "sint (0x8000000000000000 :: i64) = - 9223372036854775808"
    using sint_bounds(1) by (simp add: minDuration_def)
  have "f64_eq (f64_of_int (- (1 * 2 ^ 63))) (Fin (- (1 * 2 ^ 63)) 0)"
    using f64_of_int_exact [of "- 1" 63] by simp
  then have "\<not> f64_eq (f64_of_int (- 9223372036854775808)) (Fin (trunc_to_int m e) 0)"
    using False f64_eq_unique [of "f64_of_int (- 9223372036854775808)"] by (fastforce simp: fits_i64_def simp del: f64_eq.simps)
  moreover have "trunc_to_int m e \<noteq> 0" using False by (auto simp: fits_i64_def)
  ultimately show ?thesis
    using False c by (simp add: safecast_f64_i64_def Let_def del: f64_eq.simps)
qed


text \<open>A float64 between the two limits truncates to an int64.\<close>

lemma float_limits:
  "f64_of_int (sint minDuration) = Fin (- 4503599627370496) 11"
  "f64_of_int (sint maxDuration) = Fin 9007199254740992 10"
  by (simp_all add: sint_bounds f64_of_int_def extra_bits.simps Let_def)

lemma less_scaled:
  assumes "0 \<le> f"
  shows "f64_less (Fin p q) (Fin n f) \<longleftrightarrow> p * 2 ^ nat q < n * 2 ^ nat f * 2 ^ nat (- q)"
    and "f64_less (Fin n f) (Fin p q) \<longleftrightarrow> n * 2 ^ nat f * 2 ^ nat (- q) < p * 2 ^ nat q"
    and "f64_eq (Fin n f) (Fin p q) \<longleftrightarrow> n * 2 ^ nat f * 2 ^ nat (- q) = p * 2 ^ nat q"
proof -
  define k where "k = min q f"
  have scale: "p * 2 ^ nat q = align p q k * 2 ^ nat k" "n * 2 ^ nat f * 2 ^ nat (- q) = align n f k * 2 ^ nat k"
  proof -
    have "nat (q - k) + nat k = nat q" if "0 \<le> q" using that assms by (simp add: k_def nat_add_distrib [symmetric])
    moreover have "nat (f - k) + nat k = nat f + nat (- q)" using assms by (simp add: k_def min_def) arith
    moreover have "nat (q - k) + nat k = nat q" if "q < 0" using that assms by (simp add: k_def min_def)
    ultimately show "p * 2 ^ nat q = align p q k * 2 ^ nat k"
      "n * 2 ^ nat f * 2 ^ nat (- q) = align n f k * 2 ^ nat k"
      by (metis align_def linorder_not_less mult.assoc power_add)+
  qed
  show "f64_less (Fin p q) (Fin n f) \<longleftrightarrow> p * 2 ^ nat q < n * 2 ^ nat f * 2 ^ nat (- q)"
    "f64_less (Fin n f) (Fin p q) \<longleftrightarrow> n * 2 ^ nat f * 2 ^ nat (- q) < p * 2 ^ nat q"
    "f64_eq (Fin n f) (Fin p q) \<longleftrightarrow> n * 2 ^ nat f * 2 ^ nat (- q) = p * 2 ^ nat q"
    unfolding scale by (simp_all add: k_def min.commute)
qed

lemma within_limits:
  assumes "\<not> f64_less (Fin p q) (Fin (- 4503599627370496) 11)" and "\<not> f64_le (Fin 9007199254740992 10) (Fin p q)"
  shows "fits_i64 (trunc_to_int p q)"
proof -
  have lo: "- 9223372036854775808 * 2 ^ nat (- q) \<le> p * 2 ^ nat q"
    using assms(1) less_scaled(1) [of 11 p q "- 4503599627370496"] by simp
  have hi: "p * 2 ^ nat q < 9223372036854775808 * 2 ^ nat (- q)"
    using assms(2) less_scaled(2,3) [of 10 9007199254740992 p q] unfolding f64_le_def by simp
  show ?thesis
  proof (cases "0 \<le> q")
    case True
    then show ?thesis using lo hi by (simp add: fits_i64_def trunc_to_int_def)
  next
    case False
    define d :: int where "d = 2 ^ nat (- q)"
    have d: "0 < d" by (simp add: d_def)
    have "- (9223372036854775808 * d) \<le> p" "p < 9223372036854775808 * d" using lo hi False by (simp_all add: d_def)
    then have "\<bar>p\<bar> div d \<le> 9223372036854775808" "0 \<le> p \<Longrightarrow> p div d < 9223372036854775808"
      using div_less_iff [OF d, of "\<bar>p\<bar>" 9223372036854775809] div_less_iff [OF d, of p 9223372036854775808] d
      by linarith+
    moreover have "0 \<le> \<bar>p\<bar> div d" using d by (simp add: pos_imp_zdiv_nonneg_iff)
    ultimately show ?thesis using False by (auto simp: fits_i64_def trunc_to_int_def sgn_if simp flip: d_def)
  qed
qed


text \<open>For a float64 the two comparisons are exactly the test that its truncation fits.\<close>

lemma limits_exact:
  assumes "\<bar>p\<bar> \<le> 2 ^ 53"
  shows "f64_less (Fin p q) (Fin (- 4503599627370496) 11) \<or> f64_le (Fin 9007199254740992 10) (Fin p q)
    \<longleftrightarrow> \<not> fits_i64 (trunc_to_int p q)"
proof -
  have "\<not> fits_i64 (trunc_to_int p q)"
    if "p * 2 ^ nat q < - 9223372036854775808 * 2 ^ nat (- q) \<or> 9223372036854775808 * 2 ^ nat (- q) \<le> p * 2 ^ nat q"
  proof (cases "0 \<le> q")
    case True
    then show ?thesis using that by (auto simp: fits_i64_def trunc_to_int_def)
  next
    case False
    define d :: int where "d = 2 ^ nat (- q)"
    have "1 \<le> d" by (simp add: d_def)
    moreover have "p < - 9223372036854775808 * d \<or> 9223372036854775808 * d \<le> p" using that False by (simp add: d_def)
    ultimately have "9007199254740992 < \<bar>p\<bar>" by arith
    then show ?thesis using assms by simp
  qed
  moreover have "f64_less (Fin p q) (Fin (- 4503599627370496) 11) \<or> f64_le (Fin 9007199254740992 10) (Fin p q) \<longleftrightarrow>
      p * 2 ^ nat q < - 9223372036854775808 * 2 ^ nat (- q) \<or> 9223372036854775808 * 2 ^ nat (- q) \<le> p * 2 ^ nat q"
    using less_scaled(1) [of 11 p q "- 4503599627370496"] less_scaled(2,3) [of 10 9007199254740992 p q]
    by (auto simp: f64_le_def simp del: f64_less.simps f64_eq.simps)
  ultimately show ?thesis using within_limits [of p q] by blast
qed

lemma f64_mul_sig: "f64_mul (Fin m e) (f64_of_int n) = Fin p q \<Longrightarrow> \<bar>p\<bar> \<le> 2 ^ 53"
  using round_sig_bound by (auto simp: f64_of_int_def Let_def round_f64_sig split: if_splits)

lemma f64_eq_val: "f64_eq (Fin m e) (Fin n f) \<longleftrightarrow> f64_val m e = f64_val n f"
proof -
  let ?k = "min e f"
  have "f64_val m e = f64_val (align m e ?k) ?k" "f64_val n f = f64_val (align n f ?k) ?k"
    by (simp_all add: f64_val_align)
  then show ?thesis by (simp add: f64_val_def)
qed

text \<open>The test of the code for an integral count, and what it means.\<close>

lemma integral_test:
  assumes "\<bar>m\<bar> < 2 ^ 53"
  shows "f64_eq (f64_of_int (trunc_to_int m e)) (Fin m e) \<longleftrightarrow> f64_eq (Fin (trunc_to_int m e) 0) (Fin m e)"
proof -
  obtain a k where "f64_of_int (trunc_to_int m e) = Fin a k" by (simp add: f64_of_int_def Let_def)
  then show ?thesis using f64_of_int_trunc [OF assms, of e] by (simp only: f64_eq_val)
qed

lemma fractional_fits:
  assumes "\<bar>m\<bar> < 2 ^ 53" and "\<not> f64_eq (Fin (trunc_to_int m e) 0) (Fin m e)"
  shows "fits_i64 (trunc_to_int m e)"
proof -
  have "\<not> 0 \<le> e" using assms(2) by (auto simp: trunc_to_int_def align_def)
  moreover have "\<bar>m\<bar> div 2 ^ nat (- e) \<le> \<bar>m\<bar>" using zdiv_mono2 [of "\<bar>m\<bar>" 1 "2 ^ nat (- e)"] by simp
  moreover have "0 \<le> \<bar>m\<bar> div 2 ^ nat (- e)" by (simp add: pos_imp_zdiv_nonneg_iff)
  ultimately show ?thesis using assms(1) by (auto simp: fits_i64_def trunc_to_int_def sgn_if)
qed

lemma fits_factor:
  assumes "fits_i64 (t * u)" and "0 < u"
  shows "fits_i64 t"
proof (cases "0 \<le> t")
  case True
  then have "t * 1 \<le> t * u" using assms(2) by (intro mult_left_mono) auto
  then show ?thesis using True assms(1) unfolding fits_i64_def mult_1_right by linarith
next
  case False
  then have "t * u \<le> t * 1" using assms(2) by (intro mult_left_mono_neg) auto
  then show ?thesis using False assms(1) unfolding fits_i64_def mult_1_right by linarith
qed

text \<open>What the code does with a count that is no integer.\<close>

lemma fractional_count:
  assumes "\<bar>m\<bar> < 2 ^ 53" and "0 < sint unit" and "\<not> f64_eq (Fin (trunc_to_int m e) 0) (Fin m e)"
  shows "ToDuration_float f64_to_i64 (Fin m e) unit =
    (if f64_less (f64_mul (Fin m e) (f64_of_int (sint unit))) (Fin (- 4503599627370496) 11)
     then Inl (Err (Errorf ''float underflow''))
     else if f64_le (Fin 9007199254740992 10) (f64_mul (Fin m e) (f64_of_int (sint unit)))
     then Inl (Err (Errorf ''float overflow''))
     else Inr (f64_to_i64 (f64_mul (Fin m e) (f64_of_int (sint unit)))))"
proof -
  have fits: "fits_i64 (trunc_to_int m e)" using fractional_fits [OF assms(1,3)] .
  then have "sint (word_of_int (trunc_to_int m e) :: i64) = trunc_to_int m e" by (rule sint_i64)
  then show ?thesis
    using assms fits
    by (simp add: ToDuration_float_def safecast_i64_Fin integral_test [OF assms(1)] float_limits Let_def
        del: f64_eq.simps f64_mul.simps)
qed

section \<open>Properties\<close>

text \<open>
  C14: with a count of an integer type, \<open>ToDuration\<close> is exact: for a positive unit it returns
  the product of count and unit if that fits an int64 and an error otherwise, and for another
  unit an error; it never wraps and never panics.
\<close>

theorem ToDuration_int_exact:
  "if 0 < sint unit \<and> fits_i64 count \<and> fits_i64 (count * sint unit)
   then ToDuration_int count unit = Inr (word_of_int (count * sint unit))
   else \<exists>e. ToDuration_int count unit = Inl (Err e)"
proof (cases "0 < sint unit \<and> fits_i64 count")
  case True
  then have "sint (word_of_int count :: i64) = count" by (simp add: sint_i64)
  then show ?thesis
    using True intToDuration_exact [of unit "word_of_int count"]
    by (simp add: ToDuration_int_def Convert_int64_def)
next
  case False
  then show ?thesis by (auto simp: ToDuration_int_def Convert_int64_def)
qed

text \<open>
  C35: with a finite float64 count and a positive unit, \<open>ToDuration\<close> succeeds on exactly the counts
  it can. An integral count gives the exact product if that fits an int64, and an error otherwise.
  Any other count gives the truncation of the product rounded to float64 if that fits an int64,
  and an error otherwise (the comparison with \<open>float64(maxDuration)\<close>, which is \<open>2^63\<close>, has to be the
  strict one). It never panics.
\<close>

theorem ToDuration_float_exact:
  assumes "\<bar>m\<bar> < 2 ^ 53" and "0 < sint unit"
  shows "if f64_eq (Fin (trunc_to_int m e) 0) (Fin m e) then
      if fits_i64 (trunc_to_int m e * sint unit)
      then ToDuration_float f64_to_i64 (Fin m e) unit = Inr (word_of_int (trunc_to_int m e * sint unit))
      else \<exists>err. ToDuration_float f64_to_i64 (Fin m e) unit = Inl (Err err)
    else case f64_mul (Fin m e) (f64_of_int (sint unit)) of
      Fin p q \<Rightarrow>
        if fits_i64 (trunc_to_int p q)
        then ToDuration_float f64_to_i64 (Fin m e) unit = Inr (word_of_int (trunc_to_int p q))
        else \<exists>err. ToDuration_float f64_to_i64 (Fin m e) unit = Inl (Err err)
    | _ \<Rightarrow> \<exists>err. ToDuration_float f64_to_i64 (Fin m e) unit = Inl (Err err)"
proof (cases "fits_i64 (trunc_to_int m e)")
  case False
  then have "\<not> fits_i64 (trunc_to_int m e * sint unit)" using fits_factor [OF _ assms(2)] by blast
  then show ?thesis
    using assms False fractional_fits [OF assms(1), of e]
    by (auto simp: ToDuration_float_def safecast_i64_Fin simp del: f64_eq.simps)
next
  case fits: True
  let ?t = "trunc_to_int m e"
  have t: "sint (word_of_int ?t :: i64) = ?t" using fits by (rule sint_i64)
  show ?thesis
  proof (cases "f64_eq (Fin ?t 0) (Fin m e)")
    case True
    then have "ToDuration_float f64_to_i64 (Fin m e) unit = intToDuration (word_of_int ?t) unit"
      using assms fits t
      by (simp add: ToDuration_float_def safecast_i64_Fin integral_test [OF assms(1)] del: f64_eq.simps)
    then show ?thesis
      using True intToDuration_exact [OF assms(2), of "word_of_int ?t", unfolded t]
      by (auto simp del: of_int_mult f64_eq.simps split: if_splits)
  next
    case False
    define r where "r = f64_mul (Fin m e) (f64_of_int (sint unit))"
    note eq = fractional_count [OF assms False, folded r_def]
    obtain p q where "f64_of_int (sint unit) = Fin p q" by (simp add: f64_of_int_def Let_def)
    then have fin: "r \<noteq> NaN" by (simp add: r_def round_f64_not_NaN)
    show ?thesis
    proof (cases r)
      case (Fin p q)
      then have "\<bar>p\<bar> \<le> 2 ^ 53" using f64_mul_sig [of m e "sint unit" p q] by (simp add: r_def)
      from limits_exact [OF this, of q] show ?thesis
        using eq False Fin by (auto simp: r_def simp del: f64_less.simps f64_eq.simps)
    next
      case (Infty neg)
      then show ?thesis using eq False by (cases neg) (auto simp: f64_le_def simp flip: r_def)
    qed (simp add: fin)
  qed
qed

theorem ToDuration_float_exact_witness:
  "ToDuration_float f64_to_i64 (Fin 3 (- 1)) 1000 = Inr 1500"
proof -
  have u: "sint (1000 :: i64) = 1000" using sint_of_int_64 [of 1000] by simp
  have t: "trunc_to_int 3 (- 1) = 1" "trunc_to_int 3000 (- 1) = 1500" by (simp_all add: trunc_to_int_def)
  have "\<not> f64_eq (Fin 1 0) (Fin 3 (- 1))" by (simp add: align_def)
  moreover have "f64_mul (Fin 3 (- 1)) (f64_of_int 1000) = Fin 3000 (- 1)"
    using f64_of_int_small [of 1000] by (simp add: round_f64_def extra_bits_0 Let_def)
  ultimately show ?thesis
    using ToDuration_float_exact [of 3 1000 "- 1"] t u by (simp add: fits_i64_def del: f64_eq.simps f64_mul.simps)
qed

text \<open>
  On hardware that saturates instead (arm64), \<open>safecast\<close> takes \<open>2^63\<close> for an int64: the
  conversion gives the largest int64, which converts back to \<open>2^63\<close>, so \<open>ToDuration\<close> returns
  the largest duration where it should report an overflow.
\<close>

lemma ToDuration_saturating_hardware:
  assumes "conv (Fin 1 63) = maxDuration"
  shows "ToDuration_float conv (Fin 1 63) 1 = Inr maxDuration"
proof -
  have "sint (1 :: i64) = 1" by simp
  moreover have "intToDuration maxDuration 1 = Inr maxDuration"
    by (simp add: intToDuration_def sint_bounds quot_def)
  moreover have "trunc_to_int 1 63 = 9223372036854775808" by (simp add: trunc_to_int_def)
  ultimately show ?thesis
    using assms float_limits(2)
    by (simp add: ToDuration_float_def safecast_f64_i64_def sint_bounds align_def Let_def)
qed

end
