(* ===== verification/Context_Plus.thy ===== *)
theory Context_Plus
  imports Go_Prelude
begin

text \<open>
  \<open>contextplus\<close>: contexts whose \<open>Err()\<close> carries the cause of the cancellation. An error is a
  tree of wrapped errors with the identity of the value, which is what Go compares. The model
  of a standard context (\<open>context.Context\<close>) is what \<open>Err\<close> and \<open>Cause\<close> report of it, and its
  cancel functions take effect once. The contexts of a chain are its levels: a child is done
  when its parent is.
\<close>

section \<open>Errors\<close>

datatype err = Sentinel nat string | Wrapping nat string "err list"   \<comment> \<open>identity, text, wrapped errors\<close>

text \<open>\<open>errors.Is\<close> for errors that are not nil; nil (\<open>None\<close>) is only itself.\<close>

fun err_is :: "err \<Rightarrow> err \<Rightarrow> bool" where
  "err_is (Sentinel i s) target \<longleftrightarrow> Sentinel i s = target"
| "err_is (Wrapping i s es) target \<longleftrightarrow> Wrapping i s es = target \<or> list_ex (\<lambda>e. err_is e target) es"

definition errors_Is :: "err option \<Rightarrow> err option \<Rightarrow> bool" where
  "errors_Is e target = (case (e, target) of (Some x, Some y) \<Rightarrow> err_is x y | (None, None) \<Rightarrow> True | _ \<Rightarrow> False)"

definition Canceled :: err where "Canceled = Sentinel 0 ''context canceled''"
definition DeadlineExceeded :: err where "DeadlineExceeded = Sentinel 1 ''context deadline exceeded''"

section \<open>c.go\<close>

record ctx =
  ctx_Err :: "err option"
  ctx_Cause :: "err option"
  ctx_Deadline :: "int option"
  ctx_Value :: "nat \<Rightarrow> nat option"

text \<open>
  \<open>fresh\<close> is the identity of the error \<open>fmt.Errorf("%w: %w", err, cause)\<close> allocates. The branch
  for a cause without an error formats a nil \<open>%w\<close>; the standard library has no such context.
  The function reads the cause of the context and then its error: \<open>wrap_read\<close> is what it makes of
  the two, \<open>wrapCtxErrWithCause\<close> the call in which nothing happens between the reads.
\<close>

definition wrap_read :: "nat \<Rightarrow> err option \<Rightarrow> err option \<Rightarrow> err option" where
  "wrap_read fresh cause err =
     (if cause = None then err
      else if errors_Is cause err then cause
      else if errors_Is err cause then err
      else Some (Wrapping fresh ''%w: %w'' (map the (filter (\<lambda>e. e \<noteq> None) [err, cause]))))"

definition wrapCtxErrWithCause :: "nat \<Rightarrow> ctx \<Rightarrow> err option" where
  "wrapCtxErrWithCause fresh c = (let cause = ctx_Cause c; err = ctx_Err c in wrap_read fresh cause err)"

record C =
  C_ctx :: ctx

definition C_New :: "ctx \<Rightarrow> C" where
  "C_New c = \<lparr>C_ctx = c\<rparr>"

definition C_Err :: "nat \<Rightarrow> C \<Rightarrow> err option" where
  "C_Err fresh c = wrapCtxErrWithCause fresh (C_ctx c)"

definition C_Deadline :: "C \<Rightarrow> int option" where
  "C_Deadline c = ctx_Deadline (C_ctx c)"

text \<open>The \<open>Done\<close> channel as whether it is closed.\<close>

definition ctx_Done :: "ctx \<Rightarrow> bool" where
  "ctx_Done c \<longleftrightarrow> ctx_Err c \<noteq> None"

definition C_Done :: "C \<Rightarrow> bool" where
  "C_Done c \<longleftrightarrow> ctx_Done (C_ctx c)"

definition C_Value :: "nat \<Rightarrow> C \<Rightarrow> nat option" where
  "C_Value key c = ctx_Value (C_ctx c) key"

text \<open>What a context reports that has a \<open>*C\<close> for its parent: \<open>context.Cause\<close> sees through the \<open>*C\<close>.\<close>

definition of_C :: "nat \<Rightarrow> C \<Rightarrow> ctx" where
  "of_C fresh c = (C_ctx c)\<lparr>ctx_Err := C_Err fresh c\<rparr>"

section \<open>contextplus.go\<close>

text \<open>The standard library's cancellation: the first one counts, a nil cause is the error.\<close>

definition cancel_ctx :: "err \<Rightarrow> err option \<Rightarrow> ctx \<Rightarrow> ctx" where
  "cancel_ctx e cause c =
     (if ctx_Err c \<noteq> None then c
      else c\<lparr>ctx_Err := Some e, ctx_Cause := (case cause of None \<Rightarrow> Some e | Some x \<Rightarrow> Some x)\<rparr>)"

definition cancel_C :: "err \<Rightarrow> err option \<Rightarrow> C \<Rightarrow> C" where
  "cancel_C e cause c = c\<lparr>C_ctx := cancel_ctx e cause (C_ctx c)\<rparr>"

text \<open>
  The functions return the new context, which starts as its parent is, and the ways to end it
  as functions on its state: the cancel function and, for a deadline or timeout, its expiry.
\<close>

definition WithCancelCause :: "ctx \<Rightarrow> C \<times> (err option \<Rightarrow> C \<Rightarrow> C)" where
  "WithCancelCause parent = (C_New parent, cancel_C Canceled)"

text \<open>
  The standard library's \<open>WithDeadlineCause\<close>: under a parent that ends earlier the new context
  has no timer of its own.
\<close>

definition std_WithDeadlineCause :: "ctx \<Rightarrow> int \<Rightarrow> err \<Rightarrow> ctx \<times> (C \<Rightarrow> C) \<times> (C \<Rightarrow> C)" where
  "std_WithDeadlineCause parent d cause =
     (if \<exists>cur. ctx_Deadline parent = Some cur \<and> cur < d then (parent, cancel_C Canceled None, \<lambda>c. c)
      else (parent\<lparr>ctx_Deadline := Some d\<rparr>, cancel_C Canceled None, cancel_C DeadlineExceeded (Some cause)))"

definition WithDeadlineCause :: "nat \<Rightarrow> (int \<Rightarrow> string) \<Rightarrow> ctx \<Rightarrow> int \<Rightarrow> err \<Rightarrow> C \<times> (C \<Rightarrow> C) \<times> (C \<Rightarrow> C)" where
  "WithDeadlineCause fresh show_time parent deadline cause =
     (let wrappedCause = Wrapping fresh (''deadline ('' @ show_time deadline @ '') passed: %w'') [cause];
          (newCtx, cancel, expire) = std_WithDeadlineCause parent deadline wrappedCause
      in (C_New newCtx, cancel, expire))"

text \<open>\<open>context.WithTimeoutCause\<close> is \<open>WithDeadlineCause\<close> at that time from \<open>now\<close>.\<close>

definition WithTimeoutCause ::
  "nat \<Rightarrow> (int \<Rightarrow> string) \<Rightarrow> int \<Rightarrow> ctx \<Rightarrow> int \<Rightarrow> err \<Rightarrow> C \<times> (C \<Rightarrow> C) \<times> (C \<Rightarrow> C)" where
  "WithTimeoutCause fresh show_duration now parent timeout cause =
     (let wrappedCause = Wrapping fresh (''timed out after '' @ show_duration timeout @ '': %w'') [cause];
          (newCtx, cancel, expire) = std_WithDeadlineCause parent (now + timeout) wrappedCause
      in (C_New newCtx, cancel, expire))"

text \<open>\<open>errgroup.WithContext\<close> cancels with the first error of the group.\<close>

definition ErrGroup :: "ctx \<Rightarrow> C \<times> (err \<Rightarrow> C \<Rightarrow> C)" where
  "ErrGroup parent = (C_New parent, \<lambda>e. cancel_C Canceled (Some e))"

section \<open>Facts\<close>

fun err_ids :: "err \<Rightarrow> nat set" where
  "err_ids (Sentinel i s) = {i}"
| "err_ids (Wrapping i s es) = insert i (\<Union>e \<in> set es. err_ids e)"

lemma err_is_ids: "err_is e (Wrapping i s es) \<Longrightarrow> i \<in> err_ids e"
  by (induction e) (auto simp: list_ex_iff)

text \<open>A context is done when it has an error, and then it has a cause.\<close>

definition ctx_ok :: "ctx \<Rightarrow> bool" where
  "ctx_ok c \<longleftrightarrow> (ctx_Err c = None \<longleftrightarrow> ctx_Cause c = None)"

lemma err_is_refl [simp]: "err_is e e"
  by (cases e) auto

lemma ctx_ok_cancel: "ctx_ok c \<Longrightarrow> ctx_ok (cancel_ctx e cause c)"
  by (auto simp: ctx_ok_def cancel_ctx_def split: option.split)

lemma wrap_of_done:
  assumes "ctx_Err c = Some e" and "ctx_Cause c = Some x"
  shows "\<exists>r. wrapCtxErrWithCause fresh c = Some r \<and> err_is r e \<and> err_is r x"
  using assms by (auto simp: wrapCtxErrWithCause_def wrap_read_def errors_Is_def Let_def)

lemma err_is_trans: "err_is a b \<Longrightarrow> err_is b c \<Longrightarrow> err_is a c"
proof (induction a)
  case (Wrapping i s es)
  show ?case
  proof (cases "Wrapping i s es = b")
    case True
    then show ?thesis using Wrapping.prems(2) by simp
  next
    case False
    then obtain e where "e \<in> set es" "err_is e b" using Wrapping.prems(1) by (auto simp: list_ex_iff)
    then have "err_is e c" using Wrapping.IH Wrapping.prems(2) by blast
    then show ?thesis using \<open>e \<in> set es\<close> by (auto simp: list_ex_iff)
  qed
qed auto

lemma err_is_wrapped: "err_is r (Wrapping i s [x]) \<Longrightarrow> err_is r x"
  by (erule err_is_trans) simp

definition Background :: ctx where
  "Background = \<lparr>ctx_Err = None, ctx_Cause = None, ctx_Deadline = None, ctx_Value = (\<lambda>key. None)\<rparr>"

text \<open>The contexts of a chain: a root, children (of a \<open>*C\<close> or not), and cancellations.\<close>

inductive context_of :: "ctx \<Rightarrow> bool" where
  background: "context_of Background"
| limited: "context_of c \<Longrightarrow> context_of (c\<lparr>ctx_Deadline := d, ctx_Value := vals\<rparr>)"
| cancelled: "context_of c \<Longrightarrow> context_of (cancel_ctx e cause c)"
| wrapped: "context_of c \<Longrightarrow> context_of (of_C fresh (C_New c))"

lemma wrap_cases:
  assumes "ctx_ok c"
  shows "case ctx_Err c of
      None \<Rightarrow> wrapCtxErrWithCause fresh c = None
    | Some e \<Rightarrow> (\<exists>r x. ctx_Cause c = Some x \<and> wrapCtxErrWithCause fresh c = Some r \<and> err_is r e \<and> err_is r x)"
proof (cases "ctx_Err c")
  case None
  then show ?thesis using assms by (simp add: ctx_ok_def wrapCtxErrWithCause_def wrap_read_def)
next
  case (Some e)
  then obtain x where x: "ctx_Cause c = Some x" using assms by (auto simp: ctx_ok_def)
  then show ?thesis using wrap_of_done [OF Some x] Some by simp
qed

lemma context_of_ok: "context_of c \<Longrightarrow> ctx_ok c"
proof (induction rule: context_of.induct)
  case background
  then show ?case by (simp add: ctx_ok_def Background_def)
next
  case (limited c d vals)
  then show ?case by (simp add: ctx_ok_def)
next
  case (cancelled c e cause)
  then show ?case by (intro ctx_ok_cancel)
next
  case (wrapped c fresh)
  then show ?case
    using wrap_cases [of c fresh] wrapped.IH
    by (auto simp: ctx_ok_def of_C_def C_New_def C_Err_def split: option.splits)
qed

lemma wrap_twice:
  assumes "ctx_ok c" and "\<And>x. ctx_Cause c = Some x \<Longrightarrow> fresh \<notin> err_ids x"
  shows "wrapCtxErrWithCause fresh' (of_C fresh (C_New c)) = wrapCtxErrWithCause fresh c"
proof (cases "ctx_Cause c")
  case None
  then show ?thesis using assms(1) by (simp add: ctx_ok_def of_C_def C_New_def C_Err_def wrapCtxErrWithCause_def wrap_read_def)
next
  case (Some x)
  then obtain e where e: "ctx_Err c = Some e" using assms(1) by (auto simp: ctx_ok_def)
  have "\<not> err_is x (Wrapping fresh ''%w: %w'' [e, x])"
    using err_is_ids [of x] assms(2) [OF Some] by blast
  then show ?thesis
    using Some e by (simp add: of_C_def C_New_def C_Err_def wrapCtxErrWithCause_def wrap_read_def errors_Is_def Let_def)
qed

lemma ended_context:
  assumes "ctx_Err parent = None"
  shows "\<exists>r. C_Err fresh (cancel_C e' cause' (cancel_C e (Some x) (C_New parent))) = Some r \<and> err_is r e \<and> err_is r x"
proof -
  let ?c = "cancel_ctx e (Some x) parent"
  have "ctx_Err ?c = Some e" "ctx_Cause ?c = Some x" using assms by (simp_all add: cancel_ctx_def)
  moreover from this have "cancel_ctx e' cause' ?c = ?c" by (simp add: cancel_ctx_def [of e'])
  ultimately show ?thesis using wrap_of_done by (simp add: cancel_C_def C_New_def C_Err_def)
qed

section \<open>Properties\<close>

text \<open>
  C19: \<open>Err\<close> of a \<open>contextplus\<close> context is nil exactly while the context is not done
  (its \<open>Done\<close> channel is open), and afterwards \<open>errors.Is\<close> finds in it both the standard error and the cause. Wrapping again
  changes nothing: the error of a \<open>*C\<close> around a \<open>*C\<close> is the inner one's. (The identity of the
  newly allocated error does not occur in the cause, and the context does not end during the
  call: \<open>Err_during_cancel\<close> below has what \<open>Err\<close> returns otherwise.)
\<close>

theorem C_Err_has_error_and_cause:
  assumes "context_of c" and "\<And>x. ctx_Cause c = Some x \<Longrightarrow> fresh \<notin> err_ids x"
  shows "(case ctx_Err c of
      None \<Rightarrow> C_Err fresh (C_New c) = None
    | Some e \<Rightarrow> (\<exists>r x. ctx_Cause c = Some x \<and> C_Err fresh (C_New c) = Some r \<and> err_is r e \<and> err_is r x))
    \<and> (C_Done (C_New c) \<longleftrightarrow> C_Err fresh (C_New c) \<noteq> None)
    \<and> C_Err fresh' (C_New (of_C fresh (C_New c))) = C_Err fresh (C_New c)"
proof -
  have ok: "ctx_ok c" by (rule context_of_ok [OF assms(1)])
  have e: "C_Err f (C_New d) = wrapCtxErrWithCause f d" for f d by (simp add: C_Err_def C_New_def)
  have "C_Done (C_New c) \<longleftrightarrow> wrapCtxErrWithCause fresh c \<noteq> None"
    using wrap_cases [OF ok, of fresh] by (auto simp: C_Done_def ctx_Done_def C_New_def split: option.splits)
  then show ?thesis unfolding e using wrap_cases [OF ok] wrap_twice [OF ok assms(2)] by blast
qed

theorem C_Err_has_error_and_cause_witness:
  "\<exists>r. C_Err 9 (C_New (cancel_ctx Canceled (Some (Sentinel 5 ''shutting down'')) Background)) = Some r
     \<and> err_is r Canceled"
proof -
  let ?c = "cancel_ctx Canceled (Some (Sentinel 5 ''shutting down'')) Background"
  have "context_of ?c" by (intro context_of.intros)
  moreover have "9 \<notin> err_ids x" if "ctx_Cause ?c = Some x" for x using that by (auto simp: cancel_ctx_def Background_def)
  moreover have "ctx_Err ?c = Some Canceled" by (simp add: cancel_ctx_def Background_def)
  ultimately show ?thesis using C_Err_has_error_and_cause [of ?c 9] by auto
qed

text \<open>
  When the context ends between the two reads, the cause is still nil and the error is not: \<open>Err\<close>
  returns the standard error alone, without the cause. Once the first read sees the end, so does
  the second.
\<close>

lemma Err_during_cancel:
  assumes "context_of c" and "ctx_Err c = None"
  shows "wrap_read fresh (ctx_Cause c) (ctx_Err (cancel_ctx e cause c)) = Some e"
  using context_of_ok [OF assms(1)] assms(2) by (simp add: wrap_read_def cancel_ctx_def ctx_ok_def)

lemma Err_after_cancel:
  assumes "ctx_Err c \<noteq> None"
  shows "wrap_read fresh (ctx_Cause c) (ctx_Err (cancel_ctx e cause c)) = wrapCtxErrWithCause fresh c"
  using assms by (simp add: cancel_ctx_def wrapCtxErrWithCause_def)

text \<open>The time at which a context with its own deadline ends, under a parent with one.\<close>

definition earlier_of :: "int option \<Rightarrow> int \<Rightarrow> int" where
  "earlier_of parent d = (case parent of None \<Rightarrow> d | Some p \<Rightarrow> min p d)"

lemma std_deadline:
  "ctx_Deadline (fst (std_WithDeadlineCause parent d cause)) = Some (earlier_of (ctx_Deadline parent) d)"
  by (auto simp: std_WithDeadlineCause_def earlier_of_def split: option.splits)

lemma std_expires:
  assumes "ctx_Err parent = None" and "earlier_of (ctx_Deadline parent) d = d"
  shows "(let (c, cancel, expire) = std_WithDeadlineCause parent d (Wrapping i s [cause]) in
      \<exists>r. C_Err fresh (cancel (expire (C_New c))) = Some r \<and> err_is r DeadlineExceeded \<and> err_is r cause)"
proof -
  have own: "std_WithDeadlineCause parent d x
      = (parent\<lparr>ctx_Deadline := Some d\<rparr>, cancel_C Canceled None, cancel_C DeadlineExceeded (Some x))" for x
    using assms(2) by (auto simp: std_WithDeadlineCause_def earlier_of_def)
  have "ctx_Err (parent\<lparr>ctx_Deadline := Some d\<rparr>) = None" using assms(1) by simp
  from ended_context [OF this] show ?thesis
    unfolding own Let_def prod.case using err_is_wrapped by blast
qed

text \<open>
  C36: the contexts of \<open>WithTimeoutCause\<close> and \<open>WithDeadlineCause\<close> have the earlier of their own
  deadline and the parent's. When one whose own is not later expires before anything else ends
  it, \<open>errors.Is\<close> finds \<open>DeadlineExceeded\<close> and the caller's cause in its error; when one of
  \<open>WithCancelCause\<close> is cancelled, \<open>Canceled\<close> and the cause given; when a function of an
  \<open>ErrGroup\<close> fails, \<open>Canceled\<close> and its error. A later cancellation changes nothing.
\<close>

theorem ended_context_names_its_cause:
  assumes "ctx_Err parent = None"
  shows "C_Deadline (fst (WithDeadlineCause fresh t parent d cause)) = Some (earlier_of (ctx_Deadline parent) d)
    \<and> C_Deadline (fst (WithTimeoutCause fresh t now parent timeout cause)) = Some (earlier_of (ctx_Deadline parent) (now + timeout))
    \<and> (earlier_of (ctx_Deadline parent) d = d \<longrightarrow> (let (c, cancel, expire) = WithDeadlineCause fresh t parent d cause in
      \<exists>r. C_Err fresh' (cancel (expire c)) = Some r \<and> err_is r DeadlineExceeded \<and> err_is r cause))
    \<and> (earlier_of (ctx_Deadline parent) (now + timeout) = now + timeout \<longrightarrow>
      (let (c, cancel, expire) = WithTimeoutCause fresh t now parent timeout cause in
      \<exists>r. C_Err fresh' (cancel (expire c)) = Some r \<and> err_is r DeadlineExceeded \<and> err_is r cause))
    \<and> (let (c, cancel) = WithCancelCause parent in
      \<exists>r. C_Err fresh' (cancel (Some other) (cancel (Some cause) c)) = Some r \<and> err_is r Canceled \<and> err_is r cause)
    \<and> (let (c, fail) = ErrGroup parent in
      \<exists>r. C_Err fresh' (fail other (fail cause c)) = Some r \<and> err_is r Canceled \<and> err_is r cause)"
proof -
  have deadline: "C_Deadline (C_New c) = ctx_Deadline c" for c by (simp add: C_Deadline_def C_New_def)
  show ?thesis
    using std_deadline [of parent] std_expires [OF assms] ended_context [OF assms]
    by (simp add: WithTimeoutCause_def WithDeadlineCause_def WithCancelCause_def ErrGroup_def Let_def
        case_prod_unfold deadline)
qed

theorem ended_context_names_its_cause_witness:
  "\<exists>r. C_Err 9 (cancel_C Canceled None (cancel_C DeadlineExceeded (Some (Wrapping 8 ''timed out after 1s: %w'' [Sentinel 5 ''slow'']))
      (C_New (Background\<lparr>ctx_Deadline := Some 12\<rparr>)))) = Some r \<and> err_is r (Sentinel 5 ''slow'')"
proof -
  have "ctx_Err Background = None" "ctx_Deadline Background = None" by (simp_all add: Background_def)
  then show ?thesis
    using ended_context_names_its_cause [of Background 8 "\<lambda>d. ''1s''" 12 "Sentinel 5 ''slow''" 11 1 9 "Sentinel 6 ''x''"]
    by (auto simp: WithTimeoutCause_def std_WithDeadlineCause_def earlier_of_def Let_def)
qed

end
