(* ===== verification/Human_Tools.thy ===== *)
theory Human_Tools
  imports Go_Float_Arith Time_Tools
begin

text \<open>
  \<open>humantools/humantools.go\<close>: numbers, durations and byte counts for people to read, on top of
  \<open>Comma\<close> and \<open>Commaf\<close> of \<open>go-humanize\<close> (\<open>vendor/github.com/dustin/go-humanize/comma.go\<close>).
  \<open>FormatFloat\<close> is \<open>strconv.FormatFloat(v, 'f', -1, 64)\<close>, the shortest decimal that reads back as
  the float64; the order in which Go visits the map of unit sizes is an argument. A number of
  an integer type is an integer.
\<close>

section \<open>go-humanize\<close>

text \<open>The loop of \<open>Comma\<close>; an int64 has at most 19 digits, so its seven parts are enough.\<close>

fun comma_parts :: "nat \<Rightarrow> bytes list \<Rightarrow> bytes list" where
  "comma_parts v parts =
     (if 999 < v then
        (let p = Itoa (v mod 1000);
             p = (if length p = 2 then str ''0'' @ p else if length p = 1 then str ''00'' @ p else p)
         in comma_parts (v div 1000) (p # parts))
      else Itoa v # parts)"

declare comma_parts.simps [simp del]

fun join :: "bytes \<Rightarrow> bytes list \<Rightarrow> bytes" where
  "join sep [] = []"
| "join sep [p] = p"
| "join sep (p # ps) = p @ sep @ join sep ps"

definition Comma :: "i64 \<Rightarrow> bytes" where
  "Comma v =
     (if sint v = - 9223372036854775808 then str ''-9,223,372,036,854,775,808''
      else let sign = (if sint v < 0 then str ''-'' else []); v = (if sint v < 0 then 0 - v else v)
        in sign @ join (str '','') (comma_parts (nat (sint v)) []))"

text \<open>The whole part in groups of three digits, each with a comma behind it.\<close>

fun comma_groups :: "bytes \<Rightarrow> bytes" where
  "comma_groups (a # b # c # rest) = [a, b, c] @ str '','' @ comma_groups rest"
| "comma_groups rest = []"

fun f64_neg :: "f64 \<Rightarrow> f64" where
  "f64_neg (Fin m e) = Fin (- m) e"
| "f64_neg (Infty neg) = Infty (\<not> neg)"
| "f64_neg NaN = NaN"

definition Commaf :: "(f64 \<Rightarrow> bytes) \<Rightarrow> f64 \<Rightarrow> bytes" where
  "Commaf FormatFloat v =
     (let neg = f64_less v (Fin 0 0); v = (if neg then f64_neg v else v);
          point = 46; text = FormatFloat v; whole = takeWhile (\<lambda>b. b \<noteq> point) text;
          pos = length whole mod 3;
          buf = (if neg then str ''-'' else []);
          buf = buf @ (if pos \<noteq> 0 then take pos whole @ str '','' else []);
          buf = buf @ comma_groups (drop pos whole)
      in butlast buf @
         (if point \<in> set text then str ''.'' @ takeWhile (\<lambda>b. b \<noteq> point) (drop (length whole + 1) text) else []))"

section \<open>Numbers\<close>

definition precision :: nat where "precision = 2"

definition maxFractionalPctStr :: bytes where
  "maxFractionalPctStr = str ''99.'' @ concat (replicate precision (str ''9''))"

text \<open>\<open>math.Pow10\<close> is exact up to \<open>10^22\<close>.\<close>

definition roundFloat :: "f64 \<Rightarrow> nat \<Rightarrow> f64" where
  "roundFloat val prec =
     (let ratio = f64_of_int (10 ^ prec) in f64_div (Round (f64_mul val ratio)) ratio)"

definition fmtFloat :: "(f64 \<Rightarrow> bytes) \<Rightarrow> f64 \<Rightarrow> nat \<Rightarrow> bytes" where
  "fmtFloat ff num prec = Commaf ff (roundFloat num prec)"

text \<open>For float64 and for the integer types, of which only the unsigned ones go beyond int64.\<close>

definition fmtRealPrecision :: "(f64 \<Rightarrow> bytes) \<Rightarrow> f64 + int \<Rightarrow> nat \<Rightarrow> bytes" where
  "fmtRealPrecision ff num prec = (case num of
     Inl x \<Rightarrow> fmtFloat ff x prec
   | Inr n \<Rightarrow> if 9223372036854775807 < n then fmtFloat ff (f64_of_int n) prec else Comma (word_of_int n))"

definition FmtReal :: "(f64 \<Rightarrow> bytes) \<Rightarrow> f64 + int \<Rightarrow> bytes" where
  "FmtReal ff num = fmtRealPrecision ff num precision"

text \<open>\<open>lo.Assert\<close> panics.\<close>

definition FmtPercent :: "(f64 \<Rightarrow> bytes) \<Rightarrow> int \<Rightarrow> int \<Rightarrow> bytes res" where
  "FmtPercent ff numerator denominator =
     (if denominator = 0 then Inl (Panic (Panicked ''denominator must be nonzero''))
      else let ratio = f64_div (f64_mul (Fin 100 0) (f64_of_int numerator)) (f64_of_int denominator) in
        Inr (if f64_less ratio (Fin 100 0) then
               let rounded = roundFloat ratio precision in
               if f64_le (Fin 100 0) rounded then maxFractionalPctStr else FmtReal ff (Inl rounded)
             else FmtReal ff (Inl ratio)))"

section \<open>Durations\<close>

text \<open>Go's remainder, and \<open>time.Duration.Round\<close> of a duration that is not negative.\<close>

definition go_rem :: "int \<Rightarrow> int \<Rightarrow> int" where
  "go_rem a b = a - quot a b * b"

definition Duration_Round :: "i64 \<Rightarrow> i64 \<Rightarrow> i64" where
  "Duration_Round d m =
     (if sint m \<le> 0 then d
      else let r = word_of_int (go_rem (sint d) (sint m)) in
        if uint (r + r) < uint m then d - r
        else let d1 = d + m - r in if sint d < sint d1 then d1 else maxDuration)"

definition fmt_d :: "int \<Rightarrow> bytes" where
  "fmt_d n = (if n < 0 then str ''-'' @ Itoa (nat (- n)) else Itoa (nat n))"

text \<open>\<open>DurationToDHMS\<close> after the test for negative durations, whose branch calls it once more.\<close>

definition DHMS_nonneg :: "(f64 \<Rightarrow> bytes) \<Rightarrow> i64 \<Rightarrow> bytes" where
  "DHMS_nonneg ff duration =
     (let duration = Duration_Round duration 10000000;
          totalSecs = quot (sint duration) 1000000000;
          remainder = go_rem (sint duration) 1000000000;
          days = quot totalSecs 86400;
          hours = go_rem (quot totalSecs 3600) 24;
          minutes = go_rem (quot totalSecs 60) 60;
          secs = f64_add (f64_of_int (go_rem totalSecs 60)) (f64_div (f64_of_int remainder) (f64_of_int 1000000000));
          text = fmtRealPrecision ff (Inl secs) 2 @ str ''s''
      in if 0 < days then fmt_d days @ str ''d '' @ fmt_d hours @ str ''h '' @ fmt_d minutes @ str ''m '' @ text
         else if 0 < hours then fmt_d hours @ str ''h '' @ fmt_d minutes @ str ''m '' @ text
         else if 0 < minutes then fmt_d minutes @ str ''m '' @ text
         else text)"

definition DurationToDHMS :: "(f64 \<Rightarrow> bytes) \<Rightarrow> i64 \<Rightarrow> bytes" where
  "DurationToDHMS ff duration =
     (if sint duration < 0 then
        str ''-'' @ DHMS_nonneg ff (if duration = minDuration then maxDuration else - duration)
      else DHMS_nonneg ff duration)"

section \<open>Byte counts\<close>

datatype DataUnit = Bytes | KiB | MiB | GiB | TiB | PiB | OtherUnit bytes

fun unit_name :: "DataUnit \<Rightarrow> bytes" where
  "unit_name Bytes = str ''bytes''"
| "unit_name KiB = str ''KiB''"
| "unit_name MiB = str ''MiB''"
| "unit_name GiB = str ''GiB''"
| "unit_name TiB = str ''TiB''"
| "unit_name PiB = str ''PiB''"
| "unit_name (OtherUnit s) = s"

definition unitSize :: "(DataUnit \<times> 64 word) list" where
  "unitSize = [(KiB, 2 ^ 10), (MiB, 2 ^ 20), (GiB, 2 ^ 30), (TiB, 2 ^ 40), (PiB, 2 ^ 50)]"

text \<open>The loop over the map: the unit of that size, or else the biggest one seen.\<close>

fun find_unit :: "64 word \<Rightarrow> (DataUnit \<times> 64 word) list \<Rightarrow> 64 word \<Rightarrow> DataUnit \<Rightarrow> DataUnit" where
  "find_unit unitNum [] biggestSize biggestUnit = biggestUnit"
| "find_unit unitNum ((unit, sz) # rest) biggestSize biggestUnit =
     (if sz = unitNum then unit
      else if biggestSize < sz then find_unit unitNum rest sz unit
      else find_unit unitNum rest biggestSize biggestUnit)"

text \<open>
  A count of an integer type \<open>T\<close>: \<open>wrap\<close> is the wrap-around of \<open>T\<close>, which only the negation can
  need. \<open>tens x\<close> is \<open>uint64(math.Floor(math.Log2(x)/10))\<close>, whose last bits depend on the hardware.
\<close>

definition wrap_int64 :: "int \<Rightarrow> int" where
  "wrap_int64 n = sint (word_of_int n :: i64)"

definition wrap_uint64 :: "int \<Rightarrow> int" where
  "wrap_uint64 n = uint (word_of_int n :: 64 word)"

definition FindBestUnit ::
  "(int \<Rightarrow> int) \<Rightarrow> (f64 \<Rightarrow> 64 word) \<Rightarrow> (DataUnit \<times> 64 word) list \<Rightarrow> int \<Rightarrow> DataUnit" where
  "FindBestUnit wrap tens order count =
     (let count = (if count < 0 then wrap (- count) else count) in
      if count < 1024 then Bytes
      else let unitNum = 10 * tens (f64_of_int count);
               unitNum = (if 60 < unitNum then 60 else unitNum);
               unitNum = push_bit (unat unitNum) 1
        in find_unit unitNum order 0 (OtherUnit []))"

definition BytesToUnit :: "(f64 \<Rightarrow> bytes) \<Rightarrow> int \<Rightarrow> DataUnit \<Rightarrow> bytes res" where
  "BytesToUnit ff count unit =
     (if unit = Bytes then Inr (FmtReal ff (Inr count))
      else case map_of unitSize unit of
        None \<Rightarrow> Inl (Panic (Panicked ''Missing unit in unitSize''))
      | Some myUnitSize \<Rightarrow>
          Inr (FmtReal ff (Inl (f64_div (f64_of_int count) (f64_of_int (uint myUnitSize))))))"

definition FmtBytes ::
  "(int \<Rightarrow> int) \<Rightarrow> (f64 \<Rightarrow> bytes) \<Rightarrow> (f64 \<Rightarrow> 64 word) \<Rightarrow> (DataUnit \<times> 64 word) list \<Rightarrow> int \<Rightarrow> bytes res" where
  "FmtBytes wrap ff tens order count =
     (let unit = FindBestUnit wrap tens order count in
      go_bind (BytesToUnit ff count unit) (\<lambda>s. Inr (s @ str '' '' @ unit_name unit)))"

section \<open>Durations are printed exactly\<close>

lemma quot_nonneg: "0 \<le> a \<Longrightarrow> 0 < b \<Longrightarrow> quot a b = a div b" "0 \<le> a \<Longrightarrow> 0 < b \<Longrightarrow> go_rem a b = a mod b"
  by (auto simp: quot_def go_rem_def sgn_if minus_div_mult_eq_mod)

lemma uint_of_int_64: "0 \<le> k \<Longrightarrow> k < 18446744073709551616 \<Longrightarrow> uint (word_of_int k :: i64) = k"
  by (simp add: unsigned_of_int take_bit_int_eq_self)

lemma Duration_Round_centiseconds:
  assumes "0 \<le> sint d"
  shows "sint (Duration_Round d 10000000) = 10000000 * ((sint d + 5000000) div 10000000)"
proof -
  define D q r where "D = sint d" and "q = D div 10000000" and "r = D mod 10000000"
  have D: "D = q * 10000000 + r" "0 \<le> r" "r < 10000000" "0 \<le> D" "D \<le> 9223372036854775807"
    using assms sint_less [of d] by (simp_all add: D_def q_def r_def)
  then have q: "0 \<le> q" by (simp add: q_def pos_imp_zdiv_nonneg_iff)
  have d: "d = word_of_int D" by (metis D_def scast_eq scast_id)
  have m: "sint (10000000 :: i64) = 10000000" "uint (10000000 :: i64) = 10000000"
    using sint_of_int_64 [of 10000000] by simp_all
  have rem: "go_rem D 10000000 = r" using assms by (simp add: quot_nonneg D_def r_def)
  have rr: "uint (word_of_int r + word_of_int r :: i64) = 2 * r"
    using D uint_of_int_64 [of "r + r"] by (simp only: wi_hom_add mult_2)
  have round_d: "Duration_Round d 10000000 = (if 2 * r < 10000000 then d - word_of_int r
      else let d1 = d + 10000000 - word_of_int r in if D < sint d1 then d1 else maxDuration)"
    unfolding Duration_Round_def Let_def m D_def [symmetric] rem rr by simp
  show ?thesis
  proof (cases "2 * r < 10000000")
    case True
    have "d - word_of_int r = word_of_int (D - r)" by (simp only: d wi_hom_sub)
    also have "D - r = q * 10000000" using D(1) by simp
    finally have "Duration_Round d 10000000 = word_of_int (q * 10000000)"
      using True by (simp add: round_d)
    moreover have "(D + 5000000) div 10000000 = q" using True D by (simp add: div_pos_geq)
    moreover have "sint (word_of_int (q * 10000000) :: i64) = q * 10000000"
      using D q by (intro sint_of_int_64) auto
    ultimately show ?thesis by (simp only: D_def [symmetric] mult.commute)
  next
    case False
    have "q \<le> 922337203684" using False D by linarith
    then have fits: "sint (word_of_int ((q + 1) * 10000000) :: i64) = (q + 1) * 10000000"
      using q by (intro sint_of_int_64) auto
    have "d + word_of_int 10000000 - word_of_int r = word_of_int (D + 10000000 - r)"
      by (simp only: d wi_hom_add wi_hom_sub)
    also have "D + 10000000 - r = (q + 1) * 10000000" using D by simp
    finally have e: "d + 10000000 - word_of_int r = word_of_int ((q + 1) * 10000000)"
      by (simp only: word_of_int_numeral)
    have "Duration_Round d 10000000 = word_of_int ((q + 1) * 10000000)"
      unfolding round_d Let_def e fits using False D(1,3) by simp
    moreover have "(D + 5000000) div 10000000 = q + 1" using False D by (simp add: div_pos_geq)
    ultimately show ?thesis using fits by (simp only: D_def [symmetric] mult.commute)
  qed
qed

text \<open>The seconds lose nothing to the float64 arithmetic.\<close>

lemma seconds_exact:
  assumes s: "0 \<le> s" "s < 60" and k: "0 \<le> k" "k < 100"
  shows "roundFloat (f64_add (f64_of_int s) (f64_div (f64_of_int (10000000 * k)) (f64_of_int 1000000000))) 2
    = f64_div (Fin (100 * s + k) 0) (Fin 100 0)"
proof -
  have small: "f64_of_int s = Fin s 0" "f64_of_int (10000000 * k) = Fin (10000000 * k) 0"
    "f64_of_int 1000000000 = Fin 1000000000 0" "f64_of_int (10 ^ 2) = Fin 100 0"
    using s k by (simp_all add: f64_of_int_small)
  have real: "0 \<le> (of_int s :: real)" "of_int s \<le> (59 :: real)" "0 \<le> (of_int k :: real)" "of_int k \<le> (99 :: real)"
    using s k by simp_all
  have frac: "of_int (10000000 * k) / of_int 1000000000 = (of_int k / 100 :: real)" by simp
  have "\<bar>of_int k / 100 :: real\<bar> \<le> 2 ^ 39" using k by simp
  from f64_div_close [of 1000000000 "10000000 * k", unfolded frac, OF _ this] obtain p q
    where div: "f64_div (Fin (10000000 * k) 0) (Fin 1000000000 0) = Fin p q"
      and p: "\<bar>f64_val p q - of_int k / 100\<bar> \<le> 1 / 2 ^ 11" by auto
  have p2: "\<bar>f64_val p q - of_int k / 100\<bar> \<le> 1 / 2048" using p by simp
  have "\<bar>f64_val s 0 + f64_val p q\<bar> \<le> 100" unfolding f64_val_int using real p2 by linarith
  then have "\<bar>f64_val s 0 + f64_val p q\<bar> \<le> 2 ^ 40" by (rule order_trans) simp
  from f64_add_close [OF this] obtain p' q' where add: "f64_add (Fin s 0) (Fin p q) = Fin p' q'"
    and p': "\<bar>f64_val p' q' - (f64_val s 0 + f64_val p q)\<bar> \<le> 1 / 2 ^ 12" by blast
  have p2': "\<bar>f64_val p' q' - (of_int s + f64_val p q)\<bar> \<le> 1 / 4096" using p' by simp
  have "\<bar>f64_val p' q' * f64_val 100 0\<bar> \<le> 10000" unfolding f64_val_int of_int_numeral using real p2 p2' by linarith
  then have "\<bar>f64_val p' q' * f64_val 100 0\<bar> \<le> 2 ^ 40" by (rule order_trans) simp
  from f64_mul_close [OF this] obtain p'' q'' where mul: "f64_mul (Fin p' q') (Fin 100 0) = Fin p'' q''"
    and p'': "\<bar>f64_val p'' q'' - f64_val p' q' * f64_val 100 0\<bar> \<le> 1 / 2 ^ 12" by blast
  have p2'': "\<bar>f64_val p'' q'' - f64_val p' q' * 100\<bar> \<le> 1 / 4096" using p'' by simp
  have "\<bar>f64_val p'' q'' - of_int (100 * s + k)\<bar> < 1 / 2" unfolding of_int_add of_int_mult of_int_numeral
    using p2 p2' p2'' by linarith
  then have "round_to_int p'' q'' = 100 * s + k" by (rule round_to_int_close)
  then show ?thesis unfolding roundFloat_def small Let_def div add mul by simp
qed

text \<open>A duration of \<open>c\<close> hundredths of a second as text.\<close>

definition dhms_text :: "int \<Rightarrow> bytes \<Rightarrow> bytes" where
  "dhms_text c seconds =
     (let days = c div 8640000; hours = c div 360000 mod 24; minutes = c div 6000 mod 60;
          d = Itoa (nat days) @ str ''d ''; h = Itoa (nat hours) @ str ''h ''; m = Itoa (nat minutes) @ str ''m ''
      in (if 8640000 \<le> c then d @ h @ m else if 360000 \<le> c then h @ m else if 6000 \<le> c then m else [])
         @ seconds @ str ''s'')"

lemma fmt_d_nonneg: "0 \<le> n \<Longrightarrow> fmt_d n = Itoa (nat n)"
  by (simp add: fmt_d_def)

lemma DHMS_nonneg_text:
  assumes "0 \<le> sint d"
  shows "DHMS_nonneg ff d = (let c = (sint d + 5000000) div 10000000
    in dhms_text c (Commaf ff (f64_div (Fin (c mod 6000) 0) (Fin 100 0))))"
proof -
  define c where "c = (sint d + 5000000) div 10000000"
  have c: "0 \<le> c" using assms by (simp add: c_def pos_imp_zdiv_nonneg_iff)
  have total: "quot (10000000 * c) 1000000000 = c div 100" "go_rem (10000000 * c) 1000000000 = 10000000 * (c mod 100)"
    using c mult_mod_right [of 10000000 c 100] by (simp_all add: quot_nonneg)
  have pos: "0 \<le> c div 100" using c by (simp add: pos_imp_zdiv_nonneg_iff)
  have parts: "quot (c div 100) 86400 = c div 8640000" "go_rem (quot (c div 100) 3600) 24 = c div 360000 mod 24"
    "go_rem (quot (c div 100) 60) 60 = c div 6000 mod 60" "go_rem (c div 100) 60 = c div 100 mod 60"
    using pos by (simp_all add: quot_nonneg pos_imp_zdiv_nonneg_iff zdiv_zmult2_eq [symmetric])
  have m: "c mod 6000 = 100 * (c div 100 mod 60) + c mod 100" using zmod_zmult2_eq [of 60 c 100] by simp
  have secs: "roundFloat (f64_add (f64_of_int (c div 100 mod 60))
      (f64_div (f64_of_int (10000000 * (c mod 100))) (f64_of_int 1000000000))) 2 = f64_div (Fin (c mod 6000) 0) (Fin 100 0)"
    unfolding m by (rule seconds_exact) simp_all
  have nonneg: "fmt_d (c div 8640000) = Itoa (nat (c div 8640000))" "fmt_d (c div 360000 mod 24) = Itoa (nat (c div 360000 mod 24))"
    "fmt_d (c div 6000 mod 60) = Itoa (nat (c div 6000 mod 60))"
    by (rule fmt_d_nonneg; simp add: c pos_imp_zdiv_nonneg_iff)+
  have unit_pos: "0 < c div a mod b \<longleftrightarrow> a \<le> c" if "0 < a" "c < b * a" for a b
  proof -
    have "c div a mod b = c div a"
      using that c div_less_iff [OF that(1), of c b] by (simp add: pos_imp_zdiv_nonneg_iff)
    then show ?thesis using that by (simp add: pos_imp_zdiv_pos_iff)
  qed
  have cond: "0 < c div 8640000 \<longleftrightarrow> 8640000 \<le> c"
    "\<not> 8640000 \<le> c \<Longrightarrow> 0 < c div 360000 mod 24 \<longleftrightarrow> 360000 \<le> c"
    "\<not> 360000 \<le> c \<Longrightarrow> 0 < c div 6000 mod 60 \<longleftrightarrow> 6000 \<le> c"
    by (simp add: pos_imp_zdiv_pos_iff) (rule unit_pos; simp)+
  show ?thesis
    unfolding DHMS_nonneg_def Duration_Round_centiseconds [OF assms] c_def [symmetric] Let_def total parts nonneg
      fmtRealPrecision_def fmtFloat_def secs sum.case dhms_text_def
    by (cases "8640000 \<le> c"; cases "360000 \<le> c") (simp_all add: cond pos_imp_zdiv_pos_iff del: f64_div.simps)
qed

section \<open>The unit does not depend on the order of the map\<close>

lemma find_unit_biggest:
  assumes "big = 2 ^ 50" and "bs = big \<and> bu = PiB \<or> bs < big \<and> (PiB, big) \<in> set order"
    and "\<And>u sz. (u, sz) \<in> set order \<Longrightarrow> sz \<le> big \<and> (sz = big \<longrightarrow> u = PiB)"
    and "n \<notin> snd ` set order"
  shows "find_unit n order bs bu = PiB"
  using assms(2-4)
proof (induction order arbitrary: bs bu)
  case Nil
  then show ?case by simp
next
  case (Cons e rest)
  obtain u sz where e: "e = (u, sz)" by (cases e)
  have rest: "\<And>u sz. (u, sz) \<in> set rest \<Longrightarrow> sz \<le> big \<and> (sz = big \<longrightarrow> u = PiB)" "n \<notin> snd ` set rest"
    using Cons.prems by auto
  have sz: "sz \<le> big" "sz = big \<Longrightarrow> u = PiB" "sz \<noteq> n" using Cons.prems(2) [of u sz] Cons.prems(3) e by auto
  show ?case
  proof (cases "bs < sz")
    case True
    then have "sz = big \<and> u = PiB \<or> sz < big \<and> (PiB, big) \<in> set rest"
      using Cons.prems(1) sz e by (cases "sz = big") auto
    from Cons.IH [OF this rest] show ?thesis using True sz e by simp
  next
    case False
    then have "bs = big \<and> bu = PiB \<or> bs < big \<and> (PiB, big) \<in> set rest"
      using Cons.prems(1) sz e by auto
    from Cons.IH [OF this rest] show ?thesis using False sz e by simp
  qed
qed

lemma find_unit_found:
  assumes "(u, n) \<in> set order" and "\<And>v. (v, n) \<in> set order \<Longrightarrow> v = u"
  shows "find_unit n order bs bu = u"
  using assms
proof (induction order arbitrary: bs bu)
  case (Cons e rest)
  obtain v sz where e: "e = (v, sz)" by (cases e)
  show ?case
  proof (cases "sz = n")
    case True
    then show ?thesis using Cons.prems(2) [of v] e by simp
  next
    case False
    then have "(u, n) \<in> set rest" using Cons.prems(1) e by auto
    moreover have "v = u" if "(v, n) \<in> set rest" for v using Cons.prems(2) [of v] that by simp
    ultimately have "find_unit n rest bs bu = u" for bs bu by (rule Cons.IH)
    then show ?thesis using False e by simp
  qed
qed simp

definition units :: "DataUnit list" where
  "units = [Bytes, KiB, MiB, GiB, TiB, PiB]"

lemma find_unit_unitSize:
  assumes "set order = set unitSize"
  shows "find_unit n order 0 (OtherUnit []) = (case filter (\<lambda>(u, sz). sz = n) unitSize of [] \<Rightarrow> PiB | (u, sz) # _ \<Rightarrow> u)"
proof (cases "n \<in> snd ` set unitSize")
  case False
  then have "find_unit n order 0 (OtherUnit []) = PiB"
    unfolding assms [symmetric] by (intro find_unit_biggest [OF refl]) (auto simp: assms unitSize_def word_less_nat_alt word_le_nat_alt)
  moreover have "filter (\<lambda>(u, sz). sz = n) unitSize = []" using False by (force simp: filter_empty_conv)
  ultimately show ?thesis by simp
next
  case True
  then obtain u where u: "(u, n) \<in> set unitSize" by auto
  then have "filter (\<lambda>(u, sz). sz = n) unitSize = [(u, n)]" by (auto simp: unitSize_def)
  moreover have "find_unit n order 0 (OtherUnit []) = u"
    by (rule find_unit_found) (use u in \<open>auto simp: assms unitSize_def\<close>)
  ultimately show ?thesis by simp
qed

lemma FindBestUnit_in_units:
  assumes "set order = set unitSize"
  shows "FindBestUnit wrap tens order count \<in> set units"
  unfolding FindBestUnit_def Let_def find_unit_unitSize [OF assms]
  by (auto simp: units_def unitSize_def)

lemma FmtBytes_total:
  assumes "set order = set unitSize"
  shows "\<exists>s. FmtBytes wrap ff tens order count = Inr s"
proof -
  have "\<exists>s. BytesToUnit ff count u = Inr s" if "u \<in> set units" for u
    using that by (auto simp: BytesToUnit_def units_def unitSize_def)
  then obtain s where "BytesToUnit ff count (FindBestUnit wrap tens order count) = Inr s"
    using FindBestUnit_in_units [OF assms, of wrap tens count] by blast
  then show ?thesis by (simp add: FmtBytes_def Let_def)
qed

lemma FindBestUnit_kth:
  assumes "set order = set unitSize" and "1024 \<le> n"
    and "(if count < 0 then wrap (- count) else count) = n" and "tens (f64_of_int n) = of_nat k" and "0 < k" and "k \<le> 6"
  shows "FindBestUnit wrap tens order count = units ! min k 5"
proof -
  have "FindBestUnit wrap tens order count
      = find_unit (push_bit (unat (if 60 < (10 * of_nat k :: 64 word) then 60 else 10 * of_nat k :: 64 word)) 1) order 0 (OtherUnit [])"
    using assms(2,3,4) by (simp only: FindBestUnit_def Let_def) simp
  moreover have "k \<in> {1, 2, 3, 4, 5, 6}" using assms(5,6) by auto
  ultimately show ?thesis
    by (auto simp: find_unit_unitSize [OF assms(1)] unitSize_def units_def push_bit_eq_mult)
qed

section \<open>Properties\<close>

text \<open>
  C15: \<open>DurationToDHMS\<close> is exact to the hundredth of a second: it rounds the duration (half up)
  to \<open>c\<close> hundredths and prints the days, hours, minutes and seconds of \<open>c\<close>, with at most 23
  hours, 59 minutes and 59.99 seconds and without leading zero units; the seconds are the
  float64 nearest to their decimal value, none of the float64 arithmetic before is visible in
  them. A negative duration is the text of its absolute value after a minus sign, with the
  smallest int64 as the largest.
\<close>

theorem DurationToDHMS_exact:
  "DurationToDHMS ff d =
     (let n = min \<bar>sint d\<bar> 9223372036854775807; c = (n + 5000000) div 10000000
      in (if sint d < 0 then str ''-'' else []) @ dhms_text c (Commaf ff (f64_div (Fin (c mod 6000) 0) (Fin 100 0))))"
proof (cases "sint d < 0")
  case False
  then have "min \<bar>sint d\<bar> 9223372036854775807 = sint d" using sint_less [of d] by simp
  then show ?thesis using False DHMS_nonneg_text [of d ff] by (simp add: DurationToDHMS_def Let_def)
next
  case True
  have d: "d = word_of_int (sint d)" by (metis scast_eq scast_id)
  let ?n = "if d = minDuration then maxDuration else - d"
  have n: "sint ?n = min \<bar>sint d\<bar> 9223372036854775807"
  proof (cases "d = minDuration")
    case False
    then have "sint d \<noteq> - 9223372036854775808" using d by (metis minDuration_def)
    then have low: "- 9223372036854775808 < sint d" using sint_ge [of d] by simp
    then have "sint (word_of_int (- sint d) :: i64) = - sint d" using True by (intro sint_of_int_64) auto
    moreover have "(word_of_int (- sint d) :: i64) = - d" by (simp only: wi_hom_neg [symmetric] d [symmetric])
    ultimately show ?thesis using False True low by simp
  qed (simp add: sint_bounds)
  then have "0 \<le> sint ?n" by simp
  from DHMS_nonneg_text [OF this, of ff, unfolded n] show ?thesis
    by (simp only: DurationToDHMS_def True if_True Let_def)
qed

text \<open>
  C37: \<open>FmtBytes\<close> of a count of any integer type never panics, whatever order Go visits the map of
  units in and whatever the logarithm returns, since the unit \<open>FindBestUnit\<close> chooses is always
  one it has a size for. Where the logarithm is right and the absolute value fits the type, the
  unit is the largest one that is not above the absolute value, and petabytes beyond them.
\<close>

theorem FmtBytes_best_unit:
  assumes "set order = set unitSize"
  shows "(\<exists>s. FmtBytes wrap ff tens order count = Inr s)
    \<and> (wrap \<bar>count\<bar> = \<bar>count\<bar> \<longrightarrow> \<bar>count\<bar> < 2 ^ 64 \<longrightarrow> 1024 ^ k \<le> \<bar>count\<bar> \<longrightarrow> \<bar>count\<bar> < 1024 ^ Suc k \<longrightarrow>
        (0 < k \<longrightarrow> tens (f64_of_int \<bar>count\<bar>) = of_nat k) \<longrightarrow>
        FindBestUnit wrap tens order count = units ! min k 5)"
proof (intro conjI impI)
  show "\<exists>s. FmtBytes wrap ff tens order count = Inr s" by (rule FmtBytes_total [OF assms])
next
  assume wrap: "wrap \<bar>count\<bar> = \<bar>count\<bar>" and range: "\<bar>count\<bar> < 2 ^ 64"
    and k: "1024 ^ k \<le> \<bar>count\<bar>" "\<bar>count\<bar> < 1024 ^ Suc k"
    and tens: "0 < k \<longrightarrow> tens (f64_of_int \<bar>count\<bar>) = of_nat k"
  have abs: "(if count < 0 then wrap (- count) else count) = \<bar>count\<bar>" using wrap by auto
  show "FindBestUnit wrap tens order count = units ! min k 5"
  proof (cases "k = 0")
    case True
    then have "\<bar>count\<bar> < 1024" using k by simp
    then show ?thesis using True by (simp only: FindBestUnit_def Let_def abs) (simp add: units_def)
  next
    case False
    have "(1024 :: int) ^ 1 \<le> 1024 ^ k" using False by (intro power_increasing) auto
    moreover have "k \<le> 6"
    proof (rule ccontr)
      assume "\<not> k \<le> 6"
      then have "(1024 :: int) ^ 7 \<le> 1024 ^ k" by (intro power_increasing) auto
      then show False using k range by simp
    qed
    ultimately show ?thesis using k tens False
      by (intro FindBestUnit_kth [where n = "\<bar>count\<bar>" and wrap = wrap and count = count, OF assms _ abs]) auto
  qed
qed

theorem FmtBytes_best_unit_witness:
  "FindBestUnit wrap_int64 (\<lambda>x. 1) (rev unitSize) (- 2048) = KiB"
proof -
  have "wrap_int64 2048 = 2048" using sint_of_int_64 [of 2048] by (simp add: wrap_int64_def)
  then show ?thesis
    using FmtBytes_best_unit [of "rev unitSize" wrap_int64 "\<lambda>x. []" "\<lambda>x. 1" "- 2048" 1] by (simp add: units_def)
qed

text \<open>The smallest int64 has no absolute value: it counts as less than a kibibyte.\<close>

lemma FindBestUnit_smallest_int64:
  "FindBestUnit wrap_int64 tens order (- 9223372036854775808) = Bytes"
proof -
  have "(word_of_int 9223372036854775808 :: i64) = word_of_int (- 9223372036854775808)" by simp
  then have "wrap_int64 9223372036854775808 = - 9223372036854775808"
    using sint_of_int_64 [of "- 9223372036854775808"] by (simp only: wrap_int64_def)
  then show ?thesis by (simp add: FindBestUnit_def Let_def)
qed

text \<open>
  \<open>FmtPercent\<close> promises less than 100 for every percentage below 100, but two counts that
  differ can be the same float64.
\<close>

lemma extra_bits_shift: "2 ^ 52 \<le> m \<Longrightarrow> m < 2 ^ 53 \<Longrightarrow> extra_bits (m * 2 ^ j) = j"
proof (induction j)
  case 0
  then show ?case by (simp add: extra_bits.simps)
next
  case (Suc j)
  have "(2 :: nat) ^ 53 \<le> m * 2 ^ Suc j" using mult_le_mono [OF Suc.prems(1) one_le_power [of "2 :: nat" j]] by simp
  moreover have "m * 2 ^ Suc j div 2 = m * 2 ^ j" by simp
  ultimately show ?case using Suc by (subst extra_bits.simps) simp
qed

lemma round_f64_shift:
  assumes "2 ^ 52 \<le> m" and "m < 2 ^ 53" and "- 1000 \<le> e" and "e \<le> 100" and "j \<le> 100"
  shows "round_f64 (m * 2 ^ j) e = Fin m (e + int j)"
proof -
  have m: "0 < m" using assms(1) by simp
  have "nat \<bar>m * 2 ^ j\<bar> = nat m * 2 ^ j" using m by (simp add: abs_mult nat_mult_distrib nat_power_eq)
  moreover have "extra_bits (nat m * 2 ^ j) = j" using assms(1,2) m by (intro extra_bits_shift) (simp_all add: nat_less_iff)
  ultimately have drop: "drop_bits (m * 2 ^ j) e = j" using assms(3) by (simp add: drop_bits_def)
  have sig: "round_sig (m * 2 ^ j) j = m" using m by (simp add: round_sig_def Let_def sgn_mult abs_mult)
  have "\<bar>m\<bar> * 2 ^ nat (e + int j) \<le> 2 ^ 53 * 2 ^ 200"
    using m assms by (intro mult_mono power_increasing) auto
  also have "\<dots> = 2 ^ 253" by (simp flip: power_add)
  also have "\<dots> < (2 :: int) ^ 1024" by (rule power_strict_increasing) simp_all
  finally show ?thesis unfolding round_f64_sig drop sig by simp
qed

lemma FmtPercent_hides_difference:
  "FmtPercent ff 9223372036854775806 9223372036854775807 = FmtPercent ff 1 1"
proof -
  have big: "f64_of_int 9223372036854775806 = Fin 9007199254740992 10" "f64_of_int 9223372036854775807 = Fin 9007199254740992 10"
    by (simp_all add: f64_of_int_def extra_bits.simps Let_def)
  have "f64_mul (Fin 100 0) (Fin 9007199254740992 10) = Fin 7036874417766400 17"
    using round_f64_shift [of 7036874417766400 10 7] by simp
  moreover have "f64_div (Fin 7036874417766400 17) (Fin 9007199254740992 10) = Fin 7036874417766400 (- 46)"
    using round_f64_shift [of 7036874417766400 "- 103" 57] extra_bits_shift [of 4503599627370496 1] by simp
  moreover have "f64_mul (Fin 100 0) (f64_of_int 1) = Fin 100 0"
    by (simp add: f64_of_int_small round_f64_def extra_bits_0)
  moreover have "f64_div (Fin 100 0) (f64_of_int 1) = Fin 7036874417766400 (- 46)"
    using round_f64_shift [of 7036874417766400 "- 109" 63] by (simp add: f64_of_int_small extra_bits_0)
  ultimately show ?thesis by (simp only: FmtPercent_def big) simp
qed

end
