(* ===== verification/Averages.thy ===== *)
theory Averages
  imports Go_Float_Arith Go_Option History
begin

text \<open>
  The averages: \<open>mathtools.Mean\<close> (\<open>mathtools/mathtools.go\<close>) with \<open>lo.MeanBy\<close>
  (\<open>vendor/github.com/samber/lo/math.go\<close>), and \<open>history.RatePer\<close> (\<open>history/history.go\<close>). The
  type parameter of both is any type of numbers, whose conversion to float64 is an argument
  (\<open>f64_of_int \<circ> sint\<close> for int64, the identity for float64); its addition is the one of the type,
  so sums of machine integers wrap. The time since the first log is an argument.
\<close>

definition SumBy :: "('a \<Rightarrow> f64) \<Rightarrow> 'a list \<Rightarrow> f64" where
  "SumBy iteratee collection = foldl (\<lambda>sum item. f64_add sum (iteratee item)) (Fin 0 0) collection"

definition MeanBy :: "('a \<Rightarrow> f64) \<Rightarrow> 'a list \<Rightarrow> f64" where
  "MeanBy iteratee collection =
     (let len = f64_of_int (int (length collection)) in
      if f64_eq len (Fin 0 0) then Fin 0 0 else f64_div (SumBy iteratee collection) len)"

definition float64_type :: "f64 go_type" where
  "float64_type = \<lparr>static_kind = OtherKind, as_value = (\<lambda>x. PlainV),
     value_IsZero = (\<lambda>x. f64_eq x (Fin 0 0)), zero_value = Fin 0 0\<rparr>"

definition Mean :: "('n \<Rightarrow> f64) \<Rightarrow> 'n list \<Rightarrow> f64 Option res" where
  "Mean to_float64 nums =
     (if nums = [] then Inr (Option_None float64_type)
      else Option_Some float64_type (MeanBy to_float64 nums))"

definition RatePer :: "('n :: {zero, plus} \<Rightarrow> f64) \<Rightarrow> i64 \<Rightarrow> 'n Log list \<Rightarrow> i64 \<Rightarrow> f64" where
  "RatePer to_float64 since_first logs dur =
     (if logs = [] then Fin 0 0
      else let denom = f64_div (f64_of_int (sint since_first)) (f64_of_int (sint dur))
        in f64_div (to_float64 (SumLogs logs)) denom)"

text \<open>The float64 instance of the sums.\<close>

instantiation f64 :: "{zero, plus}"
begin

definition zero_f64 :: f64 where "zero_f64 = Fin 0 0"

definition plus_f64 :: "f64 \<Rightarrow> f64 \<Rightarrow> f64" where "plus_f64 = f64_add"

instance ..

end

lemma SumLogs_float: "SumLogs logs = SumBy log_datum (logs :: f64 Log list)"
  by (simp add: SumLogs_def SumBy_def zero_f64_def plus_f64_def)

text \<open>
  The int64 instance wraps, so a sum that leaves the range is a wrong rate without an error;
  \<open>Mean\<close>, which converts first, does not have this limit.
\<close>

lemma SumLogs_int64:
  "SumLogs logs = (word_of_int (sum_list (map (sint \<circ> log_datum) logs)) :: i64)"
proof -
  have "foldl (\<lambda>sum log. sum + log_datum log) a logs = a + word_of_int (sum_list (map (sint \<circ> log_datum) logs))"
    for a :: i64
    by (induction logs arbitrary: a) (simp_all add: wi_hom_add [symmetric] del: of_int_add)
  from this [of 0] show ?thesis by (simp add: SumLogs_def)
qed

lemma SumLogs_int64_exact:
  assumes "fits_i64 (sum_list (map (sint \<circ> log_datum) logs))"
  shows "sint (SumLogs (logs :: i64 Log list)) = sum_list (map (sint \<circ> log_datum) logs)"
  by (simp only: SumLogs_int64 sint_i64 [OF assms])

text \<open>Sums of integers are exact as long as their absolute values add up to less than \<open>2^53\<close>.\<close>

lemma round_f64_exact: "\<bar>m\<bar> < 2 ^ 53 \<Longrightarrow> round_f64 m 0 = Fin m 0"
  by (simp add: round_f64_sig drop_bits_def extra_bits_0 round_sig_def nat_less_iff sgn_mult_abs)

lemma SumBy_exact:
  "\<bar>a\<bar> + sum_list (map abs ns) < 2 ^ 53 \<Longrightarrow>
   foldl (\<lambda>sum n. f64_add sum (f64_of_int n)) (Fin a 0) ns = Fin (a + sum_list ns) 0"
proof (induction ns arbitrary: a)
  case Nil
  then show ?case by simp
next
  case (Cons n ns)
  have pos: "0 \<le> sum_list (map abs ns)" by (induction ns) simp_all
  have tri: "\<bar>a + n\<bar> \<le> \<bar>a\<bar> + \<bar>n\<bar>" by (rule abs_triangle_ineq)
  have sum: "\<bar>a\<bar> + (\<bar>n\<bar> + sum_list (map abs ns)) < 2 ^ 53" using Cons.prems by simp
  have small: "\<bar>a + n\<bar> < 2 ^ 53" using tri sum pos by linarith
  have "\<bar>n\<bar> < 2 ^ 53" using sum pos abs_ge_zero [of a] by linarith
  then have "f64_of_int n = Fin n 0" by (intro f64_of_int_small) simp
  then have add: "f64_add (Fin a 0) (f64_of_int n) = Fin (a + n) 0"
    using round_f64_exact [OF small] by (simp add: align_def)
  have "\<bar>a + n\<bar> + sum_list (map abs ns) < 2 ^ 53" using tri sum by linarith
  from Cons.IH [OF this] show ?case by (simp only: foldl_Cons add sum_list.Cons add.assoc)
qed

text \<open>The mean of integers is then the exact quotient, rounded once.\<close>

lemma Mean_of_integers:
  assumes "nums \<noteq> []" and "sum_list (map abs nums) < 2 ^ 53" and "length nums < 2 ^ 53"
  shows "\<exists>opt. Mean f64_of_int nums = Inr opt \<and> contents opt = Some (f64_div (Fin (sum_list nums) 0) (Fin (int (length nums)) 0))"
proof -
  have "SumBy f64_of_int nums = Fin (sum_list nums) 0"
    using SumBy_exact [of 0 nums] assms(2) by (simp add: SumBy_def)
  moreover have "f64_of_int (int (length nums)) = Fin (int (length nums)) 0"
    using assms(3) by (intro f64_of_int_small) simp
  ultimately have "MeanBy f64_of_int nums = f64_div (Fin (sum_list nums) 0) (Fin (int (length nums)) 0)"
    using assms(1) by (simp add: MeanBy_def Let_def del: f64_eq.simps f64_div.simps)
  then show ?thesis
    using assms(1) by (simp add: Mean_def Option_Some_def isNil_def float64_type_def nilableKinds_def contents_def
        del: f64_div.simps)
qed

end
