(* ===== verification/Conn_String.thy ===== *)
theory Conn_String
  imports Index_Spec
begin

text \<open>
  \<open>mongotools/connstring.go\<close> (the \<open>directConnection\<close> parameter of a connection string) and
  \<open>mongotools/indexes.go\<close> (the names of the index options). The driver's
  \<open>connstring.ParseAndValidate\<close> is a parameter.
\<close>

section \<open>connstring.go\<close>

record ConnString =
  cs_Hosts :: "bytes list"
  cs_ReplicaSet :: bytes
  cs_DirectConnectionSet :: bool
  cs_LoadBalancedSet :: bool
  cs_Database :: bytes

definition amp :: byte where "amp = 38"
definition question :: byte where "question = 63"

text \<open>\<open>_, query, _ := strings.Cut(in, "?")\<close>\<close>

definition query_of :: "bytes \<Rightarrow> bytes" where
  "query_of s = (if question \<in> set s then drop (length (takeWhile (\<lambda>b. b \<noteq> question) s) + 1) s else [])"

text \<open>The end of \<open>MaybeAddDirectConnection\<close>, which appends to its argument.\<close>

definition add_parameter :: "bytes \<Rightarrow> bytes \<Rightarrow> bytes" where
  "add_parameter database s =
     (let s = (if question \<notin> set s then (if database = [] then s @ str ''/'' else s) @ str ''?'' else s);
          query = query_of s;
          s = (if amp \<in> set query \<and> last query \<noteq> amp then s @ str ''&'' else s)
      in s @ str ''directConnection=true'')"

definition MaybeAddDirectConnection :: "(bytes \<Rightarrow> ConnString res) \<Rightarrow> bytes \<Rightarrow> (bool \<times> bytes) res" where
  "MaybeAddDirectConnection parse s =
     go_bind (wrap_err (Wrapped ''parsing connection string'') (parse s)) (\<lambda>cs.
     if length (cs_Hosts cs) = 0 then Inl (Err (Errorf ''connection string has no hosts??''))
     else if 1 < length (cs_Hosts cs) \<or> cs_ReplicaSet cs \<noteq> [] \<or> cs_DirectConnectionSet cs \<or> cs_LoadBalancedSet cs
       then Inr (False, s)
     else Inr (True, add_parameter (cs_Database cs) s))"

section \<open>indexes.go\<close>

definition validIndexOptions :: "bytes set" where
  "validIndexOptions = {
     str ''2dsphereIndexVersion'', str ''background'', str ''bits'', str ''bucketSize'',
     str ''coarsestIndexedLevel'', str ''collation'', str ''default_language'',
     str ''expireAfterSeconds'', str ''finestIndexedLevel'', str ''key'',
     str ''language_override'', str ''max'', str ''min'', str ''name'', str ''ns'',
     str ''partialFilterExpression'', str ''sparse'', str ''storageEngine'',
     str ''textIndexVersion'', str ''unique'', str ''v'', str ''weights'', str ''wildcardProjection''}"

definition GetValidIndexOptions :: "bytes set" where
  "GetValidIndexOptions = validIndexOptions"

section \<open>Facts\<close>

text \<open>The parameters of a connection string.\<close>

fun split_at :: "byte \<Rightarrow> bytes \<Rightarrow> bytes list" where
  "split_at b [] = [[]]"
| "split_at b (x # xs) = (if x = b then [] # split_at b xs else (x # hd (split_at b xs)) # tl (split_at b xs))"

definition params_of :: "bytes \<Rightarrow> bytes list" where
  "params_of s = filter (\<lambda>p. p \<noteq> []) (split_at amp (query_of s))"

lemma split_at_ne [simp]: "split_at b xs \<noteq> []"
  by (cases xs) auto

lemma split_at_notin: "b \<notin> set xs \<Longrightarrow> split_at b xs = [xs]"
  by (induction xs) auto

lemma split_at_append: "split_at b (xs @ b # ys) = split_at b xs @ split_at b ys"
  by (induction xs) (auto simp: hd_append tl_append split: list.splits)

lemma query_of_split: "question \<notin> set a \<Longrightarrow> query_of (a @ question # q) = q"
  by (simp add: query_of_def takeWhile_append)

lemma query_of_append: "question \<in> set s \<Longrightarrow> query_of (s @ t) = query_of s @ t"
  by (auto dest!: split_list_first simp: query_of_split)

definition direct :: bytes where "direct = str ''directConnection=true''"

lemma chars: "str ''&'' = [amp]" "str ''?'' = [question]" "amp \<notin> set direct" "direct \<noteq> []" "question \<notin> set (str ''/'')"
  by (simp_all add: direct_def str_def amp_def question_def of_char_def)

lemma params_of_query:
  "amp \<notin> set (query_of s) \<Longrightarrow> params_of s = (if query_of s = [] then [] else [query_of s])"
  by (simp add: params_of_def split_at_notin)

text \<open>
  What becomes of the parameters when \<open>directConnection\<close> is added: it is the last one, but a
  single parameter before it is not separated from it.
\<close>

lemma add_parameter_params:
  "params_of (add_parameter db s) = (if query_of s \<noteq> [] \<and> amp \<notin> set (query_of s) then [query_of s @ direct]
      else params_of s @ [direct])"
proof -
  define out where "out = add_parameter db s"
  have cs: "out = (let s = (if question \<notin> set s then (if db = [] then s @ str ''/'' else s) @ str ''?'' else s);
      query = query_of s; s = (if amp \<in> set query \<and> last query \<noteq> amp then s @ str ''&'' else s) in s @ direct)"
    by (simp only: out_def add_parameter_def direct_def)
  have "params_of out = (if query_of s \<noteq> [] \<and> amp \<notin> set (query_of s) then [query_of s @ direct]
      else params_of s @ [direct])" (is ?claim)
  proof (cases "question \<in> set s")
    case False
    define a where "a = (if db = [] then s @ str ''/'' else s)"
    have a: "question \<notin> set a" using False chars(5) by (simp add: a_def)
    have "query_of s = []" using False by (simp add: query_of_def)
    moreover have "out = a @ question # direct"
      using cs False query_of_split [OF a, of "[]"] by (simp add: a_def Let_def chars)
    ultimately show ?claim using query_of_split [OF a] chars by (simp add: params_of_query)
  next
    case True
    let ?q = "query_of s"
    show ?claim
    proof (cases "amp \<in> set ?q")
      case False
      then have "query_of out = ?q @ direct" using cs True by (simp add: Let_def query_of_append)
      then show ?claim using False chars by (auto simp: params_of_query)
    next
      case amp: True
      show ?claim
      proof (cases "last ?q = amp")
        case False
        then have "query_of out = ?q @ amp # direct" using cs True amp by (simp add: Let_def query_of_append chars)
        then show ?claim using amp chars by (auto simp: params_of_def split_at_append split_at_notin)
      next
        case last: True
        then have "query_of out = ?q @ direct" using cs True amp by (simp add: Let_def query_of_append)
        moreover obtain q' where q': "?q = q' @ [amp]" using last amp by (metis append_butlast_last_id empty_iff set_empty)
        ultimately show ?claim
          using amp chars split_at_append [of amp q' direct] split_at_append [of amp q' "[]"]
          by (simp add: params_of_def split_at_notin)
      qed
    qed
  qed
  then show ?thesis by (simp only: out_def)
qed

text \<open>So a connection string with one parameter loses it: \<open>authSource=admindirectConnection=true\<close>.\<close>

lemma MaybeAdd_single_parameter:
  assumes "parse s = Inr \<lparr>cs_Hosts = [h], cs_ReplicaSet = [], cs_DirectConnectionSet = False,
      cs_LoadBalancedSet = False, cs_Database = db\<rparr>"
    and "query_of s \<noteq> []" and "amp \<notin> set (query_of s)"
  shows "\<exists>out. MaybeAddDirectConnection parse s = Inr (True, out) \<and> params_of out = [query_of s @ direct]"
  using assms by (simp add: MaybeAddDirectConnection_def add_parameter_params)

text \<open>A trailing slash without a database is doubled.\<close>

lemma MaybeAdd_trailing_slash:
  assumes "parse (s @ str ''/'') = Inr \<lparr>cs_Hosts = [h], cs_ReplicaSet = [], cs_DirectConnectionSet = False,
      cs_LoadBalancedSet = False, cs_Database = []\<rparr>"
    and "question \<notin> set s"
  shows "MaybeAddDirectConnection parse (s @ str ''/'') = Inr (True, s @ str ''//?'' @ direct)"
proof -
  have "question \<notin> set (s @ str ''/'')" "query_of ((s @ str ''/'') @ str ''/'' @ str ''?'') = []"
    using assms(2) query_of_split [of "s @ str ''/'' @ str ''/''" "[]"] chars by simp_all
  then show ?thesis using assms(1) by (simp add: MaybeAddDirectConnection_def add_parameter_def Let_def direct_def) (simp add: str_def)
qed

lemma add_parameter_extends:
  "\<exists>out. add_parameter db s = s @ out \<and> (db = [] \<and> question \<notin> set s \<longleftrightarrow> hd out = 47)"
proof (cases "question \<in> set s")
  case True
  then show ?thesis by (auto simp: add_parameter_def Let_def) (auto simp: str_def)
next
  case False
  have "amp \<notin> set (query_of (s @ str ''/?''))" "amp \<notin> set (query_of (s @ str ''?''))"
    using False query_of_split [of "s @ str ''/''" "[]"] query_of_split [of s "[]"]
    by (auto simp: str_def question_def)
  with False show ?thesis
    by (cases "db = []") (simp_all add: add_parameter_def Let_def str_def)
qed

lemma special_options_are_valid: "set optsWhereOrderMatters \<union> optsToIgnore \<subseteq> GetValidIndexOptions"
  by (auto simp: optsWhereOrderMatters_def optsToIgnore_def GetValidIndexOptions_def validIndexOptions_def)

section \<open>Properties\<close>

text \<open>
  C39: what becomes of a connection string that the driver accepts: it is returned as it is when
  it names several hosts, a replica set, \<open>directConnection\<close> or \<open>loadBalanced\<close>, and refused
  when it has no host. Otherwise the result begins with the string, and its parameters are those
  of the string followed by \<open>directConnection=true\<close>, except that a single parameter with no
  ampersand is fused with it.
\<close>

theorem MaybeAddDirectConnection_parameters:
  assumes "parse s = Inr cs"
  shows "if cs_Hosts cs = []
    then MaybeAddDirectConnection parse s = Inl (Err (Errorf ''connection string has no hosts??''))
    else if 1 < length (cs_Hosts cs) \<or> cs_ReplicaSet cs \<noteq> [] \<or> cs_DirectConnectionSet cs \<or> cs_LoadBalancedSet cs
    then MaybeAddDirectConnection parse s = Inr (False, s)
    else \<exists>out. MaybeAddDirectConnection parse s = Inr (True, s @ out)
      \<and> (cs_Database cs = [] \<and> question \<notin> set s \<longleftrightarrow> hd out = 47)
      \<and> params_of (s @ out) = (if query_of s \<noteq> [] \<and> amp \<notin> set (query_of s)
           then [query_of s @ direct] else params_of s @ [direct])"
proof -
  obtain out where out: "add_parameter (cs_Database cs) s = s @ out"
    and hd: "cs_Database cs = [] \<and> question \<notin> set s \<longleftrightarrow> hd out = 47"
    using add_parameter_extends by blast
  show ?thesis
    using add_parameter_params [of "cs_Database cs" s] hd
    by (auto simp: MaybeAddDirectConnection_def assms out)
qed

theorem MaybeAddDirectConnection_parameters_witness:
  "\<exists>out. MaybeAddDirectConnection
      (\<lambda>_. Inr \<lparr>cs_Hosts = [str ''h''], cs_ReplicaSet = [], cs_DirectConnectionSet = False,
        cs_LoadBalancedSet = False, cs_Database = []\<rparr>) (str ''mongodb://h/?a=1&b=2'')
      = Inr (True, str ''mongodb://h/?a=1&b=2'' @ out)
    \<and> params_of (str ''mongodb://h/?a=1&b=2'' @ out)
      = [str ''a=1'', str ''b=2'', str ''directConnection=true'']"
proof -
  let ?s = "str ''mongodb://h/?a=1&b=2''"
  have q: "query_of ?s = str ''a=1&b=2''" "params_of ?s = [str ''a=1'', str ''b=2'']"
    by code_simp+
  have "amp \<in> set (str ''a=1&b=2'')" by code_simp
  then show ?thesis
    using MaybeAddDirectConnection_parameters [of "\<lambda>_. Inr \<lparr>cs_Hosts = [str ''h''], cs_ReplicaSet = [],
        cs_DirectConnectionSet = False, cs_LoadBalancedSet = False, cs_Database = []\<rparr>" ?s]
    by (auto simp: q direct_def)
qed

end
