(* ===== verification/Sys_Info.thy ===== *)
theory Sys_Info
  imports Human_Tools
begin

text \<open>
  \<open>sysinfo/sysinfo.go\<close>: the attributes that \<open>LogSystemInfo\<close> logs. What the operating system
  reports is the record \<open>machine\<close>: the Go runtime's limits, \<open>ghw.CPU\<close> and \<open>ghw.Memory\<close>
  (\<open>github.com/jaypipes/ghw\<close>) and \<open>mem.VirtualMemoryWithContext\<close> (\<open>gopsutil\<close>), each of which may
  return an error.
\<close>

section \<open>Attributes\<close>

datatype any = AnyErr bson_error | AnyStrings "bytes list"

datatype attr =
    slog_Int bytes int | slog_Uint64 bytes int | slog_String bytes bytes | slog_Any bytes any
  | slog_Group bytes "attr list"

record processor =
  ID :: int
  Vendor :: bytes
  Model :: bytes
  NumCores :: "32 word"
  NumThreads :: "32 word"

record cpu_info =
  TotalCores :: "32 word"
  Processors :: "processor list"

record memory_info =
  TotalPhysicalBytes :: i64
  TotalUsableBytes :: i64
  SupportedPageSizes :: "64 word list"

record virtual_memory =
  Total :: "64 word"
  Available :: "64 word"

record machine =
  memory_limit :: i64                        \<comment> \<open>\<open>debug.SetMemoryLimit(-1)\<close>\<close>
  GOMAXPROCS :: int
  NumCPU :: int
  CPU :: "cpu_info res"
  Memory :: "memory_info res"
  VirtualMemory :: "virtual_memory res"
  err_text :: "bson_error \<Rightarrow> bytes"          \<comment> \<open>\<open>err.Error()\<close>\<close>
  format_float :: "f64 \<Rightarrow> bytes"
  log_tens :: "f64 \<Rightarrow> 64 word"
  unit_order :: "(DataUnit \<times> 64 word) list"

definition fmt_int64 :: "machine \<Rightarrow> i64 \<Rightarrow> bytes res" where
  "fmt_int64 mc n = FmtBytes wrap_int64 (format_float mc) (log_tens mc) (unit_order mc) (sint n)"

definition fmt_uint64 :: "machine \<Rightarrow> 64 word \<Rightarrow> bytes res" where
  "fmt_uint64 mc n = FmtBytes wrap_uint64 (format_float mc) (log_tens mc) (unit_order mc) (uint n)"

text \<open>\<open>strings.Contains\<close>\<close>

definition contains :: "bytes \<Rightarrow> bytes \<Rightarrow> bool" where
  "contains s sub \<longleftrightarrow> list_ex (\<lambda>i. take (length sub) (drop i s) = sub) [0..<length s + 1]"

section \<open>The code\<close>

definition processor_attrs :: "bool \<Rightarrow> processor \<Rightarrow> attr list" where
  "processor_attrs allSameID proc =
     (if \<not> allSameID then [slog_Int (str ''id'') (ID proc)] else [])
     @ (if Vendor proc \<noteq> [] then [slog_String (str ''vendor'') (Vendor proc)] else [])
     @ (if Model proc \<noteq> [] then [slog_String (str ''model'') (Model proc)] else [])
     @ (if 0 < NumCores proc then [slog_Uint64 (str ''cores'') (uint (NumCores proc))] else [])
     @ (if 0 < NumThreads proc then [slog_Uint64 (str ''threads'') (uint (NumThreads proc))] else [])"

fun processors_loop :: "bool \<Rightarrow> nat \<Rightarrow> processor list \<Rightarrow> attr list \<Rightarrow> attr list" where
  "processors_loop allSameID i [] attrs = attrs"
| "processors_loop allSameID i (proc # procs) attrs =
     (let groupAttrs = processor_attrs allSameID proc;
          attrs = (if 0 < length groupAttrs then attrs @ [slog_Group (str ''processor'' @ Itoa i) groupAttrs] else attrs)
      in processors_loop allSameID (i + 1) procs attrs)"

definition getCPUAttrs :: "machine \<Rightarrow> attr list res" where
  "getCPUAttrs mc =
     (let attrs = [slog_Int (str ''totalThreads'') (NumCPU mc)] in
      case CPU mc of
        Inl (Err e) \<Rightarrow> Inr (attrs @ [slog_Any (str ''cpuInfoErr'') (AnyErr e)])
      | Inl x \<Rightarrow> Inl x
      | Inr cpuInfo \<Rightarrow>
          let attrs = attrs @ [slog_Uint64 (str ''totalCores'') (uint (TotalCores cpuInfo))];
              procs = Processors cpuInfo;
              allSameID = (length procs \<le> 1 \<or> list_all (\<lambda>p. ID p = ID (hd procs)) (tl procs))
          in Inr (processors_loop allSameID 0 procs attrs))"

definition getSimpleMemoryAttrs :: "machine \<Rightarrow> attr list res" where
  "getSimpleMemoryAttrs mc =
     (case VirtualMemory mc of
        Inl (Err e) \<Rightarrow> Inr [slog_Any (str ''gopsutilErr'') (AnyErr e)]
      | Inl x \<Rightarrow> Inl x
      | Inr vmem \<Rightarrow>
          go_bind (if 0 < Total vmem then go_bind (fmt_uint64 mc (Total vmem)) (\<lambda>s. Inr [slog_String (str ''total'') s])
                   else Inr []) (\<lambda>attrs.
          if 0 < Available vmem
          then go_bind (fmt_uint64 mc (Available vmem)) (\<lambda>s. Inr (attrs @ [slog_String (str ''available'') s]))
          else Inr attrs))"

fun page_sizes :: "machine \<Rightarrow> 64 word list \<Rightarrow> bytes list res" where
  "page_sizes mc [] = Inr []"
| "page_sizes mc (n # ns) = go_bind (fmt_uint64 mc n) (\<lambda>s. go_bind (page_sizes mc ns) (\<lambda>ss. Inr (s # ss)))"

definition getMemoryAttrs :: "machine \<Rightarrow> attr list res" where
  "getMemoryAttrs mc =
     (case Memory mc of
        Inl (Err e) \<Rightarrow>
          go_bind (getSimpleMemoryAttrs mc) (\<lambda>attrs.
          Inr (if \<not> contains (err_text mc e) (str ''not implemented on'')
               then attrs @ [slog_Any (str ''ghwErr'') (AnyErr e)] else attrs))
      | Inl x \<Rightarrow> Inl x
      | Inr ghwMem \<Rightarrow>
          go_bind (if 0 < sint (TotalPhysicalBytes ghwMem)
                   then go_bind (fmt_int64 mc (TotalPhysicalBytes ghwMem)) (\<lambda>s. Inr [slog_String (str ''physical'') s])
                   else Inr []) (\<lambda>attrs.
          go_bind (if 0 < sint (TotalUsableBytes ghwMem)
                   then go_bind (fmt_int64 mc (TotalUsableBytes ghwMem)) (\<lambda>s. Inr (attrs @ [slog_String (str ''usable'') s]))
                   else Inr attrs) (\<lambda>attrs.
          go_bind (if 0 < length (SupportedPageSizes ghwMem)
                   then go_bind (page_sizes mc (SupportedPageSizes ghwMem))
                     (\<lambda>pageSizes. Inr (attrs @ [slog_Any (str ''pageSizes'') (AnyStrings pageSizes)]))
                   else Inr attrs) (\<lambda>attrs.
          if length attrs = 0 then getSimpleMemoryAttrs mc else Inr attrs))))"

text \<open>The attributes of the one line it logs; \<open>lo.Ternary\<close> evaluates both of its branches.\<close>

definition LogSystemInfo :: "machine \<Rightarrow> attr list res" where
  "LogSystemInfo mc =
     go_bind (fmt_int64 mc (memory_limit mc)) (\<lambda>limit.
     let memlimitStr = (if sint (memory_limit mc) = 9223372036854775807 then str ''none'' else limit);
         attrs = [slog_Int (str ''gomaxprocs'') (GOMAXPROCS mc), slog_String (str ''gomemlimit'') memlimitStr] in
     go_bind (getCPUAttrs mc) (\<lambda>cpu.
     go_bind (getMemoryAttrs mc) (\<lambda>memory.
     Inr (attrs @ [slog_Group (str ''cpu'') cpu, slog_Group (str ''memory'') memory]))))"

section \<open>Facts\<close>

text \<open>An error of the libraries is logged, never returned; they do not panic.\<close>

definition reports :: "'a res \<Rightarrow> bool" where
  "reports m \<longleftrightarrow> (case m of Inl (Err e) \<Rightarrow> True | Inl x \<Rightarrow> False | Inr v \<Rightarrow> True)"

definition sound_machine :: "machine \<Rightarrow> bool" where
  "sound_machine mc \<longleftrightarrow> reports (CPU mc) \<and> reports (Memory mc) \<and> reports (VirtualMemory mc)
     \<and> set (unit_order mc) = set unitSize"

lemma fmt_total:
  assumes "sound_machine mc"
  shows "\<exists>s. fmt_int64 mc n = Inr s" "\<exists>s. fmt_uint64 mc m = Inr s"
  using assms FmtBytes_total by (simp_all add: fmt_int64_def fmt_uint64_def sound_machine_def)

lemma page_sizes_total:
  assumes "sound_machine mc"
  shows "\<exists>ss. page_sizes mc ns = Inr ss \<and> length ss = length ns"
proof (induction ns)
  case (Cons n ns)
  then show ?case using fmt_total(2) [OF assms, of n] by auto
qed simp

lemma simple_memory_total:
  assumes "sound_machine mc"
  shows "\<exists>attrs. getSimpleMemoryAttrs mc = Inr attrs"
proof (cases "VirtualMemory mc")
  case (Inl x)
  then show ?thesis using assms by (cases x) (auto simp: sound_machine_def reports_def getSimpleMemoryAttrs_def)
next
  case (Inr vmem)
  obtain s s' where "fmt_uint64 mc (Total vmem) = Inr s" "fmt_uint64 mc (Available vmem) = Inr s'"
    using fmt_total(2) [OF assms] by metis
  then show ?thesis using Inr by (simp add: getSimpleMemoryAttrs_def)
qed

lemma memory_total:
  assumes "sound_machine mc"
  shows "\<exists>attrs. getMemoryAttrs mc = Inr attrs"
proof -
  obtain simple where simple: "getSimpleMemoryAttrs mc = Inr simple" using simple_memory_total [OF assms] by blast
  show ?thesis
  proof (cases "Memory mc")
    case (Inl x)
    then show ?thesis using assms simple by (cases x) (auto simp: sound_machine_def reports_def getMemoryAttrs_def)
  next
    case (Inr m)
    obtain s s' where "fmt_int64 mc (TotalPhysicalBytes m) = Inr s" "fmt_int64 mc (TotalUsableBytes m) = Inr s'"
      using fmt_total(1) [OF assms] by metis
    moreover obtain ss where "page_sizes mc (SupportedPageSizes m) = Inr ss" using page_sizes_total [OF assms] by blast
    ultimately show ?thesis using Inr simple by (simp add: getMemoryAttrs_def)
  qed
qed

lemma processors_loop_groups:
  "processors_loop same i procs attrs = attrs @ map (\<lambda>(i, p). slog_Group (str ''processor'' @ Itoa i) (processor_attrs same p))
     (filter (\<lambda>(i, p). processor_attrs same p \<noteq> []) (enumerate i procs))"
  by (induction procs arbitrary: i attrs) (auto simp: Let_def)

text \<open>
  Whatever the hardware libraries return, \<open>LogSystemInfo\<close> logs a line: the limits, the group of
  the processors and the group of the memory. The processors' IDs are in it exactly when two of
  them differ.
\<close>

lemma LogSystemInfo_total:
  assumes "sound_machine mc"
  shows "\<exists>limit cpu memory. LogSystemInfo mc = Inr [slog_Int (str ''gomaxprocs'') (GOMAXPROCS mc),
      slog_String (str ''gomemlimit'') limit, slog_Group (str ''cpu'') cpu, slog_Group (str ''memory'') memory]
    \<and> (sint (memory_limit mc) = 9223372036854775807 \<longrightarrow> limit = str ''none'')
    \<and> getCPUAttrs mc = Inr cpu \<and> getMemoryAttrs mc = Inr memory"
proof -
  obtain s where "fmt_int64 mc (memory_limit mc) = Inr s" using fmt_total(1) [OF assms] by blast
  moreover obtain memory where "getMemoryAttrs mc = Inr memory" using memory_total [OF assms] by blast
  moreover obtain cpu where "getCPUAttrs mc = Inr cpu"
    using assms by (auto simp: getCPUAttrs_def sound_machine_def reports_def Let_def split: sum.splits fault.splits)
  ultimately show ?thesis by (simp add: LogSystemInfo_def Let_def)
qed

lemma processor_ids_logged:
  assumes "CPU mc = Inr info" and "(i, p) \<in> set (enumerate 0 (Processors info))"
    and "\<exists>p \<in> set (Processors info). \<exists>q \<in> set (Processors info). ID p \<noteq> ID q"
  shows "\<exists>attrs g. getCPUAttrs mc = Inr attrs \<and> slog_Group (str ''processor'' @ Itoa i) g \<in> set attrs
    \<and> slog_Int (str ''id'') (ID p) \<in> set g"
proof -
  have "\<not> (length (Processors info) \<le> 1 \<or> list_all (\<lambda>p. ID p = ID (hd (Processors info))) (tl (Processors info)))"
  proof
    assume "length (Processors info) \<le> 1 \<or> list_all (\<lambda>p. ID p = ID (hd (Processors info))) (tl (Processors info))"
    then have "ID q = ID (hd (Processors info))" if "q \<in> set (Processors info)" for q
      using that by (cases "Processors info") (auto simp: list_all_iff)
    then show False using assms(3) by metis
  qed
  then have "getCPUAttrs mc = Inr (processors_loop False 0 (Processors info)
      [slog_Int (str ''totalThreads'') (NumCPU mc), slog_Uint64 (str ''totalCores'') (uint (TotalCores info))])"
    using assms(1) by (simp add: getCPUAttrs_def Let_def del: One_nat_def)
  moreover have "slog_Group (str ''processor'' @ Itoa i) (processor_attrs False p)
      \<in> set (processors_loop False 0 (Processors info) attrs)" for attrs
    using assms(2) unfolding processors_loop_groups by (force simp: processor_attrs_def)
  moreover have "slog_Int (str ''id'') (ID p) \<in> set (processor_attrs False p)" by (simp add: processor_attrs_def)
  ultimately show ?thesis by blast
qed

end
