(* ===== verification/Notices.thy ===== *)
theory Notices
  imports Go_Sort
begin

text \<open>
  \<open>cmd/third-party-notices/main.go\<close>: the program that collects the licenses of the vendored code,
  and \<open>git/repo.go\<close>, which finds the root of the repository it works on.
  The file system and git are parameters: what git prints, the walk over the
  vendored files, the content of a file and whether a file can be written. The three regular
  expressions are written out as functions on bytes. Paths are those of a Unix system.
\<close>

section \<open>The regular expressions\<close>

definition lower :: "byte \<Rightarrow> byte" where
  "lower b = (if 65 \<le> b \<and> b \<le> 90 then b + 32 else b)"

text \<open>A case-insensitive s is also the long s (\<open>U+017F\<close>), which is two bytes.\<close>

fun strip_c_or_s :: "bytes \<Rightarrow> bytes option" where
  "strip_c_or_s (b # bs) =
     (if lower b = 99 \<or> lower b = 115 then Some bs
      else (case bs of b' # bs' \<Rightarrow> if b = 0xC5 \<and> b' = 0xBF then Some bs' else None | [] \<Rightarrow> None))"
| "strip_c_or_s [] = None"

fun strip_fold :: "bytes \<Rightarrow> bytes \<Rightarrow> bytes option" where
  "strip_fold [] s = Some s"
| "strip_fold (p # ps) (b # bs) = (if lower b = p then strip_fold ps bs else None)"
| "strip_fold (p # ps) [] = None"

text \<open>What follows \<open>licen[cs]e\<close> at the start of a name.\<close>

definition after_license :: "bytes \<Rightarrow> bytes option" where
  "after_license s = (case strip_fold (str ''licen'') s of
     None \<Rightarrow> None | Some s \<Rightarrow> (case strip_c_or_s s of None \<Rightarrow> None | Some s \<Rightarrow> strip_fold (str ''e'') s))"

text \<open>\<open>(?i)^licen[cs]e(?:\..+)?$\<close>\<close>

definition licenseRegexp1 :: "bytes \<Rightarrow> bool" where
  "licenseRegexp1 name = (case after_license name of
     None \<Rightarrow> False
   | Some [] \<Rightarrow> True
   | Some (b # ext) \<Rightarrow> b = 46 \<and> ext \<noteq> [] \<and> 10 \<notin> set ext)"

text \<open>\<open>(?i)\.licen[cs]e$\<close>, at any position of the name.\<close>

fun licenseRegexp2 :: "bytes \<Rightarrow> bool" where
  "licenseRegexp2 [] = False"
| "licenseRegexp2 (b # bs) \<longleftrightarrow> b = 46 \<and> after_license bs = Some [] \<or> licenseRegexp2 bs"

text \<open>
  \<open>trailingSpaceRegexp.ReplaceAllString(s, "")\<close> for \<open>(?m)[^\n\S]+$\<close>: the white space (tab, form
  feed, carriage return, space) before a newline or the end goes away. \<open>pending\<close> is the white
  space read since the last other byte.
\<close>

definition is_blank :: "byte \<Rightarrow> bool" where
  "is_blank b \<longleftrightarrow> b = 9 \<or> b = 12 \<or> b = 13 \<or> b = 32"

fun trim_lines :: "bytes \<Rightarrow> bytes \<Rightarrow> bytes" where
  "trim_lines pending [] = []"
| "trim_lines pending (b # bs) =
     (if is_blank b then trim_lines (pending @ [b]) bs
      else if b = 10 then b # trim_lines [] bs
      else pending @ b # trim_lines [] bs)"

section \<open>The root of the repository\<close>

text \<open>\<open>bytes.TrimSpace\<close>: the UTF-8 encodings of the white space runes go, at both ends.\<close>

definition space_runes :: "bytes list" where
  "space_runes =
     [[9], [10], [11], [12], [13], [32], [0xC2, 0x85], [0xC2, 0xA0], [0xE1, 0x9A, 0x80]]
     @ map (\<lambda>b. [0xE2, 0x80, b])
         [0x80, 0x81, 0x82, 0x83, 0x84, 0x85, 0x86, 0x87, 0x88, 0x89, 0x8A, 0xA8, 0xA9, 0xAF]
     @ [[0xE2, 0x81, 0x9F], [0xE3, 0x80, 0x80]]"

text \<open>The rest of \<open>s\<close> behind one of the given prefixes.\<close>

fun strip_one :: "bytes list \<Rightarrow> bytes \<Rightarrow> bytes option" where
  "strip_one [] s = None"
| "strip_one (r # rs) s = (if take (length r) s = r then Some (drop (length r) s) else strip_one rs s)"

lemma strip_one_shorter:
  "strip_one rs s = Some s' \<Longrightarrow> [] \<notin> set rs \<Longrightarrow> length s' < length s"
proof (induction rs)
  case (Cons r rs)
  then show ?case by (cases s; cases r) (auto split: if_splits)
qed simp

function trim_left :: "bytes list \<Rightarrow> bytes \<Rightarrow> bytes" where
  "trim_left rs s = (if [] \<in> set rs then s else case strip_one rs s of None \<Rightarrow> s | Some s' \<Rightarrow> trim_left rs s')"
  by pat_completeness auto
termination by (relation "measure (length \<circ> snd)") (auto dest: strip_one_shorter)

declare trim_left.simps [simp del]

definition TrimSpace :: "bytes \<Rightarrow> bytes" where
  "TrimSpace s = rev (trim_left (map rev space_runes) (rev (trim_left space_runes s)))"

text \<open>The error of an operating system call is a string; \<open>fmt.Errorf\<close> wraps it.\<close>

datatype notices_error =
    os_error string
  | failed_to_find_git_repo_root bytes notices_error
  | read_license_file bytes notices_error

type_synonym 'a outcome = "(notices_error, 'a) go"

text \<open>
  What the program asks of git and of the operating system: the output of
  \<open>git rev-parse --show-toplevel\<close> with the error of the command, and the calls on files.
\<close>

record dir_entry =
  d_path :: bytes
  d_regular :: bool        \<comment> \<open>\<open>d.Type().IsRegular()\<close>\<close>
  d_name :: bytes

record outside =
  git_toplevel :: "bytes \<times> notices_error option"
  WalkDir :: "bytes \<Rightarrow> dir_entry outcome list"
  ReadFile :: "bytes \<Rightarrow> bytes outcome"
  WriteFile :: "bytes \<Rightarrow> bytes \<Rightarrow> unit outcome"

definition FindRepoRoot :: "outside \<Rightarrow> bytes outcome" where
  "FindRepoRoot os = (case git_toplevel os of
     (out, Some err) \<Rightarrow> Inl (Err (failed_to_find_git_repo_root out err))
   | (out, None) \<Rightarrow> Inr (TrimSpace out))"

section \<open>The program\<close>

definition horizontalLine :: bytes where
  "horizontalLine = concat (replicate 70 (str ''-''))"

definition vendorDir :: bytes where "vendorDir = str ''vendor''"

record licenseFile =
  packageName :: bytes
  path :: bytes

text \<open>\<open>filepath.Join\<close>, \<open>filepath.Dir\<close> and \<open>filepath.Base\<close> of the clean paths of a walk.\<close>

definition join_path :: "bytes \<Rightarrow> bytes \<Rightarrow> bytes" where
  "join_path dir name =
     (if dir = [] then name else if last dir = 47 then dir @ name else dir @ str ''/'' @ name)"

definition Base :: "bytes \<Rightarrow> bytes" where
  "Base p = rev (takeWhile (\<lambda>b. b \<noteq> 47) (rev p))"

definition Dir :: "bytes \<Rightarrow> bytes" where
  "Dir p = (let d = take (length p - length (Base p) - 1) p in
     if Base p = p then str ''.'' else if d = [] then str ''/'' else d)"

definition TrimPrefix :: "bytes \<Rightarrow> bytes \<Rightarrow> bytes" where
  "TrimPrefix s prefix = (if take (length prefix) s = prefix then drop (length prefix) s else s)"

text \<open>
  \<open>WalkDir root\<close> is what \<open>filepath.WalkDir\<close> passes to its callback: an entry or an error, in order. The
  paths of a walk differ, so there is one way to sort by them.
\<close>

fun walk_loop :: "bytes \<Rightarrow> dir_entry outcome list \<Rightarrow> licenseFile list \<Rightarrow> licenseFile list outcome" where
  "walk_loop pathPrefix [] files = Inr files"
| "walk_loop pathPrefix (Inl x # es) files = Inl x"
| "walk_loop pathPrefix (Inr d # es) files =
     (if \<not> d_regular d then walk_loop pathPrefix es files
      else if licenseRegexp1 (d_name d) \<or> licenseRegexp2 (d_name d)
      then walk_loop pathPrefix es (files @ [\<lparr>packageName = TrimPrefix (Dir (d_path d)) pathPrefix, path = d_path d\<rparr>])
      else walk_loop pathPrefix es files)"

definition by_path :: "licenseFile \<Rightarrow> licenseFile \<Rightarrow> int" where
  "by_path a b = compare_bytes (path a) (path b)"

definition licenseFiles :: "outside \<Rightarrow> bytes \<Rightarrow> licenseFile list outcome" where
  "licenseFiles os root =
     (let walkIn = join_path root vendorDir; pathPrefix = walkIn @ str ''/'' in
      go_bind (walk_loop pathPrefix (WalkDir os walkIn) []) (\<lambda>files. Inr (SortStableFunc by_path files)))"

fun notices_loop :: "outside \<Rightarrow> licenseFile list \<Rightarrow> bytes \<Rightarrow> bytes outcome" where
  "notices_loop os [] notices = Inr notices"
| "notices_loop os (lf # lfs) notices =
     (let notices = (if notices \<noteq> [] then notices @ [10] else notices);
          notices = notices @ horizontalLine;
          notices = notices @ [10];
          notices = notices @ str ''License notice for '' @ packageName lf
                      @ str '' ('' @ Base (path lf) @ str '')'' @ [10];
          notices = notices @ horizontalLine;
          notices = notices @ [10];
          notices = notices @ [10]
      in go_bind (wrap_err (read_license_file (path lf)) (ReadFile os (path lf))) (\<lambda>content.
         notices_loop os lfs (notices @ trim_lines [] content)))"

text \<open>The calls of \<open>os.WriteFile\<close>, and what the function returns.\<close>

definition writeThirdPartyNotices :: "outside \<Rightarrow> (bytes \<times> bytes) list \<times> unit outcome" where
  "writeThirdPartyNotices os = (case FindRepoRoot os of
     Inl x \<Rightarrow> ([], Inl x)
   | Inr root \<Rightarrow> (case licenseFiles os root of
       Inl x \<Rightarrow> ([], Inl x)
     | Inr licenses \<Rightarrow> (case notices_loop os licenses [] of
         Inl x \<Rightarrow> ([], Inl x)
       | Inr notices \<Rightarrow>
           let target = join_path root (str ''THIRD-PARTY-NOTICES'')
           in ([(target, notices)], WriteFile os target notices))))"

text \<open>\<open>main\<close> exits with 1 after an error.\<close>

definition main :: "outside \<Rightarrow> (bytes \<times> bytes) list \<times> nat" where
  "main os = (case writeThirdPartyNotices os of (ws, r) \<Rightarrow> (ws, case r of Inl _ \<Rightarrow> 1 | Inr _ \<Rightarrow> 0))"

section \<open>Facts\<close>

subsection \<open>Trimming\<close>

definition rstrip :: "bytes \<Rightarrow> bytes" where
  "rstrip l = rev (dropWhile is_blank (rev l))"

lemma newline_not_blank [simp]: "\<not> is_blank 10"
  by (simp add: is_blank_def)

lemma rstrip_blank: "\<forall>b\<in>set l. is_blank b \<Longrightarrow> rstrip l = []"
  by (simp add: rstrip_def)

lemma rstrip_append: "\<not> is_blank b \<Longrightarrow> rstrip (p @ b # l) = p @ b # rstrip l"
  by (simp add: rstrip_def dropWhile_append)

text \<open>The reference: split at the newlines, strip every line, join the lines again.\<close>

fun join_newline :: "bytes list \<Rightarrow> bytes" where
  "join_newline [] = []"
| "join_newline (n # ns) = n @ concat (map (\<lambda>n. 10 # n) ns)"

fun split_lines :: "bytes \<Rightarrow> bytes \<Rightarrow> bytes list" where
  "split_lines line [] = [line]"
| "split_lines line (b # bs) =
     (if b = 10 then line # split_lines [] bs else split_lines (line @ [b]) bs)"

lemma split_lines_prefix:
  "split_lines (p @ line) bs = (p @ hd (split_lines line bs)) # tl (split_lines line bs)"
proof (induction bs arbitrary: line)
  case (Cons b bs)
  from Cons.IH [of "line @ [b]"] show ?case by simp
qed simp

lemma split_lines_ne [simp]: "split_lines line bs \<noteq> []"
  by (induction bs arbitrary: line) auto

lemma join_newline_Cons: "ns \<noteq> [] \<Longrightarrow> join_newline (n # ns) = n @ 10 # join_newline ns"
  by (cases ns) auto

lemma trim_lines_split:
  assumes "\<forall>b\<in>set pending. is_blank b"
  shows "trim_lines pending s = join_newline (map rstrip (split_lines pending s))"
  using assms
proof (induction pending s rule: trim_lines.induct)
  case (1 pending)
  then show ?case by (simp add: rstrip_blank)
next
  case (2 pending b bs)
  consider "is_blank b" | "b = 10" | "\<not> is_blank b" "b \<noteq> 10" by blast
  then show ?case
  proof cases
    case 1
    moreover from 1 have "b \<noteq> 10" by auto
    ultimately show ?thesis using 2 by auto
  next
    case 2
    then show ?thesis using "2.IH"(2) "2.prems" by (simp add: rstrip_blank join_newline_Cons del: join_newline.simps)
  next
    case 3
    then show ?thesis
      using "2.IH"(3) split_lines_prefix [of "pending @ [b]" "[]" bs]
      by (cases "split_lines [] bs") (simp_all add: rstrip_append)
  qed
qed

text \<open>The line git prints is the root, unless the root itself ends or begins with white space.\<close>

lemma trim_left_none: "strip_one rs s = None \<Longrightarrow> trim_left rs s = s"
  by (simp add: trim_left.simps)

lemma trim_left_newline:
  assumes "strip_one (map rev space_runes) s = None"
  shows "trim_left (map rev space_runes) (10 # s) = s"
proof -
  have "strip_one (map rev space_runes) (10 # s) = Some s" and "[] \<notin> set (map rev space_runes)"
    by (simp_all add: space_runes_def)
  then show ?thesis
    by (subst trim_left.simps) (simp add: trim_left_none [OF assms])
qed

lemma FindRepoRoot_line:
  assumes "git_toplevel os = (root @ [10], None)"
    and "strip_one space_runes (root @ [10]) = None"
    and "strip_one (map rev space_runes) (rev root) = None"
  shows "FindRepoRoot os = Inr root"
  by (simp add: FindRepoRoot_def assms TrimSpace_def trim_left_none trim_left_newline)

subsection \<open>Finding the licenses\<close>

definition is_license :: "dir_entry \<Rightarrow> bool" where
  "is_license d \<longleftrightarrow> d_regular d \<and> (licenseRegexp1 (d_name d) \<or> licenseRegexp2 (d_name d))"

definition license_of :: "bytes \<Rightarrow> dir_entry \<Rightarrow> licenseFile" where
  "license_of root d =
     \<lparr>packageName = TrimPrefix (Dir (d_path d)) (join_path root vendorDir @ str ''/''), path = d_path d\<rparr>"

lemma walk_loop_entries:
  "walk_loop (join_path root vendorDir @ str ''/'') (map Inr ds) files
     = Inr (files @ map (license_of root) (filter is_license ds))"
  by (induction ds arbitrary: files) (auto simp: is_license_def license_of_def)

lemma walk_loop_error:
  "walk_loop pre (map Inr ds @ Inl x # es) files = Inl x"
  by (induction ds arbitrary: files) auto

text \<open>Without a long s in it, a name says license if its first seven bytes do, in any case.\<close>

lemma strip_fold_take:
  "strip_fold ps s = (if map lower (take (length ps) s) = ps then Some (drop (length ps) s) else None)"
  by (induction ps s rule: strip_fold.induct) auto

lemma strip_c_or_s_ascii:
  "0xC5 \<notin> set s \<Longrightarrow> strip_c_or_s s =
     (if map lower (take 1 s) \<in> {str ''c'', str ''s''} then Some (drop 1 s) else None)"
  by (cases s) (auto simp: str_def split: list.split)

lemma after_license_ascii:
  assumes "0xC5 \<notin> set s"
  shows "after_license s =
    (if map lower (take 7 s) \<in> {str ''license'', str ''licence''} then Some (drop 7 s) else None)"
proof -
  have parts: "take 7 s = take 5 s @ take 1 (drop 5 s) @ take 1 (drop 6 s)"
    using take_add [of 5 2 s] take_add [of 1 1 "drop 5 s"]
    by (simp add: numeral_2_eq_2)
  have lens: "length (str ''licen'') = 5" "length (str ''e'') = 1" "length (str ''c'') = 1" "length (str ''s'') = 1"
    and words: "str ''license'' = str ''licen'' @ str ''s'' @ str ''e''" "str ''licence'' = str ''licen'' @ str ''c'' @ str ''e''"
    by (simp_all add: str_def)
  have "0xC5 \<notin> set (drop 5 s)" using assms by (auto dest: in_set_dropD)
  note c_or_s = strip_c_or_s_ascii [OF this]
  have two: "x @ y = u @ v \<longleftrightarrow> x = u \<and> y = v"
    if "length x \<le> 1" "length y \<le> 1" "length u = 1" "length v = 1" for x y u v :: bytes
    using that by (cases x; cases y; cases u; cases v) auto
  show ?thesis
  proof (cases "map lower (take 5 s) = str ''licen''")
    case True
    have "map lower (take 7 s) \<in> {str ''license'', str ''licence''} \<longleftrightarrow>
        map lower (take 1 (drop 5 s)) \<in> {str ''c'', str ''s''} \<and> map lower (take 1 (drop 6 s)) = str ''e''"
      unfolding words parts map_append True by (auto simp: two lens)
    then show ?thesis
      by (simp add: after_license_def strip_fold_take lens True c_or_s del: One_nat_def)
  next
    case False
    have "map lower (take 7 s) \<noteq> str ''licen'' @ w" for w
    proof
      assume "map lower (take 7 s) = str ''licen'' @ w"
      then have "take 5 (map lower (take 7 s)) = take 5 (str ''licen'' @ w)" by simp
      with False show False by (simp add: take_map lens)
    qed
    with False show ?thesis by (simp add: after_license_def strip_fold_take lens words)
  qed
qed

text \<open>What the report holds, as one notice for each file.\<close>

definition notice :: "licenseFile \<Rightarrow> bytes \<Rightarrow> bytes" where
  "notice lf content = horizontalLine @ [10]
     @ str ''License notice for '' @ packageName lf @ str '' ('' @ Base (path lf) @ str '')'' @ [10]
     @ horizontalLine @ [10, 10] @ join_newline (map rstrip (split_lines [] content))"

lemma horizontalLine_ne [simp]: "horizontalLine \<noteq> []"
  by (simp add: horizontalLine_def str_def)

lemma notices_loop_more:
  assumes "\<forall>lf\<in>set lfs. ReadFile os (path lf) = Inr (content (path lf))" and "notices \<noteq> []"
  shows "notices_loop os lfs notices
     = Inr (notices @ concat (map (\<lambda>lf. 10 # notice lf (content (path lf))) lfs))"
  using assms by (induction lfs arbitrary: notices) (auto simp: notice_def trim_lines_split simp del: join_newline.simps)

lemma notices_loop_all:
  assumes "\<forall>lf\<in>set lfs. ReadFile os (path lf) = Inr (content (path lf))"
  shows "notices_loop os lfs [] = Inr (join_newline (map (\<lambda>lf. notice lf (content (path lf))) lfs))"
  using assms
  by (cases lfs) (simp_all add: notices_loop_more [where content = content] notice_def comp_def trim_lines_split)

lemma notices_loop_unreadable:
  assumes "lf \<in> set lfs" and "ReadFile os (path lf) = Inl x"
  shows "\<exists>y. notices_loop os lfs notices = Inl y"
  using assms
  by (induction lfs arbitrary: notices) (auto simp: go_bind_def Let_def split: sum.splits)

lemma by_path_sorted:
  assumes "distinct (map path lfs)"
  shows "sorted_wrt (\<lambda>a b. path a < path b) (SortStableFunc by_path lfs)"
proof -
  have sort: "SortStableFunc by_path lfs = sort_key path lfs"
    by (rule SortStableFunc_sort_key) (simp add: by_path_def compare_bytes_le)
  have "distinct (map path (sort_key path lfs))"
    using assms by (metis distinct_map distinct_sort set_sort)
  then have "sorted_wrt (<) (map path (sort_key path lfs))"
    by (simp add: strict_sorted_iff)
  then show ?thesis by (simp add: sort sorted_wrt_map)
qed

text \<open>
  C40: when git finds the repository and the walk of its vendor directory ends without an error,
  the program reports exactly the regular files whose name says license, in the strict order of
  their paths, one notice each with the white space at the end of every line removed. If one of
  them cannot be read it writes nothing and exits with 1; otherwise it writes the whole report
  once, to \<open>THIRD-PARTY-NOTICES\<close> at the root, and exits with 0 unless that write fails.
\<close>

theorem main_reports_licenses:
  assumes "FindRepoRoot os = Inr root"
    and "WalkDir os (join_path root vendorDir) = map Inr ds"
    and "distinct (map d_path ds)"
  shows "\<exists>lfs. set lfs = {license_of root d | d. d \<in> set ds \<and> is_license d}
    \<and> sorted_wrt (\<lambda>a b. path a < path b) lfs
    \<and> (\<forall>content. (\<forall>lf\<in>set lfs. ReadFile os (path lf) = Inr (content (path lf))) \<longrightarrow>
         (let target = join_path root (str ''THIRD-PARTY-NOTICES'');
              report = join_newline (map (\<lambda>lf. notice lf (content (path lf))) lfs)
          in main os = ([(target, report)], if isl (WriteFile os target report) then 1 else 0)))
    \<and> ((\<exists>lf\<in>set lfs. isl (ReadFile os (path lf))) \<longrightarrow> main os = ([], 1))"
proof -
  let ?lfs = "SortStableFunc by_path (map (license_of root) (filter is_license ds))"
  have files: "licenseFiles os root = Inr ?lfs"
    by (simp add: licenseFiles_def assms(2) walk_loop_entries)
  have set: "set ?lfs = {license_of root d | d. d \<in> set ds \<and> is_license d}"
    by (auto simp: image_def)
  have paths: "map path (map (license_of root) (filter is_license ds)) = map d_path (filter is_license ds)"
    by (simp add: license_of_def comp_def)
  have sorted: "sorted_wrt (\<lambda>a b. path a < path b) ?lfs"
    by (rule by_path_sorted) (use assms(3) in \<open>simp only: paths distinct_map_filter\<close>)
  show ?thesis
  proof (intro exI [of _ ?lfs] conjI allI impI set sorted)
    fix content
    assume "\<forall>lf\<in>set ?lfs. ReadFile os (path lf) = Inr (content (path lf))"
    from notices_loop_all [OF this]
    show "let target = join_path root (str ''THIRD-PARTY-NOTICES'');
              report = join_newline (map (\<lambda>lf. notice lf (content (path lf))) ?lfs)
          in main os = ([(target, report)], if isl (WriteFile os target report) then 1 else 0)"
      by (simp add: main_def writeThirdPartyNotices_def assms(1) files Let_def split: sum.split)
  next
    assume "\<exists>lf\<in>set ?lfs. isl (ReadFile os (path lf))"
    then obtain lf x where "lf \<in> set ?lfs" "ReadFile os (path lf) = Inl x" by (auto simp: isl_def)
    from notices_loop_unreadable [OF this, of "[]"]
    show "main os = ([], 1)"
      by (auto simp: main_def writeThirdPartyNotices_def assms(1) files)
  qed
qed

definition example_entry :: "string \<Rightarrow> bool \<Rightarrow> dir_entry" where
  "example_entry p regular = \<lparr>d_path = str p, d_regular = regular, d_name = Base (str p)\<rparr>"

definition example_entries :: "dir_entry list" where
  "example_entries =
     [example_entry ''/r/vendor'' False, example_entry ''/r/vendor/b.Licence'' True,
      example_entry ''/r/vendor/a/go.mod'' True, example_entry ''/r/vendor/a/LICENSE.md'' True]"

definition example_outside :: outside where
  "example_outside =
     \<lparr>git_toplevel = (str ''/r'' @ [10], None), WalkDir = (\<lambda>_. map Inr example_entries),
      ReadFile = (\<lambda>p. Inr (str ''free '' @ [10])), WriteFile = (\<lambda>_ _. Inr ())\<rparr>"

lemma example_licenses:
  "map is_license example_entries = [False, True, False, True]"
  "distinct (map d_path example_entries)"
  by code_simp+

lemma example_root: "FindRepoRoot example_outside = Inr (str ''/r'')"
  by (rule FindRepoRoot_line)
    (simp_all add: example_outside_def space_runes_def str_def)

theorem main_reports_licenses_witness:
  "\<exists>lfs. path ` set lfs = {str ''/r/vendor/b.Licence'', str ''/r/vendor/a/LICENSE.md''}
    \<and> sorted_wrt (\<lambda>a b. path a < path b) lfs
    \<and> main example_outside =
        ([(str ''/r/THIRD-PARTY-NOTICES'',
           join_newline (map (\<lambda>lf. notice lf (str ''free '' @ [10])) lfs))], 0)"
proof -
  have licensed: "{d \<in> set example_entries. is_license d} =
      {example_entry ''/r/vendor/b.Licence'' True, example_entry ''/r/vendor/a/LICENSE.md'' True}"
    using example_licenses(1) by (auto simp: example_entries_def)
  have reads: "ReadFile example_outside p = Inr (str ''free '' @ [10])"
    and writes: "WriteFile example_outside p c = Inr ()" for p c
    by (simp_all add: example_outside_def)
  have target: "join_path (str ''/r'') (str ''THIRD-PARTY-NOTICES'') = str ''/r/THIRD-PARTY-NOTICES''"
    by code_simp
  obtain lfs where
    s: "set lfs = {license_of (str ''/r'') d | d. d \<in> set example_entries \<and> is_license d}" and
    o: "sorted_wrt (\<lambda>a b. path a < path b) lfs" and
    m: "\<And>content. (\<forall>lf\<in>set lfs. ReadFile example_outside (path lf) = Inr (content (path lf))) \<longrightarrow>
         (let target = join_path (str ''/r'') (str ''THIRD-PARTY-NOTICES'');
              report = join_newline (map (\<lambda>lf. notice lf (content (path lf))) lfs)
          in main example_outside = ([(target, report)],
               if isl (WriteFile example_outside target report) then 1 else 0))"
    using main_reports_licenses [OF example_root, of example_entries] example_licenses(2)
    by (auto simp: example_outside_def)
  have "set lfs = license_of (str ''/r'') ` {d \<in> set example_entries. is_license d}"
    using s by blast
  then have "path ` set lfs = d_path ` {d \<in> set example_entries. is_license d}"
    by (simp add: image_image license_of_def)
  then have "path ` set lfs = {str ''/r/vendor/b.Licence'', str ''/r/vendor/a/LICENSE.md''}"
    by (simp only: licensed) (simp add: example_entry_def)
  moreover have "main example_outside =
        ([(str ''/r/THIRD-PARTY-NOTICES'',
           join_newline (map (\<lambda>lf. notice lf (str ''free '' @ [10])) lfs))], 0)"
    using m [of "\<lambda>_. str ''free '' @ [10]"] by (simp add: reads writes target Let_def)
  ultimately show ?thesis using o by blast
qed

text \<open>A walk that meets an error ends the program before it writes.\<close>

lemma main_walk_error:
  assumes "FindRepoRoot os = Inr root"
    and "WalkDir os (join_path root vendorDir) = map Inr ds @ Inl x # es"
  shows "main os = ([], 1)"
  by (simp add: main_def writeThirdPartyNotices_def licenseFiles_def assms walk_loop_error)

end
