(* ===== verification/Spec2Isabelle.thy ===== *)
theory Spec2Isabelle
  imports Bounded_Queue Bson_Compose Bson_Compare Error_Text Index_Props Index_Diff
    Atomic_Max History Go_Option Time_Tools Context_Plus
    Human_Tools Averages Conn_String Sys_Info Notices
begin

text \<open>
  A verification library for \<open>migration-tools\<close>, a collection of Go packages for programs that
  copy MongoDB data: editing, sorting, comparing and converting raw BSON (\<open>bsontools\<close>), index
  specifications, record IDs and connection strings (\<open>mongotools\<close>), values shared by goroutines
  (\<open>synctools\<close>, \<open>ringbuf\<close>, \<open>future\<close>, \<open>history\<close>), and small utilities (\<open>option\<close>, \<open>timetools\<close>,
  \<open>contextplus\<close>, \<open>humantools\<close>, \<open>mathtools\<close>, \<open>sysinfo\<close>, \<open>git\<close>) and a program that collects the
  licenses of vendored code (\<open>cmd/third-party-notices\<close>). File names below are relative to \<open>src/\<close>.

  \<^bold>\<open>How Go is modelled\<close> (\<open>Go_Prelude\<close>). A call returns \<open>Inr v\<close>, \<open>Inl (Err e)\<close> (an error return),
  \<open>Inl (Panic p)\<close>, or does not return; every slice expression, index, conversion and explicit
  panic of the source is a branch. A \<open>[]byte\<close> and a \<open>string\<close> are lists of 8-bit words, \<open>int32\<close> and
  \<open>int64\<close> are 32- and 64-bit words wherever they can wrap, a struct is a record. Functions that
  change a buffer in place return its new content. The text of an error is shortened; which
  error is wrapped, and in what order, is kept where a caller can see it. \<open>Go_Sort\<close> has the
  contract of \<open>cmp.Compare\<close> (locale \<open>comparator\<close>) and \<open>slices.SortStableFunc\<close>, \<open>Go_Utf8\<close> the
  conversions between strings and runes, \<open>Go_Fmt\<close> the quoting of strings in messages (\<open>%#q\<close>,
  always one line), \<open>Go_Float\<close> and \<open>Go_Float_Arith\<close> float64 as the exact
  number its bits stand for with the correctly rounded operations the program uses (only the
  sign of a zero is dropped) and bounds on their errors.

  \<^bold>\<open>BSON.\<close>
  \<^item> \<open>Bson_Core\<close>: the byte readers and appenders of the driver that the package calls
    (\<open>vendor/.../x/bsonx/bsoncore\<close>, \<open>vendor/.../internal/binaryutil\<close>), with the wrap-around of their
    int32 lengths. \<open>Bson_Tree\<close> is the abstract document, a tree of typed fields with its byte
    encoding; the refinement theorems of the package are stated against it.
  \<^item> \<open>Bson_Raw\<close> (\<open>bsontools/raw.go\<close>): \<open>RawElements\<close> accepts exactly the framed valid documents and
    yields their elements, agrees with the driver on them, and ends safely on all others.
  \<^item> \<open>Bson_Edit\<close> (\<open>edit.go\<close>): \<open>ReplaceInRaw\<close> and \<open>RemoveFromRaw\<close>, with the sizes they patch on the
    way back up, are the replacement and removal in the tree; lookups see the new value.
  \<^item> \<open>Bson_Canonical\<close> (\<open>canonical.go\<close>): \<open>SortFields\<close> is the stable sort of the tree, gives documents
    that differ in field order the same bytes, keeps lookups, and only permutes bytes.
  \<^item> \<open>Bson_Value\<close> (\<open>raw_value.go\<close>): \<open>ToRawValue\<close> and \<open>RawValueTo\<close>. Each pair of appender and reader is
    an interpretation of the locale \<open>value_codec\<close>, from which the round trip follows.
  \<^item> \<open>Bson_Compare\<close> (\<open>compare.go\<close>, \<open>mongotools/recordid.go\<close>): the comparers are total orders (locale
    \<open>comparator\<close>), and the record ID comparison succeeds on exactly the known types.
  \<^item> \<open>Bson_Marshal\<close> (\<open>marshal.go\<close>, \<open>unmarshal.go\<close>): unmarshaling undoes marshaling; the panics of
    the unmarshaler cannot happen.
  \<^item> \<open>Error_Text\<close>: the texts of the two error types the package defines.
  \<^item> \<open>Bson_Compose\<close> and the properties at the end of this theory compose them: sorting the bytes
    of a marshaled document is sorting the document, and a value that \<open>ReplaceInRaw\<close> puts into it
    is what \<open>RawLookup\<close> reads back, with every other pointer reading what it read before.

  \<^bold>\<open>Index specifications\<close> (\<open>mongotools/index\<close>). \<open>Index_Spec\<close> has the operations of \<open>legacy.go\<close>,
  \<open>compare.go\<close> and \<open>bson.go\<close>; \<open>Index_Refine\<close> proves that they do to the bytes what the tree
  functions do to the fields; \<open>Index_Props\<close> states when two specifications are equal; \<open>Index_Diff\<close>
  prints their difference (\<open>SpecDiff.String\<close>, \<open>jsondiff.go\<close>), one patch operation on each line
  with its members in a fixed order. They call \<open>Bson_Raw\<close>, \<open>Bson_Edit\<close> and \<open>Bson_Value\<close> as the code does. The record \<open>index_env\<close> holds what is not
  under \<open>src/\<close> or is reflection: \<open>bson.Marshal\<close>, decoding into maps, \<open>reflect.DeepEqual\<close>, extended
  JSON, JSON comparison, and the iteration order of a set.

  \<^bold>\<open>Goroutines.\<close>
  \<^item> \<open>Ring_Buf\<close> (\<open>ringbuf/ringbuf.go\<close>) and \<open>Bounded_Queue\<close> (\<open>synctools/bounded_queue.go\<close>): the ring
    buffer is a bounded list (locale \<open>bounded_fifo\<close>). The worker goroutine is the step relation
    \<open>bq_step\<close> over the select case that fires; it simulates an abstract bounded queue, never
    panics, keeps the order, and drains after the input is closed. The stats function, which takes
    no lock, is two reads at any two moments between the atomic updates of the worker: the count
    stays within its limit, the byte total exceeds its soft limit by less than one item.
  \<^item> \<open>Atomic_Max\<close> (\<open>synctools/max.go\<close>): concurrent \<open>Update\<close> calls as interleaved loads and
    compare-and-swaps over a growing memory; they are linearizable, in an order that
    respects real time, and return within a number of effective steps that is quadratic in the
    number of calls.
  \<^item> \<open>Guarded\<close> (\<open>synctools/dataguard.go\<close>, \<open>synctools/buffer.go\<close>, \<open>future/future.go\<close>): methods between
    the lock and unlock of a read-write mutex, interleaved step by step, have the results of a
    sequential order that respects real time, and can always finish. A future is written once, by
    the first setter of that order, and a \<open>Get\<close> after it, or after \<open>Ready\<close> was closed, returns it.
    \<open>effects\<close> is that order, the goroutines as their sections take effect.
  \<^item> \<open>History\<close> (\<open>history/history.go\<close>): its methods as critical sections of the same mutex; however
    concurrent calls interleave, \<open>Get\<close> returns exactly the entries that have not expired.

  \<^bold>\<open>Utilities.\<close> \<open>Go_Option\<close> (\<open>option/\<close>): nil is defined on a datatype of Go values as the language has
  it, \<open>reflect\<close> is computed from that; an option never holds nil and is written and read, in BSON
  and JSON, as the pointer it replaces. \<open>Time_Tools\<close> (\<open>timetools/\<close>): which counts \<open>ToDuration\<close> accepts,
  with the product it returns, for integers and for float64.
  \<open>Context_Plus\<close> (\<open>contextplus/\<close>): an ended context names the standard error and its cause.
  \<open>Human_Tools\<close> (\<open>humantools/\<close>): durations are printed exactly, byte counts in the best unit.
  \<open>Averages\<close> (\<open>mathtools/\<close>, \<open>history.RatePer\<close>) and \<open>Conn_String\<close> (\<open>mongotools/connstring.go\<close>,
  \<open>mongotools/indexes.go\<close>): means, exact for integers of moderate size, and what adding \<open>directConnection\<close> does to the
  parameters of a connection string. \<open>Sys_Info\<close> (\<open>sysinfo/\<close>): the attributes that are logged,
  whatever the libraries that read the operating system return. \<open>Notices\<close>
  (\<open>cmd/third-party-notices\<close>, \<open>git/repo.go\<close>): the report has one notice for each license file, in
  the order of their paths, or nothing is written.

  \<^bold>\<open>Bounds.\<close> No definition runs on fuel: every loop consumes its input or a buffer and its
  termination is proved. The schedules of \<open>Atomic_Max\<close>, \<open>Guarded\<close> and \<open>Bounded_Queue\<close> are lists of
  any length. Refinement theorems on encoded documents ask for a length below \<open>2^31\<close>, which is
  what the int32 length of BSON can express.

  \<^bold>\<open>Where the model is narrower than the code.\<close> A buffer that is returned next to an error is
  not modelled. \<open>slices.Clone\<close> and append copy. \<open>normalizeKeyEl\<close> reads the elements of the key
  document before the first of them is replaced, which is what the code sees when the names
  in it are distinct. A lock is its holders; that Go lets a waiting writer pass new readers only
  excludes schedules. A callback under the lock is a total function, so one that panics, blocks or
  calls the guard again is left out. \<open>contextplus\<close> errors are compared by identity (no \<open>Is\<close> methods),
  and the properties of \<open>Err\<close> are about a call during which the context does not end. \<open>sort.Slice\<close>
  is a stable sort where the keys are distinct. \<open>FindBestUnit\<close> is modelled for integer counts only.
  \<open>safecast.Convert\<close> between integer types is its range test. Times are integers that the environment reads. Generic functions over
  number types are modelled at an integer type and at float64, or take the operations of the type.
  \<open>strconv.FormatFloat\<close>, the Unicode tables of printable runes, the floor of \<open>math.Log2\<close>, the conversion of a float64 that does not fit
  an int64, and the order in which Go visits a map are arguments.

  \<^bold>\<open>Not modelled.\<close> The text of JSON and of regular expressions: \<open>encoding/json\<close> is a scanner and a
  printer of objects, the three expressions of \<open>cmd/third-party-notices\<close> are functions on bytes.
  What the operating system, git, the file system and \<open>log/slog\<close> do with a call.
  \<open>bsontools/bsontools.go\<close> has only a package comment. Of the vendored code only what the packages
  above call is modelled.
\<close>

section \<open>Properties that span components\<close>

text \<open>
  C9: sorting the bytes of a document is sorting the document: for every document \<open>MarshalD\<close>
  encodes itself, \<open>SortFields\<close> on its bytes gives the bytes \<open>MarshalD\<close> gives for the document whose
  fields are stably sorted by key at every depth (arrays keep their order), and \<open>UnmarshalToD\<close>
  on them returns that sorted document.
\<close>

theorem marshal_sort_unmarshal:
  assumes "\<And>d. bson_Marshal (GoRaw d) = Inr d" and "storable (GoD d)"
    and "length (enc_doc (go_fields d)) < 2147483648"
  shows "\<exists>raw sorted. MarshalD bson_Marshal bson_MarshalValue [] d = Inr raw
    \<and> SortFields raw = Inr sorted
    \<and> MarshalD bson_Marshal bson_MarshalValue [] (go_sort_fields d) = Inr sorted
    \<and> UnmarshalToD sorted = Inr (map (\<lambda>(k, v). (k, unmarshaled v)) (go_sort_fields d))"
proof -
  have s: "storable (GoD (go_sort_fields d))" using storable_go_sort [OF assms(2)] by simp
  have len: "length (enc_doc (go_fields (go_sort_fields d))) < 2147483648"
    using assms(3) by (simp add: length_enc_go_sort)
  have marshal: "MarshalD bson_Marshal bson_MarshalValue [] e = Inr (enc_doc (go_fields e))"
    if "storable (GoD e)" "length (enc_doc (go_fields e)) < 2147483648" for e
    using MarshalD_ok [OF that(1), of bson_Marshal bson_MarshalValue "[]"] assms(1) that(2)
    by (simp add: raw_marshal_def)
  have "SortFields (enc_doc (go_fields d)) = Inr (enc_doc (sort_fields (go_fields d)))"
    by (rule SortFields_enc [OF wf_go_fields [OF assms(2,3)]])
  then have "SortFields (enc_doc (go_fields d)) = Inr (enc_doc (go_fields (go_sort_fields d)))"
    by (simp add: sort_go_fields tree_sort_go)
  then show ?thesis
    using marshal [OF assms(2,3)] marshal [OF s len] UnmarshalToD_go [OF s len] by blast
qed

theorem marshal_sort_unmarshal_witness:
  "\<exists>sorted. MarshalD (\<lambda>v. case v of GoRaw d \<Rightarrow> Inr d | _ \<Rightarrow> Inl (Err RangeError)) (\<lambda>_. Inl (Err RangeError)) []
       [(str ''a'', GoNil), (str ''b'', GoBool True)] = Inr sorted
     \<and> UnmarshalToD sorted = Inr [(str ''a'', GoNil), (str ''b'', GoBool True)]"
proof -
  let ?d = "[(str ''b'', GoBool True), (str ''a'', GoNil)]"
  have "go_sort_fields ?d = [(str ''a'', GoNil), (str ''b'', GoBool True)]"
    by (simp add: go_sort_fields_def str_def)
  moreover have "storable (GoD ?d)" "length (enc_doc (go_fields ?d)) < 2147483648"
    by (simp_all add: str_def go_fields_def enc_doc_def AppendBoolean_def)
  ultimately show ?thesis
    using marshal_sort_unmarshal [of "\<lambda>v. case v of GoRaw d \<Rightarrow> Inr d | _ \<Rightarrow> Inl (Err RangeError)" ?d
        "\<lambda>_. Inl (Err RangeError)"] by auto
qed

text \<open>
  C10: an edit is seen by lookups, and only there: in the bytes \<open>MarshalD\<close> gives for a document,
  \<open>ReplaceInRaw\<close> of the value at a pointer by what \<open>ToRawValue\<close> makes of a Go value \<open>x\<close> is found;
  \<open>RawLookup\<close> at that pointer with \<open>RawValueTo\<close> for the type of \<open>x\<close> then returns \<open>x\<close>; and at every
  pointer that parts from it to another field, \<open>RawLookup\<close> returns what it returned before.
\<close>

theorem marshal_replace_lookup:
  assumes "\<And>d. bson_Marshal (GoRaw d) = Inr d" and "storable (GoD d)"
    and "tree_lookup (go_fields d) (p @ k # ks) = Inr v" and "scalar_go x"
    and "\<And>rv. ToRawValue x = Inr rv \<Longrightarrow> length (enc_doc (go_fields d)) + length (rv_value rv) < 2147483648"
  shows "\<exists>raw rv raw'. MarshalD bson_Marshal bson_MarshalValue [] d = Inr raw
    \<and> ToRawValue x = Inr rv
    \<and> ReplaceInRaw raw rv (p @ k # ks) = Inr (raw', True)
    \<and> RawLookup (RawValueTo (go_type x)) raw' (p @ k # ks) = Inr (canonical_go x)
    \<and> (\<forall>k' ks' conv. k' \<noteq> k \<longrightarrow>
         RawLookup (conv :: RawValue \<Rightarrow> goval res) raw' (p @ k' # ks') = RawLookup conv raw (p @ k' # ks'))"
proof -
  obtain t b where x: "ToRawValue x = Inr \<lparr>rv_type = t, rv_value = b\<rparr>" "wf_val (Scalar t b)"
    "RawValueTo (go_type x) \<lparr>rv_type = t, rv_value = b\<rparr> = Inr (canonical_go x)"
    using ToRawValue_wf [OF assms(4)] by blast
  let ?fs = "go_fields d" and ?ks = "p @ k # ks"
  have len: "length (enc_doc ?fs) + length b < 2147483648" using assms(5) [OF x(1)] by simp
  then have wf: "wf_doc ?fs" by (intro wf_go_fields [OF assms(2)]) simp
  have marshal: "MarshalD bson_Marshal bson_MarshalValue [] d = Inr (enc_doc ?fs)"
    using MarshalD_ok [OF assms(2), of bson_Marshal bson_MarshalValue "[]"] assms(1) len
    by (simp add: raw_marshal_def)
  obtain fs' where fs': "tree_edit (Some (Scalar t b)) ?fs ?ks = Inr (Some fs')" "tree_lookup fs' ?ks = Inr (Scalar t b)"
    "list_all wf_field fs'" "length (enc_doc fs') + length (enc_val v) = length (enc_doc ?fs) + length b"
    using tree_replace_found [OF assms(3) x(2)] wf by (auto simp: wf_doc_def)
  have wf': "wf_doc fs'" using fs'(3,4) len by (simp add: wf_doc_def fits_def)
  have "ReplaceInRaw (enc_doc ?fs) \<lparr>rv_type = t, rv_value = b\<rparr> ?ks = Inr (enc_doc fs', True)"
    using replaceOrRemove_enc [OF wf, of "Some (Scalar t b)" ?ks "[]"] fs'(1) wf'
    by (simp add: ReplaceInRaw_def wf_doc_def raw_of_def)
  moreover have "RawLookup (RawValueTo (go_type x)) (enc_doc fs') ?ks = Inr (canonical_go x)"
    using x(3) fs'(2) by (simp add: RawLookup_def LookupErr_enc [OF wf'] raw_of_def)
  moreover have "RawLookup conv (enc_doc fs') (p @ k' # ks') = RawLookup conv (enc_doc ?fs) (p @ k' # ks')"
    if "k' \<noteq> k" for conv :: "RawValue \<Rightarrow> goval res" and k' ks'
    using tree_edit_other [OF fs'(1) that]
    by (simp add: RawLookup_def LookupErr_enc [OF wf'] LookupErr_enc [OF wf])
  ultimately show ?thesis using marshal x(1) by blast
qed

theorem marshal_replace_lookup_witness:
  "\<exists>raw raw'. MarshalD (\<lambda>v. case v of GoRaw d \<Rightarrow> Inr d | _ \<Rightarrow> Inl (Err RangeError)) (\<lambda>_. Inl (Err RangeError)) []
       [(str ''a'', GoD [(str ''b'', GoNil)])] = Inr raw
     \<and> ReplaceInRaw raw (i32ToRawValue 7) [str ''a'', str ''b''] = Inr (raw', True)
     \<and> RawLookup (RawValueTo TInt32) raw' [str ''a'', str ''b''] = Inr (GoInt32 7)"
proof -
  let ?d = "[(str ''a'', GoD [(str ''b'', GoNil)])]"
  have "storable (GoD ?d)" "tree_lookup (go_fields ?d) ([str ''a''] @ str ''b'' # []) = Inr (Scalar TypeNull [])"
    "length (enc_doc (go_fields ?d)) + 4 < 2147483648"
    by (simp_all add: str_def go_fields_def enc_doc_def)
  then show ?thesis
    using marshal_replace_lookup [of "\<lambda>v. case v of GoRaw d \<Rightarrow> Inr d | _ \<Rightarrow> Inl (Err RangeError)" ?d
        "[str ''a'']" "str ''b''" "[]" "Scalar TypeNull []" "GoInt32 7" "\<lambda>_. Inl (Err RangeError)"]
    by (auto simp: i32ToRawValue_def)
qed

end
